(* ===== verification/Prelude.thy ===== *)
theory Prelude
  imports Main "HOL-Library.Word"
begin

unbundle bit_operations_syntax

section \<open>Prelude: results, machine types and table scans\<close>

text \<open>
  Shared by every component of the development:
  \<^item> the integer types of \<^verbatim>\<open>types.h\<close> and the constants of \<^verbatim>\<open>param.h\<close>, \<^verbatim>\<open>mmu.h\<close> and
    \<^verbatim>\<open>memlayout.h\<close>;
  \<^item> the result type of kernel code. A C function that may call \<^verbatim>\<open>panic\<close>, spin on a lock or
    put its process to sleep returns \<open>'s fault + 'a\<close>: \<open>Inr\<close> for a normal return, \<open>Inl\<close> for
    the ways in which control does not come back to the caller by itself: a panic, a lock that
    another CPU holds, a \<^verbatim>\<open>swtch\<close> from the process to the scheduler with the state at that moment,
    and the use of a null pointer. \<open>Wrapped\<close> marks a loop
    over the pages of an address range whose counter passed the end of the address space, after
    which the model does not follow it. \<open>Halted s\<close> is a CPU that loops forever with interrupts off, and
    \<open>Overrun\<close> a store past the end of an array on the stack;
  \<^item> \<open>kbind\<close>, the sequencing of such calls, and its rules (collection \<open>kbind_simps\<close>);
  \<^item> \<open>find_idx\<close>, the \<^verbatim>\<open>for(p = tab; p < &tab[N]; p++) if(...)\<close> scan that the process, file,
    inode and CPU tables all use.
\<close>

named_theorems kbind_simps \<open>rules that run a sequence of kernel calls\<close>
named_theorems page_simps \<open>page-address arithmetic\<close>

subsection \<open>Machine integers and constants\<close>

type_synonym u8 = "8 word"
type_synonym u16 = "16 word"
type_synonym u32 = "32 word"

abbreviation (input) NPROC :: nat where "NPROC \<equiv> 64"
abbreviation (input) KSTACKSIZE :: u32 where "KSTACKSIZE \<equiv> 4096"
abbreviation (input) NOFILE :: nat where "NOFILE \<equiv> 16"
abbreviation (input) NFILE :: nat where "NFILE \<equiv> 100"
abbreviation (input) NINODE :: nat where "NINODE \<equiv> 50"
abbreviation (input) MAXOPBLOCKS :: nat where "MAXOPBLOCKS \<equiv> 10"
abbreviation (input) LOGSIZE :: nat where "LOGSIZE \<equiv> 30"
abbreviation (input) NBUF :: nat where "NBUF \<equiv> 30"

abbreviation (input) PGSIZE :: u32 where "PGSIZE \<equiv> 4096"
abbreviation (input) PHYSTOP :: u32 where "PHYSTOP \<equiv> 0x20000000"
abbreviation (input) KERNBASE :: u32 where "KERNBASE \<equiv> 0x80000000"

definition PGROUNDUP :: "u32 \<Rightarrow> u32" where
  "PGROUNDUP sz = (sz + PGSIZE - 1) AND NOT (PGSIZE - 1)"

definition PGROUNDDOWN :: "u32 \<Rightarrow> u32" where
  "PGROUNDDOWN a = a AND NOT (PGSIZE - 1)"

definition V2P :: "u32 \<Rightarrow> u32" where
  "V2P a = a - KERNBASE"

definition P2V :: "u32 \<Rightarrow> u32" where
  "P2V a = a + KERNBASE"

subsection \<open>Locks and sleep channels\<close>

text \<open>
  The kernel's spin locks and sleep channels are addresses of objects. Only their identity
  matters, so each is a constructor naming the object.
\<close>

datatype lockid =
    PtableLock | KmemLock | TicksLock | BcacheLock | IcacheLock | LogLock | FtableLock
  | ConsLock
  | PipeLock u32
  | BufLk nat
  | InodeLk nat

datatype chan =
    ChanProc nat
  | ChanTicks
  | ChanPipeR u32
  | ChanPipeW u32
  | ChanBuf nat
  | ChanInode nat
  | ChanLog
  | ChanInput

subsection \<open>Results of kernel code\<close>

datatype 's fault =
    Panic string
  | Spin lockid
  | Swtch 's
  | NullPtr
  | Wrapped
  | Halted 's
  | Overrun

fun kbind :: "'e + 'a \<Rightarrow> ('a \<Rightarrow> 'e + 'b) \<Rightarrow> 'e + 'b" where
  "kbind (Inl e) f = Inl e"
| "kbind (Inr a) f = f a"

text \<open>The first index of a table whose entry satisfies a test.\<close>

fun find_idx :: "('a \<Rightarrow> bool) \<Rightarrow> 'a list \<Rightarrow> nat option" where
  "find_idx P [] = None"
| "find_idx P (x # xs) = (if P x then Some 0 else map_option Suc (find_idx P xs))"

subsection \<open>Rules for sequencing\<close>

lemmas kbind_run [kbind_simps] = kbind.simps

lemma kbind_assoc [kbind_simps]: "kbind (kbind m f) g = kbind m (\<lambda>x. kbind (f x) g)"
  by (cases m) auto

lemma kbind_Inr_right [kbind_simps]: "kbind m Inr = m"
  by (cases m) auto

lemma kbind_eq_Inr_iff: "kbind m f = Inr y \<longleftrightarrow> (\<exists>x. m = Inr x \<and> f x = Inr y)"
  by (cases m) auto

lemma kbind_InrE:
  assumes "kbind m f = Inr y"
  obtains x where "m = Inr x" and "f x = Inr y"
  using assms by (auto simp: kbind_eq_Inr_iff)

lemma kbind_cong [fundef_cong]:
  "m = m' \<Longrightarrow> (\<And>x. m' = Inr x \<Longrightarrow> f x = g x) \<Longrightarrow> kbind m f = kbind m' g"
  by (cases m') auto

lemma kbind_if: "kbind (if b then m else m') f = (if b then kbind m f else kbind m' f)"
  by simp

text \<open>Code that never gives up the processor.\<close>

definition noswtch :: "'s fault + 'a \<Rightarrow> bool" where
  "noswtch m \<longleftrightarrow> (\<forall>t. m \<noteq> Inl (Swtch t))"

named_theorems noswtch_intros \<open>code that never gives up the processor\<close>

lemma noswtch_kbind [noswtch_intros]:
  "noswtch m \<Longrightarrow> (\<And>x. m = Inr x \<Longrightarrow> noswtch (f x)) \<Longrightarrow> noswtch (kbind m f)"
  by (cases m) (auto simp: noswtch_def)

lemma noswtch_simps [simp]:
  "noswtch (Inr x)" "noswtch (Inl (Panic msg))" "noswtch (Inl (Spin l))" "noswtch (Inl NullPtr)" "noswtch (Inl Wrapped)" "noswtch (Inl (Halted u))" "noswtch (Inl Overrun)"
  "\<not> noswtch (Inl (Swtch t))"
  by (auto simp: noswtch_def)

lemma noswtch_if [noswtch_intros]:
  "(b \<Longrightarrow> noswtch m) \<Longrightarrow> (\<not> b \<Longrightarrow> noswtch m') \<Longrightarrow> noswtch (if b then m else m')"
  by simp

lemma noswtch_Let [noswtch_intros]: "noswtch (f x) \<Longrightarrow> noswtch (Let x f)"
  by simp

lemma noswtch_prod [noswtch_intros]: "(\<And>a b. x = (a, b) \<Longrightarrow> noswtch (f a b)) \<Longrightarrow> noswtch (case x of (a, b) \<Rightarrow> f a b)"
  by (cases x) simp

lemma noswtch_option [noswtch_intros]:
  "noswtch m \<Longrightarrow> (\<And>a. x = Some a \<Longrightarrow> noswtch (f a)) \<Longrightarrow> noswtch (case x of None \<Rightarrow> m | Some a \<Rightarrow> f a)"
  by (cases x) simp_all

lemma kbind_eq_Swtch:
  "kbind m f = Inl (Swtch t) \<Longrightarrow> noswtch m \<Longrightarrow> \<exists>x. m = Inr x \<and> f x = Inl (Swtch t)"
  by (cases m) (auto simp: noswtch_def)

subsection \<open>Rules for table scans\<close>

lemma find_idx_SomeD:
  "find_idx P xs = Some i \<Longrightarrow> i < length xs \<and> P (xs ! i) \<and> (\<forall>j<i. \<not> P (xs ! j))"
proof (induction xs arbitrary: i)
  case Nil
  then show ?case by simp
next
  case (Cons x xs)
  show ?case
  proof (cases "P x")
    case True
    with Cons.prems show ?thesis by simp
  next
    case False
    with Cons.prems obtain k where k: "find_idx P xs = Some k" "i = Suc k"
      by auto
    with Cons.IH False show ?thesis
      by (auto simp: less_Suc_eq_0_disj)
  qed
qed

lemma find_idx_None_iff: "find_idx P xs = None \<longleftrightarrow> (\<forall>x \<in> set xs. \<not> P x)"
  by (induction xs) auto

lemma find_idx_SomeI:
  assumes "i < length xs" and "P (xs ! i)" and "\<forall>j<i. \<not> P (xs ! j)"
  shows "find_idx P xs = Some i"
proof (cases "find_idx P xs")
  case None
  with assms(1,2) show ?thesis by (auto simp: find_idx_None_iff)
next
  case (Some k)
  with assms show ?thesis
    using find_idx_SomeD [OF Some] by (metis linorder_neqE_nat)
qed

lemma find_idx_Some_iff:
  "find_idx P xs = Some i \<longleftrightarrow> i < length xs \<and> P (xs ! i) \<and> (\<forall>j<i. \<not> P (xs ! j))"
  using find_idx_SomeD find_idx_SomeI by metis

lemma find_idx_length: "find_idx P xs = Some i \<Longrightarrow> i < length xs"
  by (simp add: find_idx_Some_iff)

lemma find_idx_map: "find_idx P (map f xs) = find_idx (P \<circ> f) xs"
  by (induction xs) auto

lemma find_idx_replicate [simp]: "find_idx P (replicate n x) = (if 0 < n \<and> P x then Some 0 else None)"
  by (induction n) auto

lemma find_idx_list_update_same:
  assumes "P (f (xs ! i)) = P (xs ! i)" and "i < length xs"
  shows "find_idx P (xs[i := f (xs ! i)]) = find_idx P xs"
  using assms
proof (induction xs arbitrary: i)
  case Nil
  then show ?case by simp
next
  case (Cons x xs)
  then show ?case by (cases i) auto
qed

subsection \<open>Arithmetic of page addresses\<close>

definition page_aligned :: "u32 \<Rightarrow> bool" where
  "page_aligned a \<longleftrightarrow> a mod PGSIZE = 0"

lemma page_aligned_unat: "page_aligned a \<longleftrightarrow> unat a mod 4096 = 0"
proof -
  have "unat (a mod PGSIZE) = unat a mod 4096"
    by (simp add: unat_mod)
  then show ?thesis
    unfolding page_aligned_def by (metis unat_eq_0)
qed

text \<open>Adding an offset below the page size to a page address does not wrap around.\<close>

lemma unat_page_offset:
  assumes "page_aligned a" and "i < 4096"
  shows "unat (a + of_nat i) = unat a + i"
proof -
  from assms(1) obtain k where k: "unat a = 4096 * k"
    by (auto simp: page_aligned_unat)
  have "unat a < 2 ^ 32" using unsigned_less [of a] by simp
  with k have "k < 2 ^ 20" by simp
  with k assms(2) have "unat a + i < 2 ^ 32" by simp
  moreover from assms(2) have "unat (of_nat i :: u32) = i"
    by (simp add: unat_of_nat)
  ultimately show ?thesis
    by (simp add: unat_word_ariths)
qed

lemma aligned_split:
  fixes m n i j :: nat
  assumes "m + i = n + j" and "m mod 4096 = 0" and "n mod 4096 = 0" and "i < 4096" and "j < 4096"
  shows "m div 4096 = n div 4096 \<and> i = j"
proof -
  from assms(2,3) obtain k l where "m = 4096 * k" and "n = 4096 * l"
    by (metis mod_0_imp_dvd dvdE)
  with assms(1,4,5) have "k = l" by linarith
  with \<open>m = 4096 * k\<close> \<open>n = 4096 * l\<close> assms(1) show ?thesis by simp
qed

lemma page_offset_eq_iff:
  assumes "page_aligned a" and "page_aligned b" and "i < 4096" and "j < 4096"
  shows "a + of_nat i = b + of_nat j \<longleftrightarrow> a = b \<and> i = j"
proof
  assume eq: "a + of_nat i = b + of_nat j"
  have sum: "unat a + i = unat b + j"
    using arg_cong [OF eq, of unat] assms by (simp add: unat_page_offset)
  have "unat a mod 4096 = 0" and "unat b mod 4096 = 0"
    using assms(1,2) by (simp_all add: page_aligned_unat)
  then have "i = j"
    using aligned_split [OF sum] assms(3,4) by simp
  with sum have "unat a = unat b \<and> i = j" by simp
  then show "a = b \<and> i = j" by (simp add: word_unat_eq_iff)
qed simp

subsection \<open>The C type int\<close>

text \<open>The increment of a signed 32-bit counter, as the machine's addition computes it.\<close>

definition int_inc :: "int \<Rightarrow> int" where
  "int_inc x = (if x = 2147483647 then -2147483648 else x + 1)"

lemma int_inc_small: "x < 2147483647 \<Longrightarrow> int_inc x = x + 1"
  by (simp add: int_inc_def)

end
