(* ===== verification/Spinlock.thy ===== *)
theory Spinlock
  imports Prelude
begin

section \<open>Spin locks and per-CPU interrupt state\<close>

text \<open>
  Models \<^verbatim>\<open>src/spinlock.c\<close> and the per-CPU part of \<^verbatim>\<open>src/proc.c\<close> (\<^verbatim>\<open>cpuid\<close>, \<^verbatim>\<open>mycpu\<close>, \<^verbatim>\<open>myproc\<close>).
  The state \<open>mach\<close> is the bottom layer of the kernel state: every other component extends this
  record, so the lock operations below run unchanged on the state of any component.
  Of \<^verbatim>\<open>struct cpu\<close> the descriptor table, the boot flag and all of the task state but its kernel stack
  pointer \<^verbatim>\<open>ts.esp0\<close> are left out.
  \<^verbatim>\<open>lk->pcs\<close> and \<^verbatim>\<open>lk->name\<close>, which the code keeps for debugging, are left out. A failed
  \<^verbatim>\<open>xchg\<close> is the result \<open>Spin\<close>: another CPU must act before this one continues.
\<close>

subsection \<open>State\<close>

record spinlock =
  locked :: bool
  lk_cpu :: "nat option"

record cpu =
  apicid :: u8
  ncli :: int
  intena :: bool
  cpu_proc :: "nat option"
  sched_policy :: int
  ts_esp0 :: u32

text \<open>
  \<open>lapic_id\<close> is what \<^verbatim>\<open>lapicid()\<close> reads on the CPU that executes, \<open>FL_IF\<close> the interrupt flag
  of the CPU with a given APIC id.
\<close>

record mach =
  cpus :: "cpu list"
  lapic_id :: u8
  FL_IF :: "u8 \<Rightarrow> bool"
  locks :: "lockid \<Rightarrow> spinlock"

definition unlocked :: spinlock where
  "unlocked = \<lparr>locked = False, lk_cpu = None\<rparr>"

definition upd_cpu :: "nat \<Rightarrow> (cpu \<Rightarrow> cpu) \<Rightarrow> 'a mach_scheme \<Rightarrow> 'a mach_scheme" where
  "upd_cpu i f s = s\<lparr>cpus := (cpus s)[i := f (cpus s ! i)]\<rparr>"

subsection \<open>Operations\<close>

definition readeflags_IF :: "'a mach_scheme \<Rightarrow> bool" where
  "readeflags_IF s = FL_IF s (lapic_id s)"

definition cli :: "'a mach_scheme \<Rightarrow> 'a mach_scheme" where
  "cli s = s\<lparr>FL_IF := (FL_IF s)(lapic_id s := False)\<rparr>"

definition sti :: "'a mach_scheme \<Rightarrow> 'a mach_scheme" where
  "sti s = s\<lparr>FL_IF := (FL_IF s)(lapic_id s := True)\<rparr>"

definition mycpu :: "'a mach_scheme \<Rightarrow> 'a mach_scheme fault + nat" where
  "mycpu s =
     (if readeflags_IF s then Inl (Panic ''mycpu called with interrupts enabled'')
      else case find_idx (\<lambda>c. apicid c = lapic_id s) (cpus s) of
             Some i \<Rightarrow> Inr i
           | None \<Rightarrow> Inl (Panic ''unknown apicid''))"

definition cpuid :: "'a mach_scheme \<Rightarrow> 'a mach_scheme fault + nat" where
  "cpuid s = mycpu s"

definition initlock :: "lockid \<Rightarrow> 'a mach_scheme \<Rightarrow> 'a mach_scheme" where
  "initlock l s = s\<lparr>locks := (locks s)(l := \<lparr>locked = False, lk_cpu = None\<rparr>)\<rparr>"

definition holding :: "lockid \<Rightarrow> 'a mach_scheme \<Rightarrow> 'a mach_scheme fault + bool" where
  "holding l s =
     (if locked (locks s l)
      then kbind (mycpu s) (\<lambda>c. Inr (lk_cpu (locks s l) = Some c))
      else Inr False)"

definition pushcli :: "'a mach_scheme \<Rightarrow> 'a mach_scheme fault + 'a mach_scheme" where
  "pushcli s =
     (let eflags = readeflags_IF s; s = cli s in
      kbind (mycpu s) (\<lambda>c.
      let s = (if ncli (cpus s ! c) = 0 then upd_cpu c (\<lambda>x. x\<lparr>intena := eflags\<rparr>) s else s) in
      Inr (upd_cpu c (\<lambda>x. x\<lparr>ncli := ncli x + 1\<rparr>) s)))"

definition popcli :: "'a mach_scheme \<Rightarrow> 'a mach_scheme fault + 'a mach_scheme" where
  "popcli s =
     (if readeflags_IF s then Inl (Panic ''popcli - interruptible'')
      else kbind (mycpu s) (\<lambda>c.
        let s = upd_cpu c (\<lambda>x. x\<lparr>ncli := ncli x - 1\<rparr>) s in
        if ncli (cpus s ! c) < 0 then Inl (Panic ''popcli'')
        else if ncli (cpus s ! c) = 0 \<and> intena (cpus s ! c) then Inr (sti s)
        else Inr s))"

definition acquire :: "lockid \<Rightarrow> 'a mach_scheme \<Rightarrow> 'a mach_scheme fault + 'a mach_scheme" where
  "acquire l s =
     kbind (pushcli s) (\<lambda>s.
     kbind (holding l s) (\<lambda>h.
     if h then Inl (Panic ''acquire'')
     else if locked (locks s l) then Inl (Spin l)
     else
       let s = s\<lparr>locks := (locks s)(l := (locks s l)\<lparr>locked := True\<rparr>)\<rparr> in
       kbind (mycpu s) (\<lambda>c.
       Inr (s\<lparr>locks := (locks s)(l := (locks s l)\<lparr>lk_cpu := Some c\<rparr>)\<rparr>))))"

definition release :: "lockid \<Rightarrow> 'a mach_scheme \<Rightarrow> 'a mach_scheme fault + 'a mach_scheme" where
  "release l s =
     kbind (holding l s) (\<lambda>h.
     if \<not> h then Inl (Panic ''release'')
     else
       let s = s\<lparr>locks := (locks s)(l := (locks s l)\<lparr>lk_cpu := None\<rparr>)\<rparr>;
           s = s\<lparr>locks := (locks s)(l := (locks s l)\<lparr>locked := False\<rparr>)\<rparr> in
       popcli s)"

definition myproc :: "'a mach_scheme \<Rightarrow> 'a mach_scheme fault + nat option \<times> 'a mach_scheme" where
  "myproc s =
     kbind (pushcli s) (\<lambda>s.
     kbind (mycpu s) (\<lambda>c.
     let p = cpu_proc (cpus s ! c) in
     kbind (popcli s) (\<lambda>s. Inr (p, s))))"

text \<open>Several CPUs taking and dropping locks, in any order, and enabling or disabling interrupts
  while they hold none.\<close>

inductive lock_step :: "mach \<Rightarrow> mach \<Rightarrow> bool" where
  acquire_step: "c < length (cpus s) \<Longrightarrow>
     acquire l (s\<lparr>lapic_id := apicid (cpus s ! c)\<rparr>) = Inr t \<Longrightarrow> lock_step s t"
| release_step: "c < length (cpus s) \<Longrightarrow>
     release l (s\<lparr>lapic_id := apicid (cpus s ! c)\<rparr>) = Inr t \<Longrightarrow> lock_step s t"
| interrupt_step: "c < length (cpus s) \<Longrightarrow> ncli (cpus s ! c) = 0 \<Longrightarrow>
     lock_step s (s\<lparr>FL_IF := (FL_IF s)(apicid (cpus s ! c) := b)\<rparr>)"

definition boot_mach :: "mach \<Rightarrow> bool" where
  "boot_mach s \<longleftrightarrow> distinct (map apicid (cpus s)) \<and> (\<forall>c \<in> set (cpus s). ncli c = 0) \<and>
     (\<forall>l. locks s l = unlocked)"

inductive lock_reachable :: "mach \<Rightarrow> bool" where
  lock_boot: "boot_mach s \<Longrightarrow> lock_reachable s"
| lock_next: "lock_reachable s \<Longrightarrow> lock_step s t \<Longrightarrow> lock_reachable t"

text \<open>The discipline the locks keep on every CPU.\<close>

definition held_by :: "'a mach_scheme \<Rightarrow> nat \<Rightarrow> lockid set" where
  "held_by s c = {l. lk_cpu (locks s l) = Some c}"

definition lock_inv :: "'a mach_scheme \<Rightarrow> bool" where
  "lock_inv s \<longleftrightarrow>
     distinct (map apicid (cpus s)) \<and>
     (\<forall>l. locked (locks s l) \<longleftrightarrow> lk_cpu (locks s l) \<noteq> None) \<and>
     (\<forall>c < length (cpus s). finite (held_by s c) \<and> ncli (cpus s ! c) = int (card (held_by s c)) \<and>
        (held_by s c \<noteq> {} \<longrightarrow> \<not> FL_IF s (apicid (cpus s ! c))))"

subsection \<open>Running the lock operations\<close>

text \<open>\<open>on_cpu c s\<close>: the executing CPU is \<^verbatim>\<open>cpus[c]\<close>.\<close>

definition on_cpu :: "nat \<Rightarrow> 'a mach_scheme \<Rightarrow> bool" where
  "on_cpu c s \<longleftrightarrow> find_idx (\<lambda>c. apicid c = lapic_id s) (cpus s) = Some c"

text \<open>One level of \<^verbatim>\<open>pushcli\<close> and \<^verbatim>\<open>popcli\<close> on a CPU whose interrupt flag was \<open>b\<close>, and what the pair
  leaves behind (\<^verbatim>\<open>intena\<close> of an unnested CPU).\<close>

definition cpu_push :: "bool \<Rightarrow> cpu \<Rightarrow> cpu" where
  "cpu_push b x = x\<lparr>intena := (if ncli x = 0 then b else intena x), ncli := ncli x + 1\<rparr>"

definition cpu_pop :: "cpu \<Rightarrow> cpu" where
  "cpu_pop x = x\<lparr>ncli := ncli x - 1\<rparr>"

definition cpu_mark :: "bool \<Rightarrow> cpu \<Rightarrow> cpu" where
  "cpu_mark b x = x\<lparr>intena := (if ncli x = 0 then b else intena x)\<rparr>"

text \<open>The state inside \<^verbatim>\<open>pushcli ... popcli\<close>, inside \<^verbatim>\<open>acquire(l) ... release(l)\<close>, and after them.\<close>

definition push_state :: "nat \<Rightarrow> 'a mach_scheme \<Rightarrow> 'a mach_scheme" where
  "push_state c s = s\<lparr>
     cpus := (cpus s)[c := cpu_push (FL_IF s (lapic_id s)) (cpus s ! c)],
     FL_IF := (FL_IF s)(lapic_id s := False)\<rparr>"

definition hold :: "lockid \<Rightarrow> nat \<Rightarrow> 'a mach_scheme \<Rightarrow> 'a mach_scheme" where
  "hold l c s = (push_state c s)\<lparr>locks := (locks s)(l := \<lparr>locked = True, lk_cpu = Some c\<rparr>)\<rparr>"

definition pop_state :: "nat \<Rightarrow> 'a mach_scheme \<Rightarrow> 'a mach_scheme" where
  "pop_state c s = s\<lparr>
     cpus := (cpus s)[c := cpu_pop (cpus s ! c)],
     FL_IF := (FL_IF s)(lapic_id s := (ncli (cpus s ! c) = 1 \<and> intena (cpus s ! c)))\<rparr>"

definition unhold :: "lockid \<Rightarrow> nat \<Rightarrow> 'a mach_scheme \<Rightarrow> 'a mach_scheme" where
  "unhold l c s = (pop_state c s)\<lparr>locks := (locks s)(l := unlocked)\<rparr>"

definition cli_mark :: "nat \<Rightarrow> 'a mach_scheme \<Rightarrow> 'a mach_scheme" where
  "cli_mark c s = s\<lparr>cpus := (cpus s)[c := cpu_mark (FL_IF s (lapic_id s)) (cpus s ! c)]\<rparr>"

text \<open>What a nested \<^verbatim>\<open>pushcli\<close> relies on: a CPU inside one runs with interrupts off.\<close>

definition cli_ok :: "nat \<Rightarrow> 'a mach_scheme \<Rightarrow> bool" where
  "cli_ok c s \<longleftrightarrow> on_cpu c s \<and> 0 \<le> ncli (cpus s ! c) \<and>
     (0 < ncli (cpus s ! c) \<longrightarrow> \<not> FL_IF s (lapic_id s))"

lemma cpu_push_simps [simp]:
  "apicid (cpu_push b x) = apicid x" "ncli (cpu_push b x) = ncli x + 1"
  "intena (cpu_push b x) = (if ncli x = 0 then b else intena x)"
  "cpu_proc (cpu_push b x) = cpu_proc x" "sched_policy (cpu_push b x) = sched_policy x"
  "ts_esp0 (cpu_push b x) = ts_esp0 x"
  by (simp_all add: cpu_push_def)

lemma cpu_pop_simps [simp]:
  "apicid (cpu_pop x) = apicid x" "ncli (cpu_pop x) = ncli x - 1" "intena (cpu_pop x) = intena x"
  "cpu_proc (cpu_pop x) = cpu_proc x" "sched_policy (cpu_pop x) = sched_policy x"
  "ts_esp0 (cpu_pop x) = ts_esp0 x"
  by (simp_all add: cpu_pop_def)

lemma cpu_mark_simps [simp]:
  "apicid (cpu_mark b x) = apicid x" "ncli (cpu_mark b x) = ncli x"
  "intena (cpu_mark b x) = (if ncli x = 0 then b else intena x)"
  "cpu_proc (cpu_mark b x) = cpu_proc x" "sched_policy (cpu_mark b x) = sched_policy x"
  "ts_esp0 (cpu_mark b x) = ts_esp0 x"
  by (simp_all add: cpu_mark_def)

lemma cpu_pop_push [simp]: "cpu_pop (cpu_push b x) = cpu_mark b x"
  by (simp add: cpu_pop_def cpu_push_def cpu_mark_def)

lemma cpu_mark_mark [simp]: "cpu_mark b (cpu_mark b x) = cpu_mark b x"
  by (simp add: cpu_mark_def)

lemma on_cpu_length: "on_cpu c s \<Longrightarrow> c < length (cpus s)"
  by (auto simp: on_cpu_def dest: find_idx_length)

lemma on_cpu_unique: "on_cpu c s \<Longrightarrow> on_cpu d s \<Longrightarrow> c = d"
  by (simp add: on_cpu_def)

lemma on_cpu_apicid: "on_cpu c s \<Longrightarrow> apicid (cpus s ! c) = lapic_id s"
  by (auto simp: on_cpu_def dest: find_idx_SomeD)

lemma map_apicid_upd [simp]:
  assumes "apicid x = apicid (cs ! c)"
  shows "map apicid (cs[c := x]) = map apicid cs"
  using assms by (cases "c < length cs") (auto simp: map_update list_update_beyond intro: list_update_same_conv [THEN iffD2])

lemma on_cpu_cong:
  assumes "map apicid (cpus t) = map apicid (cpus s)" and "lapic_id t = lapic_id s"
  shows "on_cpu c t = on_cpu c s"
proof -
  have "find_idx (\<lambda>c. apicid c = i) cs = find_idx (\<lambda>a. a = i) (map apicid cs)"
    for i and cs :: "cpu list"
    by (simp add: find_idx_map comp_def)
  with assms show ?thesis by (simp add: on_cpu_def)
qed

lemma mycpu_on_cpu: "on_cpu c s \<Longrightarrow> \<not> FL_IF s (lapic_id s) \<Longrightarrow> mycpu s = Inr c"
  by (simp add: mycpu_def readeflags_IF_def on_cpu_def)

lemma hold_sel [simp]:
  "cpus (hold l c s) = (cpus s)[c := cpu_push (FL_IF s (lapic_id s)) (cpus s ! c)]"
  "FL_IF (hold l c s) = (FL_IF s)(lapic_id s := False)"
  "lapic_id (hold l c s) = lapic_id s"
  "locks (hold l c s) = (locks s)(l := \<lparr>locked = True, lk_cpu = Some c\<rparr>)"
  by (simp_all add: hold_def push_state_def)

lemma unhold_sel [simp]:
  "cpus (unhold l c s) = (cpus s)[c := cpu_pop (cpus s ! c)]"
  "FL_IF (unhold l c s) = (FL_IF s)(lapic_id s := (ncli (cpus s ! c) = 1 \<and> intena (cpus s ! c)))"
  "lapic_id (unhold l c s) = lapic_id s"
  "locks (unhold l c s) = (locks s)(l := unlocked)"
  by (simp_all add: unhold_def pop_state_def)

lemma spinlock_upd [simp]: "(x :: spinlock)\<lparr>locked := a, lk_cpu := b\<rparr> = \<lparr>locked = a, lk_cpu = b\<rparr>"
  by (cases x) simp

lemma on_cpu_states [simp]:
  "on_cpu c (push_state d s) = on_cpu c s"
  "on_cpu c (pop_state d s) = on_cpu c s"
  "on_cpu c (hold l d s) = on_cpu c s"
  "on_cpu c (unhold l d s) = on_cpu c s"
  "on_cpu c (cli_mark d s) = on_cpu c s"
  "on_cpu c (cli s) = on_cpu c s"
  "on_cpu c (sti s) = on_cpu c s"
  "on_cpu c (s\<lparr>locks := L\<rparr>) = on_cpu c s"
  by (rule on_cpu_cong; simp add: push_state_def pop_state_def hold_def unhold_def cli_mark_def cli_def
      sti_def)+

lemma FL_IF_cli [simp]: "FL_IF (cli s) = (FL_IF s)(lapic_id s := False)" "lapic_id (cli s) = lapic_id s"
  by (simp_all add: cli_def)

lemma pushcli_eq:
  assumes "on_cpu c s"
  shows "pushcli s = Inr (push_state c s)"
proof -
  have "mycpu (cli s) = Inr c"
    using assms by (intro mycpu_on_cpu) (auto simp: FL_IF_cli)
  with on_cpu_length [OF assms] show ?thesis
    by (auto simp: pushcli_def Let_def readeflags_IF_def intro!: mach.equality)
       (simp_all add: cli_def upd_cpu_def push_state_def cpu_push_def)
qed

lemma popcli_eq:
  assumes "on_cpu c s" and "\<not> FL_IF s (lapic_id s)" and "0 < ncli (cpus s ! c)"
  shows "popcli s = Inr (pop_state c s)"
proof -
  have "mycpu s = Inr c" using assms by (intro mycpu_on_cpu)
  with assms on_cpu_length [OF assms(1)] show ?thesis
    by (auto simp: popcli_def Let_def readeflags_IF_def upd_cpu_def pop_state_def cpu_pop_def sti_def
        fun_upd_idem)
qed

lemma acquire_eq:
  assumes "on_cpu c s" and "\<not> locked (locks s l)"
  shows "acquire l s = Inr (hold l c s)"
proof -
  have "mycpu ((push_state c s)\<lparr>locks := L\<rparr>) = Inr c" for L
    using assms(1) by (intro mycpu_on_cpu) (simp, simp add: push_state_def)
  then show ?thesis
    using assms by (simp add: acquire_def pushcli_eq holding_def hold_def push_state_def Let_def)
qed

lemma release_eq:
  assumes "on_cpu c s" and "\<not> FL_IF s (lapic_id s)" and "0 < ncli (cpus s ! c)"
    and "locks s l = \<lparr>locked = True, lk_cpu = Some c\<rparr>"
  shows "release l s = Inr (unhold l c s)"
proof -
  have "mycpu s = Inr c" using assms by (intro mycpu_on_cpu)
  moreover have "popcli (s\<lparr>locks := L\<rparr>) = Inr (pop_state c (s\<lparr>locks := L\<rparr>))" for L
    using assms by (intro popcli_eq) simp_all
  ultimately show ?thesis
    using assms(4)
    by (simp add: release_def holding_def Let_def unhold_def pop_state_def unlocked_def)
qed

text \<open>A lock taken and dropped again around a body that leaves the CPU state alone: the body's
  effect is all that remains, apart from \<^verbatim>\<open>intena\<close> of an unnested CPU.\<close>

lemma unhold_hold:
  assumes "cli_ok c s" and "locks s l = unlocked"
  shows "unhold l c (hold l c s) = cli_mark c s"
proof -
  from assms(1) have "c < length (cpus s)" by (simp add: cli_ok_def on_cpu_length)
  moreover have "(FL_IF s)(lapic_id s := (ncli (cpus s ! c) = 0 \<and> FL_IF s (lapic_id s))) = FL_IF s"
    using assms(1) by (auto simp: cli_ok_def fun_eq_iff)
  ultimately show ?thesis
    using assms(2)
    by (intro mach.equality) (auto simp: unhold_def hold_def push_state_def pop_state_def cli_mark_def)
qed

lemma cli_ok_on_cpu: "cli_ok c s \<Longrightarrow> on_cpu c s"
  by (simp add: cli_ok_def)

lemma cli_mark_sel [simp]:
  "cpus (cli_mark c s) = (cpus s)[c := cpu_mark (FL_IF s (lapic_id s)) (cpus s ! c)]"
  "FL_IF (cli_mark c s) = FL_IF s" "lapic_id (cli_mark c s) = lapic_id s"
  "locks (cli_mark c s) = locks s"
  by (simp_all add: cli_mark_def)

lemma cli_ok_cong:
  assumes "cpus t = cpus s" and "lapic_id t = lapic_id s" and "FL_IF t = FL_IF s"
  shows "cli_ok c t = cli_ok c s"
  using assms on_cpu_cong [of t s c] by (simp add: cli_ok_def)

lemma cli_ok_mark [simp]: "cli_ok c (cli_mark c s) = cli_ok c s"
  by (auto simp: cli_ok_def dest: on_cpu_length)

text \<open>A critical section whose body changes other components of the state only: \<open>t\<close> is the
  state at its end.\<close>

lemma acquire_free: "cli_ok c s \<Longrightarrow> locks s l = unlocked \<Longrightarrow> acquire l s = Inr (hold l c s)"
  by (intro acquire_eq) (simp_all add: cli_ok_def unlocked_def)

lemma release_after:
  assumes "cli_ok c s" and "cpus t = cpus (hold l c s)" and "lapic_id t = lapic_id s"
    and "FL_IF t = FL_IF (hold l c s)" and "locks t l = \<lparr>locked = True, lk_cpu = Some c\<rparr>"
  shows "release l t = Inr (unhold l c t)"
proof (rule release_eq)
  show "on_cpu c t"
    using assms cli_ok_on_cpu [OF assms(1)] on_cpu_cong [of t "hold l c s" c] by simp
  have "c < length (cpus s)" using assms(1) by (simp add: cli_ok_def on_cpu_length)
  then show "0 < ncli (cpus t ! c)"
    using assms(1,2) by (simp add: cli_ok_def)
qed (use assms in auto)

lemma unhold_after:
  assumes "cli_ok c s" and "locks s l = unlocked" and "cpus t = cpus (hold l c s)"
    and "lapic_id t = lapic_id s" and "FL_IF t = FL_IF (hold l c s)" and "locks t = locks (hold l c s)"
  shows "unhold l c t = t\<lparr>cpus := cpus (cli_mark c s), FL_IF := FL_IF s, locks := locks s\<rparr>"
proof -
  from assms(1) have "c < length (cpus s)" by (simp add: cli_ok_def on_cpu_length)
  moreover have "(FL_IF s)(lapic_id s := (ncli (cpus s ! c) = 0 \<and> FL_IF s (lapic_id s))) = FL_IF s"
    using assms(1) by (auto simp: cli_ok_def fun_eq_iff)
  ultimately show ?thesis
    using assms(2-)
    by (intro mach.equality) (auto simp: unhold_def pop_state_def)
qed

lemma release_back:
  assumes "cli_ok c s" and "locks s l = unlocked" and "cpus t = cpus (hold l c s)"
    and "lapic_id t = lapic_id s" and "FL_IF t = FL_IF (hold l c s)" and "locks t = locks (hold l c s)"
  shows "release l t = Inr (t\<lparr>cpus := cpus (cli_mark c s), FL_IF := FL_IF s, locks := locks s\<rparr>)"
  using release_after [of c s t l] unhold_after [OF assms] assms by simp

lemma cli_mark_nested [simp]:
  assumes "ncli (cpus s ! c) \<noteq> 0"
  shows "cli_mark c s = s"
  using assms by (intro mach.equality) (simp_all add: cli_mark_def cpu_mark_def)

lemma cli_ok_hold [simp]: "cli_ok c s \<Longrightarrow> cli_ok c (hold l c s)"
  by (auto simp: cli_ok_def dest: on_cpu_length)

lemma ncli_hold [simp]: "on_cpu c s \<Longrightarrow> ncli (cpus (hold l c s) ! c) = ncli (cpus s ! c) + 1"
  by (auto dest: on_cpu_length)

lemma myproc_eq:
  assumes "cli_ok c s"
  shows "myproc s = Inr (cpu_proc (cpus s ! c), cli_mark c s)"
proof -
  from assms have oc: "on_cpu c s" and len: "c < length (cpus s)"
    by (simp_all add: cli_ok_def on_cpu_length)
  have my: "mycpu (push_state c s) = Inr c"
    using oc by (intro mycpu_on_cpu) (simp, simp add: push_state_def)
  have pop: "popcli (push_state c s) = Inr (pop_state c (push_state c s))"
    using oc len assms by (intro popcli_eq) (simp, simp_all add: push_state_def cli_ok_def)
  have "(FL_IF s)(lapic_id s := (ncli (cpus s ! c) = 0 \<and> FL_IF s (lapic_id s))) = FL_IF s"
    using assms by (auto simp: cli_ok_def fun_eq_iff)
  then have "pop_state c (push_state c s) = cli_mark c s"
    using len by (intro mach.equality) (auto simp: push_state_def pop_state_def cli_mark_def)
  moreover have "cpu_proc (cpus (push_state c s) ! c) = cpu_proc (cpus s ! c)"
    using len by (simp add: push_state_def)
  ultimately show ?thesis
    using oc my pop by (simp add: myproc_def pushcli_eq)
qed

subsection \<open>What a successful call implies\<close>

lemma mycpu_InrD: "mycpu s = Inr c \<Longrightarrow> on_cpu c s \<and> \<not> FL_IF s (lapic_id s)"
  by (auto simp: mycpu_def on_cpu_def readeflags_IF_def split: if_splits option.splits)

lemma pushcli_InrD:
  assumes "pushcli s = Inr t"
  shows "\<exists>c. on_cpu c s \<and> t = push_state c s"
proof -
  from assms obtain c where "mycpu (cli s) = Inr c"
    by (auto simp: pushcli_def Let_def elim: kbind_InrE)
  then have "on_cpu c s" by (auto dest: mycpu_InrD)
  with assms show ?thesis by (auto simp: pushcli_eq)
qed

lemma popcli_InrD:
  assumes "popcli s = Inr t"
  shows "\<exists>c. on_cpu c s \<and> \<not> FL_IF s (lapic_id s) \<and> 0 < ncli (cpus s ! c) \<and> t = pop_state c s"
proof -
  from assms obtain c where my: "mycpu s = Inr c"
    by (auto simp: popcli_def kbind_eq_Inr_iff split: if_splits)
  then have c: "on_cpu c s" "\<not> FL_IF s (lapic_id s)" by (auto dest: mycpu_InrD)
  have "0 < ncli (cpus s ! c)"
    using assms my on_cpu_length [OF c(1)]
    by (auto simp: popcli_def Let_def upd_cpu_def split: if_splits)
  with assms c show ?thesis by (auto simp: popcli_eq)
qed

lemma acquire_InrD:
  assumes "acquire l s = Inr t"
  shows "\<exists>c. on_cpu c s \<and> \<not> locked (locks s l) \<and> t = hold l c s"
proof -
  from assms obtain s1 where "pushcli s = Inr s1"
    by (auto simp: acquire_def elim: kbind_InrE)
  then obtain c where c: "on_cpu c s" by (auto dest: pushcli_InrD)
  have "\<not> locked (locks s l)"
    using assms c
    by (auto simp: acquire_def pushcli_eq holding_def push_state_def kbind_eq_Inr_iff split: if_splits)
  with assms c show ?thesis by (auto simp: acquire_eq)
qed

lemma release_InrD:
  assumes "release l s = Inr t"
  shows "\<exists>c. on_cpu c s \<and> \<not> FL_IF s (lapic_id s) \<and> 0 < ncli (cpus s ! c) \<and>
    locks s l = \<lparr>locked = True, lk_cpu = Some c\<rparr> \<and> t = unhold l c s"
proof -
  from assms obtain c where my: "mycpu s = Inr c" and lk: "locked (locks s l)" "lk_cpu (locks s l) = Some c"
    by (auto simp: release_def holding_def Let_def kbind_eq_Inr_iff split: if_splits)
  from my have c: "on_cpu c s" "\<not> FL_IF s (lapic_id s)" by (auto dest: mycpu_InrD)
  from lk have l: "locks s l = \<lparr>locked = True, lk_cpu = Some c\<rparr>" by (cases "locks s l") simp
  have "mycpu (s\<lparr>locks := L\<rparr>) = Inr c" for L
    using c by (intro mycpu_on_cpu) simp_all
  then have "0 < ncli (cpus s ! c)"
    using assms my lk on_cpu_length [OF c(1)]
    by (auto simp: release_def holding_def Let_def popcli_def upd_cpu_def readeflags_IF_def
        split: if_splits)
  with assms c l show ?thesis by (auto simp: release_eq)
qed

lemma noswtch_mycpu [noswtch_intros]: "noswtch (mycpu s)"
  by (auto simp: mycpu_def split: option.splits)

lemma noswtch_holding [noswtch_intros]: "noswtch (holding l s)"
  unfolding holding_def by (intro noswtch_intros) simp_all

lemma noswtch_pushcli [noswtch_intros]: "noswtch (pushcli s)"
  unfolding pushcli_def by (intro noswtch_intros) simp

lemma noswtch_popcli [noswtch_intros]: "noswtch (popcli s)"
  unfolding popcli_def by (intro noswtch_intros) simp_all

lemma noswtch_acquire [noswtch_intros]: "noswtch (acquire l s)"
  unfolding acquire_def by (intro noswtch_intros) simp_all

lemma noswtch_release [noswtch_intros]: "noswtch (release l s)"
  unfolding release_def by (intro noswtch_intros) simp_all

lemma noswtch_myproc [noswtch_intros]: "noswtch (myproc s)"
  unfolding myproc_def by (intro noswtch_intros) simp_all

subsection \<open>The lock discipline is an invariant\<close>

lemma on_cpu_this:
  assumes "c < length (cpus s)" and "distinct (map apicid (cpus s))" and "lapic_id s = apicid (cpus s ! c)"
  shows "on_cpu c s"
  unfolding on_cpu_def
proof (rule find_idx_SomeI)
  show "\<forall>j<c. apicid (cpus s ! j) \<noteq> lapic_id s"
    using assms by (auto simp: distinct_conv_nth)
qed (use assms in auto)

lemma apicid_eq_iff:
  assumes "distinct (map apicid (cpus s))" and "i < length (cpus s)" and "j < length (cpus s)"
  shows "apicid (cpus s ! i) = apicid (cpus s ! j) \<longleftrightarrow> i = j"
  using assms by (auto simp: distinct_conv_nth)

lemma held_by_hold:
  "lk_cpu (locks s l) = None \<Longrightarrow> held_by (hold l c s) d = (if d = c then insert l (held_by s c) else held_by s d)"
  by (auto simp: held_by_def split: if_splits)

lemma held_by_unhold:
  "lk_cpu (locks s l) = Some c \<Longrightarrow> held_by (unhold l c s) d = (if d = c then held_by s c - {l} else held_by s d)"
  by (auto simp: held_by_def unlocked_def split: if_splits)

lemma lock_invD:
  assumes "lock_inv s"
  shows "distinct (map apicid (cpus s))" and "locked (locks s l) \<longleftrightarrow> lk_cpu (locks s l) \<noteq> None"
    and "c < length (cpus s) \<Longrightarrow> finite (held_by s c)"
    and "c < length (cpus s) \<Longrightarrow> ncli (cpus s ! c) = int (card (held_by s c))"
    and "c < length (cpus s) \<Longrightarrow> held_by s c \<noteq> {} \<Longrightarrow> \<not> FL_IF s (apicid (cpus s ! c))"
  using assms unfolding lock_inv_def by blast+

lemma lock_inv_hold:
  assumes inv: "lock_inv s" and c: "on_cpu c s" and free: "\<not> locked (locks s l)"
  shows "lock_inv (hold l c s)"
  unfolding lock_inv_def
proof (intro conjI allI impI)
  have none: "lk_cpu (locks s l) = None" using lock_invD(2) [OF inv, of l] free by simp
  then have notin: "l \<notin> held_by s c" by (simp add: held_by_def)
  note len = on_cpu_length [OF c] and held = held_by_hold [OF none] and dist = lock_invD(1) [OF inv]
  show "distinct (map apicid (cpus (hold l c s)))"
    using dist by simp
  show "locked (locks (hold l c s) k) \<longleftrightarrow> lk_cpu (locks (hold l c s) k) \<noteq> None" for k
    using lock_invD(2) [OF inv, of k] by simp
  fix d assume "d < length (cpus (hold l c s))"
  then have d: "d < length (cpus s)" by simp
  show "finite (held_by (hold l c s) d)"
    using lock_invD(3) [OF inv d] by (auto simp: held)
  show "ncli (cpus (hold l c s) ! d) = int (card (held_by (hold l c s) d))"
    using lock_invD(3,4) [OF inv d] d notin by (cases "d = c") (simp_all add: held)
  show "\<not> FL_IF (hold l c s) (apicid (cpus (hold l c s) ! d))" if "held_by (hold l c s) d \<noteq> {}"
    using lock_invD(5) [OF inv d] that on_cpu_apicid [OF c] d
    by (cases "d = c") (simp_all add: held)
qed

lemma lock_inv_unhold:
  assumes inv: "lock_inv s" and c: "on_cpu c s"
    and lk: "locks s l = \<lparr>locked = True, lk_cpu = Some c\<rparr>"
  shows "lock_inv (unhold l c s)"
  unfolding lock_inv_def
proof (intro conjI allI impI)
  have own: "lk_cpu (locks s l) = Some c" and mem: "l \<in> held_by s c" by (simp_all add: lk held_by_def)
  note len = on_cpu_length [OF c] and held = held_by_unhold [OF own] and dist = lock_invD(1) [OF inv]
  have pos: "card (held_by s c) = Suc (card (held_by s c - {l}))"
    using card_Suc_Diff1 [OF lock_invD(3) [OF inv len] mem] by simp
  show "distinct (map apicid (cpus (unhold l c s)))"
    using dist by simp
  show "locked (locks (unhold l c s) k) \<longleftrightarrow> lk_cpu (locks (unhold l c s) k) \<noteq> None" for k
    using lock_invD(2) [OF inv, of k] by (simp add: unlocked_def)
  fix d assume "d < length (cpus (unhold l c s))"
  then have d: "d < length (cpus s)" by simp
  show "finite (held_by (unhold l c s) d)"
    using lock_invD(3) [OF inv d] by (auto simp: held)
  show "ncli (cpus (unhold l c s) ! d) = int (card (held_by (unhold l c s) d))"
    using lock_invD(4) [OF inv d] d pos by (cases "d = c") (simp_all add: held)
  show "\<not> FL_IF (unhold l c s) (apicid (cpus (unhold l c s) ! d))" if ne: "held_by (unhold l c s) d \<noteq> {}"
  proof (cases "d = c")
    case True
    with ne have "held_by s c - {l} \<noteq> {}" by (simp add: held)
    then have "card (held_by s c - {l}) \<noteq> 0" using lock_invD(3) [OF inv len] by simp
    with True lock_invD(4) [OF inv len] pos len on_cpu_apicid [OF c] show ?thesis by simp
  next
    case False
    with ne have "held_by s d \<noteq> {}" by (simp add: held)
    moreover have "apicid (cpus s ! d) \<noteq> lapic_id s"
      using False apicid_eq_iff [OF dist d len] on_cpu_apicid [OF c] by simp
    ultimately show ?thesis
      using False lock_invD(5) [OF inv d] by simp
  qed
qed

lemma lock_inv_lapic [simp]: "lock_inv (s\<lparr>lapic_id := i\<rparr>) = lock_inv s"
  by (simp add: lock_inv_def held_by_def)

lemma lock_inv_step:
  assumes "lock_step s t" and "lock_inv s"
  shows "lock_inv t"
  using assms
proof cases
  case (acquire_step c l)
  have "lock_inv (s\<lparr>lapic_id := apicid (cpus s ! c)\<rparr>)" using assms(2) by simp
  with acquire_InrD [OF acquire_step(2)] show ?thesis by (blast intro: lock_inv_hold)
next
  case (release_step c l)
  have "lock_inv (s\<lparr>lapic_id := apicid (cpus s ! c)\<rparr>)" using assms(2) by simp
  with release_InrD [OF release_step(2)] show ?thesis by (blast intro: lock_inv_unhold)
next
  case (interrupt_step c b)
  note inv = lock_invD [OF assms(2)]
  have none: "held_by s c = {}"
    using inv(3,4) [of c] interrupt_step(2,3) by simp
  have neq: "apicid (cpus s ! d) \<noteq> apicid (cpus s ! c)" if "d < length (cpus s)" "held_by s d \<noteq> {}" for d
    using apicid_eq_iff [OF inv(1) that(1) interrupt_step(2)] that(2) none by blast
  have same: "held_by t d = held_by s d" for d
    unfolding interrupt_step(1) by (simp add: held_by_def)
  show ?thesis
    unfolding lock_inv_def same using inv neq by (simp add: interrupt_step(1))
qed

lemma lock_inv_boot: "boot_mach s \<Longrightarrow> lock_inv s"
  by (auto simp: boot_mach_def lock_inv_def held_by_def unlocked_def)

lemma lock_inv_reachable: "lock_reachable s \<Longrightarrow> lock_inv s"
  by (induction rule: lock_reachable.induct) (auto intro: lock_inv_boot lock_inv_step)

subsection \<open>Properties\<close>

text \<open>A machine with two CPUs, interrupts on, no lock taken.\<close>

definition demo_cpu :: "u8 \<Rightarrow> cpu" where
  "demo_cpu i = \<lparr>apicid = i, ncli = 0, intena = False, cpu_proc = None, sched_policy = 0, ts_esp0 = 0\<rparr>"

definition demo_mach :: mach where
  "demo_mach = \<lparr>cpus = [demo_cpu 0, demo_cpu 1], lapic_id = 1, FL_IF = (\<lambda>_. True), locks = (\<lambda>_. unlocked)\<rparr>"

lemma demo_mach_ok: "on_cpu 1 demo_mach" "cli_ok 1 demo_mach" "locks demo_mach l = unlocked"
  "boot_mach demo_mach" "length (cpus demo_mach) = 2" "apicid (cpus demo_mach ! 1) = lapic_id demo_mach"
  by (simp_all add: demo_mach_def demo_cpu_def on_cpu_def cli_ok_def boot_mach_def)

text \<open>C5. Lock discipline. Whatever the CPUs do with \<^verbatim>\<open>acquire\<close>, \<^verbatim>\<open>release\<close> and the interrupt flag, in any
  interleaving from boot on: the nesting count \<^verbatim>\<open>ncli\<close> of a CPU is the number of locks it holds, and
  a CPU that holds a lock has its interrupts off.\<close>

theorem lock_discipline:
  assumes "lock_reachable s" and "c < length (cpus s)"
  shows "ncli (cpus s ! c) = int (card (held_by s c)) \<and>
    (held_by s c \<noteq> {} \<longrightarrow> \<not> FL_IF s (apicid (cpus s ! c)))"
  using lock_invD(4,5) [OF lock_inv_reachable [OF assms(1)] assms(2)] by blast

theorem lock_discipline_witness:
  "PtableLock \<in> held_by (hold PtableLock 1 demo_mach) 1 \<and> \<not> FL_IF (hold PtableLock 1 demo_mach) 1"
proof -
  have "demo_mach\<lparr>lapic_id := apicid (cpus demo_mach ! 1)\<rparr> = demo_mach"
    unfolding demo_mach_ok(6) by simp
  moreover have "acquire PtableLock demo_mach = Inr (hold PtableLock 1 demo_mach)"
    using demo_mach_ok(3) by (intro acquire_eq demo_mach_ok(1)) (simp add: unlocked_def)
  ultimately have "lock_step demo_mach (hold PtableLock 1 demo_mach)"
    using demo_mach_ok(5) by (intro lock_step.acquire_step [of 1 _ PtableLock]) (simp_all only:)
  then have "lock_reachable (hold PtableLock 1 demo_mach)"
    by (rule lock_next [OF lock_boot [OF demo_mach_ok(4)]])
  from lock_discipline [OF this, of 1] show ?thesis
    by (auto simp: held_by_def demo_mach_def demo_cpu_def)
qed

text \<open>C6. An \<^verbatim>\<open>acquire\<close>/\<^verbatim>\<open>release\<close> pair on a free lock succeeds and restores the machine: the lock is free
  again, the nesting count and the interrupt flag are what they were, and only \<^verbatim>\<open>intena\<close> of a CPU
  that held no lock may differ.\<close>

theorem acquire_release:
  assumes "cli_ok c s" and "locks s l = unlocked"
  shows "kbind (acquire l s) (release l) = Inr (cli_mark c s)"
proof -
  from assms have oc: "on_cpu c s" and len: "c < length (cpus s)"
    by (simp_all add: cli_ok_def on_cpu_length)
  have "acquire l s = Inr (hold l c s)"
    using oc assms(2) by (simp add: acquire_eq unlocked_def)
  moreover have "release l (hold l c s) = Inr (unhold l c (hold l c s))"
    using oc len assms(1) by (intro release_eq) (simp_all add: cli_ok_def)
  ultimately show ?thesis using unhold_hold [OF assms] by simp
qed

theorem acquire_release_witness:
  "kbind (acquire KmemLock demo_mach) (release KmemLock) = Inr (cli_mark 1 demo_mach)"
  using acquire_release [OF demo_mach_ok(2,3)] .

text \<open>C7. Mutual exclusion. \<^verbatim>\<open>acquire\<close> of a lock that is taken never returns: it panics if the lock is held
  by the CPU that asks and spins if another CPU holds it.\<close>

theorem acquire_held:
  assumes "on_cpu c s" and "locks s l = \<lparr>locked = True, lk_cpu = Some d\<rparr>"
  shows "acquire l s = (if d = c then Inl (Panic ''acquire'') else Inl (Spin l))"
proof -
  have "mycpu (push_state c s) = Inr c"
    using assms(1) by (intro mycpu_on_cpu) (simp, simp add: push_state_def)
  moreover have "locks (push_state c s) l = \<lparr>locked = True, lk_cpu = Some d\<rparr>"
    using assms(2) by (simp add: push_state_def)
  ultimately show ?thesis
    using assms(1) by (simp add: acquire_def pushcli_eq holding_def)
qed

theorem acquire_held_witness:
  "acquire KmemLock (hold KmemLock 1 demo_mach) = Inl (Panic ''acquire'') \<and>
   acquire KmemLock (hold KmemLock 0 demo_mach) = Inl (Spin KmemLock)"
  using acquire_held [of 1 "hold KmemLock 1 demo_mach" KmemLock 1]
    acquire_held [of 1 "hold KmemLock 0 demo_mach" KmemLock 0] demo_mach_ok(1) by simp

end
