(* ===== verification/CString.thy ===== *)
theory CString
  imports Prelude
begin

section \<open>Byte memory and the kernel's string library\<close>

text \<open>
  Models \<^verbatim>\<open>src/string.c\<close> and the two string instructions of \<^verbatim>\<open>src/x86.h\<close> it uses. Memory is a
  function from 32-bit addresses to bytes, and pointer arithmetic wraps around as it does on
  the machine. Functions that only read their arguments take them as streams of bytes
  (\<open>nat \<Rightarrow> u8\<close>, the byte at each offset from the pointer), so that they apply both to memory
  and to the buffers other components keep as lists.
\<close>

type_synonym mem = "u32 \<Rightarrow> u8"
type_synonym cptr = "nat \<Rightarrow> u8"

definition at_mem :: "mem \<Rightarrow> u32 \<Rightarrow> cptr" where
  "at_mem m a = (\<lambda>i. m (a + of_nat i))"

text \<open>A buffer of known contents; reads past its end are read as \<open>0\<close>.\<close>

definition at_list :: "u8 list \<Rightarrow> cptr" where
  "at_list xs = (\<lambda>i. if i < length xs then xs ! i else 0)"

subsection \<open>32-bit little-endian accesses\<close>

definition store32 :: "u32 \<Rightarrow> u32 \<Rightarrow> mem \<Rightarrow> mem" where
  "store32 a v m = m(a := ucast v, a + 1 := ucast (drop_bit 8 v), a + 2 := ucast (drop_bit 16 v),
     a + 3 := ucast (drop_bit 24 v))"

definition load32 :: "mem \<Rightarrow> u32 \<Rightarrow> u32" where
  "load32 m a = ucast (m a) OR push_bit 8 (ucast (m (a + 1))) OR push_bit 16 (ucast (m (a + 2)))
     OR push_bit 24 (ucast (m (a + 3)))"

text \<open>The bytes \<open>xs\<close> stored from address \<open>a\<close> on.\<close>

primrec store_bytes :: "u32 \<Rightarrow> u8 list \<Rightarrow> mem \<Rightarrow> mem" where
  "store_bytes a [] m = m"
| "store_bytes a (x # xs) m = store_bytes (a + 1) xs (m(a := x))"

subsection \<open>x86 string instructions\<close>

fun stosb :: "u32 \<Rightarrow> u8 \<Rightarrow> nat \<Rightarrow> mem \<Rightarrow> mem" where
  "stosb a d 0 m = m"
| "stosb a d (Suc n) m = stosb (a + 1) d n (m(a := d))"

fun stosl :: "u32 \<Rightarrow> u32 \<Rightarrow> nat \<Rightarrow> mem \<Rightarrow> mem" where
  "stosl a d 0 m = m"
| "stosl a d (Suc n) m = stosl (a + 4) d n (store32 a d m)"

subsection \<open>string.c\<close>

definition memset :: "u32 \<Rightarrow> u32 \<Rightarrow> u32 \<Rightarrow> mem \<Rightarrow> mem" where
  "memset dst c n m =
     (if dst mod 4 = 0 \<and> n mod 4 = 0 then
        let c = c AND 0xFF in
        stosl dst (push_bit 24 c OR push_bit 16 c OR push_bit 8 c OR c) (unat (n div 4)) m
      else stosb dst (ucast c) (unat n) m)"

fun memcmp :: "cptr \<Rightarrow> cptr \<Rightarrow> nat \<Rightarrow> int" where
  "memcmp s1 s2 0 = 0"
| "memcmp s1 s2 (Suc n) =
     (if s1 0 \<noteq> s2 0 then uint (s1 0) - uint (s2 0)
      else memcmp (\<lambda>i. s1 (Suc i)) (\<lambda>i. s2 (Suc i)) n)"

fun copy_down :: "nat \<Rightarrow> u32 \<Rightarrow> u32 \<Rightarrow> mem \<Rightarrow> mem" where
  "copy_down 0 d s m = m"
| "copy_down (Suc n) d s m = (let d = d - 1; s = s - 1 in copy_down n d s (m(d := m s)))"

fun copy_up :: "nat \<Rightarrow> u32 \<Rightarrow> u32 \<Rightarrow> mem \<Rightarrow> mem" where
  "copy_up 0 d s m = m"
| "copy_up (Suc n) d s m = copy_up n (d + 1) (s + 1) (m(d := m s))"

definition memmove :: "u32 \<Rightarrow> u32 \<Rightarrow> u32 \<Rightarrow> mem \<Rightarrow> mem" where
  "memmove d s n m =
     (if s < d \<and> s + n > d then copy_down (unat n) (d + n) (s + n) m
      else copy_up (unat n) d s m)"

definition memcpy :: "u32 \<Rightarrow> u32 \<Rightarrow> u32 \<Rightarrow> mem \<Rightarrow> mem" where
  "memcpy d s n m = memmove d s n m"

fun strncmp :: "cptr \<Rightarrow> cptr \<Rightarrow> nat \<Rightarrow> int" where
  "strncmp p q 0 = 0"
| "strncmp p q (Suc n) =
     (if p 0 \<noteq> 0 \<and> p 0 = q 0 then strncmp (\<lambda>i. p (Suc i)) (\<lambda>i. q (Suc i)) n
      else uint (p 0) - uint (q 0))"

fun zero_fill :: "nat \<Rightarrow> u32 \<Rightarrow> mem \<Rightarrow> mem" where
  "zero_fill 0 s m = m"
| "zero_fill (Suc n) s m = zero_fill n (s + 1) (m(s := 0))"

fun strncpy_loop :: "u32 \<Rightarrow> u32 \<Rightarrow> nat \<Rightarrow> mem \<Rightarrow> mem" where
  "strncpy_loop s t 0 m = m"
| "strncpy_loop s t (Suc n) m =
     (let m' = m(s := m t) in
      if m t \<noteq> 0 then strncpy_loop (s + 1) (t + 1) n m' else zero_fill n (s + 1) m')"

text \<open>\<^verbatim>\<open>while(n-- > 0 ...)\<close> does nothing for a negative \<open>n\<close>, as \<open>nat n\<close> is \<open>0\<close> there.\<close>

definition strncpy :: "u32 \<Rightarrow> u32 \<Rightarrow> int \<Rightarrow> mem \<Rightarrow> mem" where
  "strncpy s t n m = strncpy_loop s t (nat n) m"

text \<open>\<^verbatim>\<open>while(--n > 0 && ...)\<close>: the loop with \<open>n\<close> bytes left, the terminator included.\<close>

fun safestrcpy_loop :: "u32 \<Rightarrow> u32 \<Rightarrow> nat \<Rightarrow> mem \<Rightarrow> mem" where
  "safestrcpy_loop s t 0 m = m(s := 0)"
| "safestrcpy_loop s t (Suc n) m =
     (if n = 0 then m(s := 0)
      else let m' = m(s := m t) in
        if m t \<noteq> 0 then safestrcpy_loop (s + 1) (t + 1) n m' else m'(s + 1 := 0))"

definition safestrcpy :: "u32 \<Rightarrow> u32 \<Rightarrow> int \<Rightarrow> mem \<Rightarrow> mem" where
  "safestrcpy s t n m = (if n \<le> 0 then m else safestrcpy_loop s t (nat n) m)"

text \<open>\<^verbatim>\<open>strlen\<close> does not return on memory without a zero byte, which is \<open>None\<close>.\<close>

partial_function (option) strlen_from :: "cptr \<Rightarrow> nat \<Rightarrow> nat option" where
  "strlen_from s n = (if s n = 0 then Some n else strlen_from s (Suc n))"

definition strlen :: "cptr \<Rightarrow> nat option" where
  "strlen s = strlen_from s 0"

subsection \<open>Accesses\<close>

lemma load32_store32 [simp]: "load32 (store32 a v m) a = v"
proof -
  have ne: "a + 1 \<noteq> a" "a + 2 \<noteq> a" "a + 3 \<noteq> a" "a + 1 \<noteq> a + 2" "a + 1 \<noteq> a + 3" "a + 2 \<noteq> a + 3"
    by (simp_all add: word_eq_iff_unsigned)
  show ?thesis
  proof (rule bit_word_eqI)
    fix n assume "n < LENGTH(32)"
    then consider "n < 8" | "8 \<le> n" "n < 16" | "16 \<le> n" "n < 24" | "24 \<le> n" "n < 32"
      by fastforce
    then show "bit (load32 (store32 a v m) a) n = bit v n"
      by cases (use ne in \<open>auto simp: load32_def store32_def bit_simps\<close>)
  qed
qed

lemma store32_other:
  assumes "b \<noteq> a" and "b \<noteq> a + 1" and "b \<noteq> a + 2" and "b \<noteq> a + 3"
  shows "store32 a v m b = m b"
  using assms by (simp add: store32_def)

subsection \<open>memset\<close>

lemma stosb_apply:
  "stosb a d n m x = (if \<exists>i<n. x = a + of_nat i then d else m x)"
proof (induction n arbitrary: a m)
  case 0
  then show ?case by simp
next
  case (Suc n)
  have "(\<exists>i<Suc n. x = a + of_nat i) \<longleftrightarrow> x = a \<or> (\<exists>i<n. x = a + 1 + of_nat i)"
    by (auto simp: less_Suc_eq_0_disj algebra_simps)
  with Suc show ?case by auto
qed

lemma stosl_apply:
  "stosl a (push_bit 24 c OR push_bit 16 c OR push_bit 8 c OR c) n m x =
     (if \<exists>i<4 * n. x = a + of_nat i then ucast c else m x)" if "c AND 0xFF = c"
proof (induction n arbitrary: a m)
  case 0
  then show ?case by simp
next
  case (Suc n)
  let ?d = "push_bit 24 c OR push_bit 16 c OR push_bit 8 c OR c"
  have zero: "\<not> bit c k" if "8 \<le> k" for k
  proof -
    have "bit c k = bit (c AND 0xFF) k" using \<open>c AND 0xFF = c\<close> by simp
    also have "(0xFF :: u32) = mask 8" by (simp add: mask_eq_exp_minus_1)
    finally show ?thesis using that by (simp add: bit_simps)
  qed
  have byte: "(ucast (drop_bit k ?d) :: u8) = ucast c" if "k = 0 \<or> k = 8 \<or> k = 16 \<or> k = 24" for k
    by (rule bit_word_eqI) (use that zero in \<open>auto simp: bit_simps\<close>)
  have st: "store32 a ?d m = m(a := ucast c, a + 1 := ucast c, a + 2 := ucast c, a + 3 := ucast c)"
    using byte [of 0] byte [of 8] byte [of 16] byte [of 24] by (simp add: store32_def)
  have "(\<exists>i<4 * Suc n. x = a + of_nat i) \<longleftrightarrow>
      x = a \<or> x = a + 1 \<or> x = a + 2 \<or> x = a + 3 \<or> (\<exists>i<4 * n. x = a + 4 + of_nat i)"
    (is "?l = ?r")
  proof
    assume ?l
    then obtain i where i: "i < 4 * Suc n" "x = a + of_nat i" by blast
    consider "i = 0" | "i = 1" | "i = 2" | "i = 3" | "4 \<le> i" by fastforce
    then show ?r
    proof cases
      case 5
      then obtain j where "i = 4 + j" using le_Suc_ex by blast
      with i show ?thesis by (auto simp: algebra_simps)
    qed (use i in auto)
  next
    assume ?r
    then show ?l
      by (elim disjE exE) (auto intro: exI [of _ "0::nat"] exI [of _ "1::nat"] exI [of _ "2::nat"]
          exI [of _ "3::nat"] exI [of _ "4 + i" for i] simp: algebra_simps)
  qed
  then show ?case unfolding stosl.simps Suc st by auto
qed

lemma in_range_iff:
  fixes x a n :: u32
  shows "(\<exists>i<unat n. x = a + of_nat i) \<longleftrightarrow> x - a < n"
proof
  assume "\<exists>i<unat n. x = a + of_nat i"
  then obtain i where i: "i < unat n" "x = a + of_nat i" by blast
  then have "i < 2 ^ 32" using unsigned_less [of n, where 'a = nat] by simp
  with i show "x - a < n" by (simp add: word_less_nat_alt unat_of_nat)
next
  assume "x - a < n"
  then show "\<exists>i<unat n. x = a + of_nat i"
    by (intro exI [of _ "unat (x - a)"]) (simp add: word_less_nat_alt)
qed

lemma memset_apply: "memset dst c n m x = (if x - dst < n then ucast c else m x)"
proof (cases "dst mod 4 = 0 \<and> n mod 4 = 0")
  case True
  let ?c = "c AND 0xFF"
  have "?c AND 0xFF = ?c" by (simp add: and.assoc)
  moreover have "(ucast ?c :: u8) = ucast c"
  proof -
    have e: "(0xFF :: u32) = mask 8" by (simp add: mask_eq_exp_minus_1)
    show ?thesis unfolding e by (rule bit_word_eqI) (simp add: bit_simps)
  qed
  moreover have "4 * unat (n div 4) = unat n"
  proof -
    have "unat (n mod 4) = 0" using True by simp
    then have "4 dvd unat n" by (simp add: unat_mod dvd_eq_mod_eq_0)
    then show ?thesis by (simp add: unat_div)
  qed
  ultimately show ?thesis
    unfolding memset_def Let_def if_P [OF True]
    by (simp only: stosl_apply in_range_iff)
next
  case False
  then show ?thesis
    by (auto simp: memset_def stosb_apply in_range_iff)
qed

subsection \<open>memmove\<close>

lemma copy_up_apply:
  assumes "unat d + n \<le> 2 ^ 32" and "unat s + n \<le> 2 ^ 32" and "d \<le> s \<or> unat s + n \<le> unat d"
  shows "copy_up n d s m x = (if \<exists>i<n. x = d + of_nat i then m (s + (x - d)) else m x)"
  using assms
proof (induction n arbitrary: d s m)
  case 0
  then show ?case by simp
next
  case (Suc n)
  show ?case
  proof (cases "n = 0")
    case True
    then show ?thesis by auto
  next
    case False
    have d1: "unat (d + 1) = unat d + 1" and s1: "unat (s + 1) = unat s + 1"
      using Suc.prems False by (simp_all add: unat_word_ariths)
    have "copy_up n (d + 1) (s + 1) (m(d := m s)) x =
        (if \<exists>i<n. x = d + 1 + of_nat i then (m(d := m s)) (s + 1 + (x - (d + 1))) else (m(d := m s)) x)"
      by (rule Suc.IH) (use Suc.prems False d1 s1 in \<open>auto simp: word_le_nat_alt\<close>)
    moreover have "(\<exists>i<Suc n. x = d + of_nat i) \<longleftrightarrow> x = d \<or> (\<exists>i<n. x = d + 1 + of_nat i)"
      by (auto simp: less_Suc_eq_0_disj algebra_simps)
    moreover have "s + 1 + of_nat i \<noteq> d" if "i < n" for i
    proof
      assume eq: "s + 1 + of_nat i = d"
      have "unat (s + 1 + of_nat i) = unat s + 1 + i"
        using that Suc.prems s1 by (simp add: unat_word_ariths unat_of_nat)
      with eq have "unat d = unat s + 1 + i" by simp
      with that Suc.prems(3) show False by (auto simp: word_le_nat_alt)
    qed
    ultimately show ?thesis by auto
  qed
qed

lemma copy_down_apply:
  assumes "unat d + n \<le> 2 ^ 32" and "unat s + n \<le> 2 ^ 32" and "s \<le> d"
  shows "copy_down n (d + of_nat n) (s + of_nat n) m x =
    (if \<exists>i<n. x = d + of_nat i then m (s + (x - d)) else m x)"
  using assms
proof (induction n arbitrary: m)
  case 0
  then show ?case by simp
next
  case (Suc n)
  let ?m = "m(d + of_nat n := m (s + of_nat n))"
  have "copy_down n (d + of_nat n) (s + of_nat n) ?m x =
      (if \<exists>i<n. x = d + of_nat i then ?m (s + (x - d)) else ?m x)"
    by (rule Suc.IH) (use Suc.prems in auto)
  moreover have "s + of_nat i \<noteq> d + of_nat n" if "i < n" for i
  proof
    assume eq: "s + of_nat i = d + of_nat n"
    have "unat (s + of_nat i) = unat s + i" "unat (d + of_nat n) = unat d + n"
      using that Suc.prems by (simp_all add: unat_word_ariths unat_of_nat)
    with eq have "unat s + i = unat d + n" by simp
    with that Suc.prems(3) show False by (simp add: word_le_nat_alt)
  qed
  ultimately show ?case by (auto simp: less_Suc_eq Let_def algebra_simps)
qed

lemma memmove_apply:
  assumes d: "unat d + unat n \<le> 2 ^ 32" and s: "unat s + unat n < 2 ^ 32"
  shows "memmove d s n m x = (if x - d < n then m (s + (x - d)) else m x)"
proof (cases "s < d \<and> s + n > d")
  case True
  then show ?thesis
    using copy_down_apply [of d "unat n" s m x] d s less_imp_le [of s d]
    by (simp add: memmove_def in_range_iff)
next
  case False
  have "unat (s + n) = unat s + unat n"
    using s by (simp add: unat_word_ariths)
  then have "d \<le> s \<or> unat s + unat n \<le> unat d"
    using False by (auto simp: word_less_nat_alt word_le_nat_alt)
  then show ?thesis
    unfolding memmove_def if_not_P [OF False]
    using copy_up_apply [of d "unat n" s m x] d s by (simp add: in_range_iff)
qed

subsection \<open>The routines on byte streams\<close>

lemma all_less_Suc_shift: "(\<forall>i<Suc n. P i) \<longleftrightarrow> P 0 \<and> (\<forall>i<n. P (Suc i))"
  by (auto simp: less_Suc_eq_0_disj)

lemma memcmp_eq_0_iff: "memcmp p q n = 0 \<longleftrightarrow> (\<forall>i<n. p i = q i)"
  by (induction p q n rule: memcmp.induct) (auto simp: all_less_Suc_shift dest: unsigned_word_eqI)

text \<open>\<open>strncmp\<close> is zero exactly when the strings agree up to \<open>n\<close> bytes or the first common zero byte.\<close>

definition same_string :: "cptr \<Rightarrow> cptr \<Rightarrow> nat \<Rightarrow> bool" where
  "same_string p q n \<longleftrightarrow> (\<forall>i<n. (\<forall>j<i. p j \<noteq> 0) \<longrightarrow> p i = q i)"

lemma same_string_Suc:
  "same_string p q (Suc n) \<longleftrightarrow>
     p 0 = q 0 \<and> (p 0 \<noteq> 0 \<longrightarrow> same_string (\<lambda>i. p (Suc i)) (\<lambda>i. q (Suc i)) n)"
  unfolding same_string_def all_less_Suc_shift by auto

lemma strncmp_eq_0_iff: "strncmp p q n = 0 \<longleftrightarrow> same_string p q n"
proof (induction p q n rule: strncmp.induct)
  case (1 p q)
  then show ?case by (simp add: same_string_def)
next
  case (2 p q n)
  then show ?case by (auto simp: same_string_Suc unsigned_eq_0_iff dest: unsigned_word_eqI)
qed

lemma strlen_from_eq:
  "s k = 0 \<Longrightarrow> n \<le> k \<Longrightarrow> (\<And>i. n \<le> i \<Longrightarrow> i < k \<Longrightarrow> s i \<noteq> 0) \<Longrightarrow> strlen_from s n = Some k"
proof (induction "k - n" arbitrary: n)
  case 0
  then show ?case by (subst strlen_from.simps) simp
next
  case (Suc d)
  then have "n < k" by simp
  with Suc.prems have "strlen_from s n = strlen_from s (Suc n)"
    by (subst strlen_from.simps) auto
  also have "\<dots> = Some k" using Suc by auto
  finally show ?case .
qed

lemma strlen_eq: "s k = 0 \<Longrightarrow> (\<And>i. i < k \<Longrightarrow> s i \<noteq> 0) \<Longrightarrow> strlen s = Some k"
  unfolding strlen_def by (rule strlen_from_eq) auto

lemma strlen_total: "\<exists>k. s k = 0 \<Longrightarrow> strlen s = Some (LEAST k. s k = 0)"
  by (rule strlen_eq) (auto intro: LeastI dest: not_less_Least)

subsection \<open>safestrcpy\<close>

lemma safestrcpy_loop_outside:
  "\<forall>i<n. x \<noteq> s + of_nat i \<Longrightarrow> 0 < n \<Longrightarrow> safestrcpy_loop s t n m x = m x"
proof (induction n arbitrary: s t m)
  case (Suc n)
  have tail: "\<forall>i<n. x \<noteq> s + 1 + of_nat i" and "x \<noteq> s"
    using Suc.prems by (auto simp: all_less_Suc_shift algebra_simps)
  show ?case
  proof (cases "n = 0")
    case False
    then have "x \<noteq> s + 1" using tail [rule_format, of 0] by simp
    then show ?thesis using Suc.IH [OF tail] \<open>x \<noteq> s\<close> False by (simp add: Let_def)
  qed (use \<open>x \<noteq> s\<close> in simp)
qed simp

text \<open>The bytes \<open>safestrcpy\<close> leaves: the source up to its zero byte or the buffer's last byte,
  which is zero.\<close>

lemma safestrcpy_loop_content:
  assumes "0 < n" and "n \<le> 2 ^ 31"
    and disj: "\<forall>i<n. \<forall>j<n. s + of_nat i \<noteq> t + of_nat j"
    and k: "k < n" "\<forall>j<k. m (t + of_nat j) \<noteq> 0"
  shows "safestrcpy_loop s t n m (s + of_nat k) = (if k = n - 1 then 0 else m (t + of_nat k))"
  using assms
proof (induction n arbitrary: s t m k)
  case (Suc n)
  show ?case
  proof (cases "n = 0")
    case True
    with Suc.prems show ?thesis by simp
  next
    case False
    have ne: "s \<noteq> t + of_nat j" if "j < Suc n" for j
      using Suc.prems(3) [rule_format, of 0 j] that by simp
    have upd: "(m(s := m t)) (t + of_nat j) = m (t + of_nat j)" if "j < Suc n" for j
      using ne [OF that] by auto
    have disj': "\<forall>i<n. \<forall>j<n. s + 1 + of_nat i \<noteq> t + 1 + of_nat j"
    proof (intro allI impI)
      fix i j assume "i < n" "j < n"
      then show "s + 1 + of_nat i \<noteq> t + 1 + of_nat j"
        using Suc.prems(3) [rule_format, of "Suc i" "Suc j"] by (simp add: add.assoc)
    qed
    have out: "\<forall>i<n. s \<noteq> s + 1 + of_nat i"
    proof (intro allI impI notI)
      fix i assume "i < n" and "s = s + 1 + of_nat i"
      then have "unat (of_nat (Suc i) :: u32) = 0" by (simp add: algebra_simps)
      moreover have "unat (of_nat (Suc i) :: u32) = Suc i"
        using \<open>i < n\<close> Suc.prems(2) by (subst unat_of_nat) simp
      ultimately show False by simp
    qed
    show ?thesis
    proof (cases "m t = 0")
      case True
      then have "k = 0" using Suc.prems(5) [rule_format, of 0] by auto
      with True False show ?thesis by simp
    next
      case nz: False
      show ?thesis
      proof (cases "k = 0")
        case True
        then show ?thesis
          using nz False safestrcpy_loop_outside [OF out, of "t + 1" "m(s := m t)"] by (simp add: Let_def)
      next
        case k0: False
        then obtain k' where k': "k = Suc k'" using not0_implies_Suc by blast
        have "safestrcpy_loop (s + 1) (t + 1) n (m(s := m t)) (s + 1 + of_nat k') =
            (if k' = n - 1 then 0 else (m(s := m t)) (t + 1 + of_nat k'))"
        proof (rule Suc.IH)
          show "\<forall>j<k'. (m(s := m t)) (t + 1 + of_nat j) \<noteq> 0"
          proof (intro allI impI)
            fix j assume "j < k'"
            with k' Suc.prems(4) Suc.prems(5) [rule_format, of "Suc j"] upd [of "Suc j"]
            show "(m(s := m t)) (t + 1 + of_nat j) \<noteq> 0"
              by (simp add: add.assoc)
          qed
        qed (use k' Suc.prems False disj' in auto)
        then show ?thesis
          using k' Suc.prems(4) nz False upd [of k] by (auto simp: Let_def add.assoc)
      qed
    qed
  qed
qed simp

subsection \<open>Properties\<close>

text \<open>C12. \<^verbatim>\<open>memmove\<close> is correct for overlapping ranges too: every byte of the destination becomes the byte
  the source had before the call, and no other byte changes.\<close>

theorem memmove_correct:
  assumes "unat d + unat n \<le> 2 ^ 32" and "unat s + unat n < 2 ^ 32"
  shows "memmove d s n m = (\<lambda>x. if x - d < n then m (s + (x - d)) else m x)"
  using memmove_apply [OF assms] by (simp add: fun_eq_iff)

theorem memmove_correct_witness:
  "memmove 0x1002 0x1000 8 (\<lambda>a. ucast a) 0x1009 = 0x07 \<and>
   memmove 0x1000 0x1002 8 (\<lambda>a. ucast a) 0x1000 = 0x02"
  using memmove_correct [of "0x1002" 8 "0x1000" "\<lambda>a. ucast a"]
    memmove_correct [of "0x1000" 8 "0x1002" "\<lambda>a. ucast a"] by simp

text \<open>C13. \<^verbatim>\<open>memset\<close> fills exactly the \<open>n\<close> bytes at \<open>dst\<close> with the low byte of \<open>c\<close>, on its word-wise path
  (aligned address and length) as on the byte-wise one, also across the end of the address space.\<close>

theorem memset_correct: "memset dst c n m = (\<lambda>x. if x - dst < n then ucast c else m x)"
  by (simp add: fun_eq_iff memset_apply)

text \<open>C14. \<^verbatim>\<open>safestrcpy\<close> into a buffer of \<open>n\<close> bytes that does not overlap the source leaves a terminated
  string there: the source up to its zero byte, or its first \<open>n - 1\<close> bytes and a zero byte. Nothing
  outside the buffer changes.\<close>

theorem safestrcpy_correct:
  assumes "0 < n" and "n \<le> 2 ^ 31"
    and "\<forall>i<nat n. \<forall>j<nat n. s + of_nat i \<noteq> t + of_nat j"
    and "k < nat n" and "\<forall>j<k. m (t + of_nat j) \<noteq> 0" and "k = nat n - 1 \<or> m (t + of_nat k) = 0"
  shows "(\<forall>i<k. safestrcpy s t n m (s + of_nat i) = m (t + of_nat i)) \<and>
    safestrcpy s t n m (s + of_nat k) = 0 \<and>
    (\<forall>x. (\<forall>i<nat n. x \<noteq> s + of_nat i) \<longrightarrow> safestrcpy s t n m x = m x)"
proof (intro conjI allI impI)
  have n: "0 < nat n" "nat n \<le> 2 ^ 31" "\<not> n \<le> 0" using assms(1,2) by auto
  note content = safestrcpy_loop_content [OF n(1,2) assms(3)]
  show "safestrcpy s t n m (s + of_nat i) = m (t + of_nat i)" if "i < k" for i
    using content [of i m] that assms(4,5) n(3) by (auto simp: safestrcpy_def)
  show "safestrcpy s t n m (s + of_nat k) = 0"
    using content [of k m] assms(4,5,6) n(3) by (auto simp: safestrcpy_def)
  show "safestrcpy s t n m x = m x" if "\<forall>i<nat n. x \<noteq> s + of_nat i" for x
    using safestrcpy_loop_outside [OF that n(1)] n(3) by (simp add: safestrcpy_def)
qed

theorem safestrcpy_correct_witness:
  "safestrcpy 0x100 0x200 4 (\<lambda>a. ucast a + 65) (0x100 + of_nat 3) = 0"
proof -
  have lt4: "i = 0 \<or> i = 1 \<or> i = 2 \<or> i = 3" if "i < 4" for i :: nat
    using that by linarith
  have "(0x100 :: u32) + of_nat i \<noteq> 0x200 + of_nat j" if "i < 4" "j < 4" for i j
    using lt4 [OF that(1)] lt4 [OF that(2)] by (elim disjE) simp_all
  moreover have "((ucast ((0x200 :: u32) + of_nat j) :: u8) + 65) \<noteq> 0" if "j < 3" for j
  proof -
    from that have "j < 4" by simp
    from lt4 [OF this] show ?thesis by (elim disjE) simp_all
  qed
  ultimately show ?thesis
    using safestrcpy_correct [of 4 "0x100" "0x200" 3 "\<lambda>a. ucast a + 65"] by simp
qed

end
