(* ===== verification/Kalloc.thy ===== *)
theory Kalloc
  imports Spinlock CString
begin

section \<open>Physical page allocator\<close>

text \<open>
  Models \<^verbatim>\<open>src/kalloc.c\<close>. The free pages form a linked list that runs through the pages themselves
  (\<^verbatim>\<open>struct run\<close>), so the state adds the byte memory to the machine. Null is address \<open>0\<close>.
  The locale \<open>page_allocator\<close> is the contract the rest of the kernel relies on; it is interpreted
  on \<open>kalloc\<close> and \<open>kfree\<close>.
\<close>

subsection \<open>State and operations\<close>

record kmem = mach +
  mem :: mem
  use_lock :: bool
  freelist :: u32
  end_addr :: u32

definition kfree :: "u32 \<Rightarrow> 'a kmem_scheme \<Rightarrow> 'a kmem_scheme fault + 'a kmem_scheme" where
  "kfree v s =
     (if v mod PGSIZE \<noteq> 0 \<or> v < end_addr s \<or> V2P v \<ge> PHYSTOP then Inl (Panic ''kfree'')
      else
        let s = s\<lparr>mem := memset v 1 PGSIZE (mem s)\<rparr> in
        kbind (if use_lock s then acquire KmemLock s else Inr s) (\<lambda>s.
        let r = v;
            s = s\<lparr>mem := store32 r (freelist s) (mem s)\<rparr>;
            s = s\<lparr>freelist := r\<rparr> in
        if use_lock s then release KmemLock s else Inr s))"

definition kalloc :: "'a kmem_scheme \<Rightarrow> 'a kmem_scheme fault + u32 \<times> 'a kmem_scheme" where
  "kalloc s =
     kbind (if use_lock s then acquire KmemLock s else Inr s) (\<lambda>s.
     let r = freelist s;
         s = (if r \<noteq> 0 then s\<lparr>freelist := load32 (mem s) r\<rparr> else s) in
     kbind (if use_lock s then release KmemLock s else Inr s) (\<lambda>s. Inr (r, s)))"

text \<open>The loop of \<^verbatim>\<open>freerange\<close> ends because \<^verbatim>\<open>kfree\<close> panics before the pointer can wrap around.\<close>

lemma kfree_InrD: "kfree v s = Inr t \<Longrightarrow> v mod PGSIZE = 0 \<and> end_addr s \<le> v \<and> V2P v < PHYSTOP"
  by (auto simp: kfree_def split: if_splits)

lemma V2P_less_PHYSTOP:
  assumes "V2P v < PHYSTOP"
  shows "0x80000000 \<le> unat v \<and> unat v < 0xA0000000"
proof -
  have "unat (v - 0x80000000) < 0x20000000"
    using assms by (simp add: V2P_def word_less_nat_alt)
  moreover have "unat (v - 0x80000000) = (if 0x80000000 \<le> unat v then unat v - 0x80000000
      else unat v + 0x80000000)"
    by (simp add: unat_sub_if' word_le_nat_alt)
  ultimately show ?thesis by (simp split: if_splits)
qed

function freerange_loop :: "u32 \<Rightarrow> u32 \<Rightarrow> 'a kmem_scheme \<Rightarrow> 'a kmem_scheme fault + 'a kmem_scheme" where
  "freerange_loop p vend s =
     (if p + PGSIZE \<le> vend then kbind (kfree p s) (\<lambda>s. freerange_loop (p + PGSIZE) vend s)
      else Inr s)"
  by auto
termination
proof (relation "measure (\<lambda>(p, vend, s). 2 ^ 32 - unat p)")
  fix p vend :: u32 and s t :: "'a kmem_scheme"
  assume "kfree p s = Inr t"
  then have "unat p < 0xA0000000" using V2P_less_PHYSTOP kfree_InrD by blast
  then show "((p + PGSIZE, vend, t), p, vend, s) \<in> measure (\<lambda>(p, vend, s). 2 ^ 32 - unat p)"
    by (simp add: unat_word_ariths)
qed simp

declare freerange_loop.simps [simp del]

definition freerange :: "u32 \<Rightarrow> u32 \<Rightarrow> 'a kmem_scheme \<Rightarrow> 'a kmem_scheme fault + 'a kmem_scheme" where
  "freerange vstart vend s = freerange_loop (PGROUNDUP vstart) vend s"

definition kinit1 :: "u32 \<Rightarrow> u32 \<Rightarrow> 'a kmem_scheme \<Rightarrow> 'a kmem_scheme fault + 'a kmem_scheme" where
  "kinit1 vstart vend s =
     (let s = initlock KmemLock s; s = s\<lparr>use_lock := False\<rparr> in freerange vstart vend s)"

definition kinit2 :: "u32 \<Rightarrow> u32 \<Rightarrow> 'a kmem_scheme \<Rightarrow> 'a kmem_scheme fault + 'a kmem_scheme" where
  "kinit2 vstart vend s =
     kbind (freerange vstart vend s) (\<lambda>s. Inr (s\<lparr>use_lock := True\<rparr>))"

subsection \<open>The free list as a list of pages\<close>

fun free_path :: "mem \<Rightarrow> u32 \<Rightarrow> u32 list \<Rightarrow> bool" where
  "free_path m p [] \<longleftrightarrow> p = 0"
| "free_path m p (q # qs) \<longleftrightarrow> p = q \<and> free_path m (load32 m q) qs"

text \<open>The pages \<^verbatim>\<open>kfree\<close> accepts.\<close>

definition kpage :: "'a kmem_scheme \<Rightarrow> u32 \<Rightarrow> bool" where
  "kpage s v \<longleftrightarrow> v mod PGSIZE = 0 \<and> end_addr s \<le> v \<and> V2P v < PHYSTOP"

text \<open>\<open>c\<close> is the CPU that executes; once locking is on, the allocator's lock is free when an operation
  begins.\<close>

definition kmem_ready :: "nat \<Rightarrow> 'a kmem_scheme \<Rightarrow> bool" where
  "kmem_ready c s \<longleftrightarrow> (use_lock s \<longrightarrow> cli_ok c s \<and> locks s KmemLock = unlocked)"

definition free_pages :: "'a kmem_scheme \<Rightarrow> u32 list \<Rightarrow> bool" where
  "free_pages s ps \<longleftrightarrow> free_path (mem s) (freelist s) ps \<and> distinct ps \<and> (\<forall>p \<in> set ps. kpage s p)"

definition kmem_ok :: "nat \<Rightarrow> 'a kmem_scheme \<Rightarrow> u32 list \<Rightarrow> bool" where
  "kmem_ok c s ps \<longleftrightarrow> kmem_ready c s \<and> free_pages s ps"

text \<open>What an operation leaves of the machine state: \<^verbatim>\<open>intena\<close> of an unnested CPU may change.\<close>

definition kmark :: "nat \<Rightarrow> 'a kmem_scheme \<Rightarrow> 'a kmem_scheme" where
  "kmark c s = (if use_lock s then cli_mark c s else s)"

subsection \<open>What the operations compute\<close>

lemma kmark_sel [simp]:
  "mem (kmark c s) = mem s" "use_lock (kmark c s) = use_lock s" "freelist (kmark c s) = freelist s"
  "end_addr (kmark c s) = end_addr s" "locks (kmark c s) = locks s" "lapic_id (kmark c s) = lapic_id s"
  "FL_IF (kmark c s) = FL_IF s" "kmem.more (kmark c s) = kmem.more s"
  by (simp_all add: kmark_def cli_mark_def)

lemma hold_kmem [simp]:
  "mem (hold l c s) = mem s" "use_lock (hold l c s) = use_lock s" "freelist (hold l c s) = freelist s"
  "end_addr (hold l c s) = end_addr s" "kmem.more (hold l c s) = kmem.more s"
  by (simp_all add: hold_def push_state_def)

lemma cli_mark_kmem [simp]:
  "mem (cli_mark c s) = mem s" "use_lock (cli_mark c s) = use_lock s" "freelist (cli_mark c s) = freelist s"
  "end_addr (cli_mark c s) = end_addr s" "kmem.more (cli_mark c s) = kmem.more s"
  by (simp_all add: cli_mark_def)

lemma kalloc_eq:
  assumes "kmem_ready c s"
  shows "kalloc s = Inr (freelist s,
    (kmark c s)\<lparr>freelist := (if freelist s = 0 then 0 else load32 (mem s) (freelist s))\<rparr>)"
proof (cases "use_lock s")
  case False
  then show ?thesis by (simp add: kalloc_def kmark_def Let_def)
next
  case True
  with assms have c: "cli_ok c s" "locks s KmemLock = unlocked" by (simp_all add: kmem_ready_def)
  define t where "t = (if freelist s \<noteq> 0
    then (hold KmemLock c s)\<lparr>freelist := load32 (mem s) (freelist s)\<rparr> else hold KmemLock c s)"
  have t: "cpus t = cpus (hold KmemLock c s)" "lapic_id t = lapic_id s"
    "FL_IF t = FL_IF (hold KmemLock c s)" "locks t = locks (hold KmemLock c s)" "use_lock t"
    using True by (simp_all add: t_def)
  have "release KmemLock t = Inr (t\<lparr>cpus := cpus (cli_mark c s), FL_IF := FL_IF s, locks := locks s\<rparr>)"
    using release_back [of c s KmemLock t] c t by simp
  moreover have "t\<lparr>cpus := cpus (cli_mark c s), FL_IF := FL_IF s, locks := locks s\<rparr> =
      (kmark c s)\<lparr>freelist := (if freelist s = 0 then 0 else load32 (mem s) (freelist s))\<rparr>"
    using True by (intro kmem.equality) (simp_all add: t_def kmark_def)
  ultimately show ?thesis
    using True acquire_free [OF c] t(5)
    by (cases "freelist s = 0") (simp_all add: kalloc_def t_def Let_def)
qed

lemma kfree_eq:
  assumes "kmem_ready c s" and "kpage s v"
  shows "kfree v s = Inr ((kmark c s)\<lparr>freelist := v,
    mem := store32 v (freelist s) (memset v 1 PGSIZE (mem s))\<rparr>)"
proof -
  let ?s = "s\<lparr>mem := memset v 1 PGSIZE (mem s)\<rparr>"
  have page: "\<not> (v mod PGSIZE \<noteq> 0 \<or> v < end_addr s \<or> V2P v \<ge> PHYSTOP)"
    using assms(2) by (auto simp: kpage_def)
  show ?thesis
  proof (cases "use_lock s")
    case False
    then show ?thesis unfolding kfree_def if_not_P [OF page] by (simp add: kmark_def)
  next
    case True
    with assms have c: "cli_ok c ?s" "locks ?s KmemLock = unlocked"
      by (simp_all add: kmem_ready_def cli_ok_cong [of ?s s])
    define t where "t = (hold KmemLock c ?s)\<lparr>mem := store32 v (freelist s) (mem ?s), freelist := v\<rparr>"
    have t: "cpus t = cpus (hold KmemLock c ?s)" "lapic_id t = lapic_id ?s"
      "FL_IF t = FL_IF (hold KmemLock c ?s)" "locks t = locks (hold KmemLock c ?s)" "use_lock t"
      using True by (simp_all add: t_def)
    have "release KmemLock t = Inr (t\<lparr>cpus := cpus (cli_mark c ?s), FL_IF := FL_IF ?s, locks := locks ?s\<rparr>)"
      using release_back [of c ?s KmemLock t] c t by simp
    moreover have "t\<lparr>cpus := cpus (cli_mark c ?s), FL_IF := FL_IF ?s, locks := locks ?s\<rparr> =
        (kmark c s)\<lparr>freelist := v, mem := store32 v (freelist s) (memset v 1 PGSIZE (mem s))\<rparr>"
      using True by (intro kmem.equality) (simp_all add: t_def kmark_def)
    ultimately show ?thesis
      unfolding kfree_def if_not_P [OF page]
      using True acquire_free [OF c] t(5) by (simp add: t_def Let_def)
  qed
qed

lemma kfree_bad: "\<not> kpage s v \<Longrightarrow> kfree v s = Inl (Panic ''kfree'')"
  unfolding kfree_def kpage_def by (simp only: de_Morgan_conj not_le not_less if_True)

subsection \<open>Memory of other pages\<close>

lemma kpage_aligned: "kpage s v \<Longrightarrow> page_aligned v"
  by (simp add: kpage_def page_aligned_def)

lemma kpage_nz: "kpage s v \<Longrightarrow> v \<noteq> 0"
  by (auto simp: kpage_def V2P_def)

lemma outside_page:
  assumes "page_aligned v" and "page_aligned w" and "v \<noteq> w" and "i < 4096"
  shows "\<not> (w + of_nat i) - v < PGSIZE"
proof
  assume "(w + of_nat i) - v < PGSIZE"
  then have j: "unat ((w + of_nat i) - v) < 4096" by (simp add: word_less_nat_alt)
  have "w + of_nat i = v + of_nat (unat ((w + of_nat i) - v))" by simp
  then show False
    using page_offset_eq_iff [OF assms(2,1,4) j] assms(3) by simp
qed

text \<open>The junk filling and the link of a freed page are not seen through any other address.\<close>

lemma kfree_mem_other:
  assumes "\<not> x - v < PGSIZE"
  shows "store32 v f (memset v 1 PGSIZE m) x = m x"
proof -
  have "x \<noteq> v + k" if "k < PGSIZE" for k
    using assms that by auto
  from this [of 0] this [of 1] this [of 2] this [of 3]
  show ?thesis using assms by (simp add: store32_other memset_apply)
qed

lemma load32_cong:
  assumes "\<And>i. i < 4 \<Longrightarrow> m (a + of_nat i) = m' (a + of_nat i)"
  shows "load32 m a = load32 m' a"
  using assms [of 0] assms [of 1] assms [of 2] assms [of 3] by (simp add: load32_def)

lemma free_path_other:
  assumes "free_path m p qs" and "\<And>q i. q \<in> set qs \<Longrightarrow> i < 4 \<Longrightarrow> m' (q + of_nat i) = m (q + of_nat i)"
  shows "free_path m' p qs"
  using assms
proof (induction qs arbitrary: p)
  case Nil
  then show ?case by simp
next
  case (Cons q qs)
  have "load32 m' q = load32 m q" by (rule load32_cong) (simp add: Cons.prems(2))
  with Cons show ?case by simp
qed

lemma free_pages_kfree:
  assumes "free_pages s ps" and "kpage s v" and "v \<notin> set ps"
    and "mem t = store32 v (freelist s) (memset v 1 PGSIZE (mem s))" and "freelist t = v"
    and "end_addr t = end_addr s"
  shows "free_pages t (v # ps)"
proof -
  have same: "mem t (q + of_nat i) = mem s (q + of_nat i)" if "q \<in> set ps" "i < 4" for q i
  proof -
    have "\<not> (q + of_nat i) - v < PGSIZE"
      using assms(1-3) that by (intro outside_page) (auto simp: free_pages_def intro: kpage_aligned)
    then show ?thesis by (simp add: assms(4) kfree_mem_other)
  qed
  then have "free_path (mem t) (freelist s) ps"
    using assms(1) by (auto simp: free_pages_def intro: free_path_other)
  moreover have "kpage t = kpage s" by (simp add: fun_eq_iff kpage_def assms(6))
  ultimately show ?thesis
    using assms by (simp add: free_pages_def)
qed

subsection \<open>The allocator's contract\<close>

text \<open>
  \<open>pages s ps\<close> relates a state to the abstract allocator, the sequence \<open>ps\<close> of its free pages, and
  \<open>rd\<close> reads memory. A page that is handed out is no longer free, its contents and everyone else's
  stay as they are, and freeing changes the freed page only.
\<close>

primrec alloc_many :: "('s \<Rightarrow> 'e + u32 \<times> 's) \<Rightarrow> nat \<Rightarrow> 's \<Rightarrow> 'e + u32 list \<times> 's" where
  "alloc_many alloc 0 s = Inr ([], s)"
| "alloc_many alloc (Suc n) s =
     kbind (alloc s) (\<lambda>(p, s). kbind (alloc_many alloc n s) (\<lambda>(ps, s). Inr (p # ps, s)))"

primrec free_many :: "(u32 \<Rightarrow> 's \<Rightarrow> 'e + 's) \<Rightarrow> u32 list \<Rightarrow> 's \<Rightarrow> 'e + 's" where
  "free_many free [] s = Inr s"
| "free_many free (p # ps) s = kbind (free p s) (free_many free ps)"

locale page_allocator =
  fixes alloc :: "'s \<Rightarrow> 'e + u32 \<times> 's"
    and free :: "u32 \<Rightarrow> 's \<Rightarrow> 'e + 's"
    and pages :: "'s \<Rightarrow> u32 list \<Rightarrow> bool"
    and valid :: "'s \<Rightarrow> u32 \<Rightarrow> bool"
    and rd :: "'s \<Rightarrow> mem"
  assumes alloc_empty: "pages s [] \<Longrightarrow> \<exists>t. alloc s = Inr (0, t) \<and> pages t [] \<and> rd t = rd s \<and> valid t = valid s"
    and alloc_page: "pages s (p # ps) \<Longrightarrow> \<exists>t. alloc s = Inr (p, t) \<and> pages t ps \<and> rd t = rd s \<and> valid t = valid s"
    and free_page: "pages s ps \<Longrightarrow> valid s v \<Longrightarrow> v \<notin> set ps \<Longrightarrow>
      \<exists>t. free v s = Inr t \<and> pages t (v # ps) \<and> valid t = valid s \<and> (\<forall>x. \<not> x - v < PGSIZE \<longrightarrow> rd t x = rd s x)"
    and pages_distinct: "pages s ps \<Longrightarrow> distinct ps"
    and pages_valid: "pages s ps \<Longrightarrow> p \<in> set ps \<Longrightarrow> valid s p"
    and valid_page: "valid s p \<Longrightarrow> page_aligned p \<and> p \<noteq> 0"
begin

lemma alloc_many_take:
  "pages s ps \<Longrightarrow> n \<le> length ps \<Longrightarrow>
     \<exists>t. alloc_many alloc n s = Inr (take n ps, t) \<and> pages t (drop n ps) \<and> rd t = rd s \<and> valid t = valid s"
proof (induction n arbitrary: s ps)
  case 0
  then show ?case by simp
next
  case (Suc n)
  then obtain p qs where ps: "ps = p # qs" and n: "n \<le> length qs" by (cases ps) auto
  with Suc.prems alloc_page obtain t where t: "alloc s = Inr (p, t)" "pages t qs" "rd t = rd s" "valid t = valid s"
    by blast
  from Suc.IH [OF t(2) n] show ?case using t ps by auto
qed

lemma free_many_rev:
  "pages s ps \<Longrightarrow> distinct qs \<Longrightarrow> set qs \<inter> set ps = {} \<Longrightarrow> \<forall>q \<in> set qs. valid s q \<Longrightarrow>
     \<exists>t. free_many free qs s = Inr t \<and> pages t (rev qs @ ps) \<and> valid t = valid s"
proof (induction qs arbitrary: s ps)
  case Nil
  then show ?case by simp
next
  case (Cons q qs)
  then obtain t where t: "free q s = Inr t" "pages t (q # ps)" "valid t = valid s"
    using free_page [of s ps q] by auto
  have "\<exists>u. free_many free qs t = Inr u \<and> pages u (rev qs @ q # ps) \<and> valid u = valid t"
    using Cons.prems t by (intro Cons.IH) auto
  with t show ?case by auto
qed

text \<open>The pages of a batch are distinct, none of them is still free, and giving them back restores
  the set of free pages.\<close>

lemma alloc_many_fresh:
  assumes "pages s ps" and "n \<le> length ps"
  shows "\<exists>qs t u. alloc_many alloc n s = Inr (qs, t) \<and> length qs = n \<and> distinct qs \<and>
    (\<exists>rest. pages t rest \<and> set qs \<inter> set rest = {} \<and> rd t = rd s \<and>
      free_many free qs t = Inr u \<and> (\<exists>all. pages u all \<and> set all = set ps))"
proof -
  obtain t where t: "alloc_many alloc n s = Inr (take n ps, t)" "pages t (drop n ps)" "rd t = rd s" "valid t = valid s"
    using alloc_many_take [OF assms] by blast
  have dist: "distinct (take n ps)" "set (take n ps) \<inter> set (drop n ps) = {}"
    using pages_distinct [OF assms(1)] by (simp_all add: set_take_disj_set_drop_if_distinct)
  have val: "\<forall>q \<in> set (take n ps). valid t q"
    using pages_valid [OF assms(1)] t(4) by (auto dest: in_set_takeD)
  obtain u where u: "free_many free (take n ps) t = Inr u" "pages u (rev (take n ps) @ drop n ps)"
    using free_many_rev [OF t(2) dist val] by blast
  have "set (rev (take n ps) @ drop n ps) = set ps"
    by (metis append_take_drop_id set_append set_rev)
  with t u dist assms(2) show ?thesis
    by (intro exI [of _ "take n ps"] exI [of _ t] exI [of _ u] conjI exI [of _ "drop n ps"]
        exI [of _ "rev (take n ps) @ drop n ps"]) simp_all
qed

lemma free_then_alloc:
  assumes "pages s ps" and "valid s v" and "v \<notin> set ps"
  shows "\<exists>t u. free v s = Inr t \<and> alloc t = Inr (v, u) \<and> pages u ps"
  using free_page [OF assms] alloc_page by blast

end

subsection \<open>kalloc and kfree meet the contract\<close>

lemma kpage_cong: "end_addr t = end_addr s \<Longrightarrow> kpage t = kpage s"
  by (simp add: fun_eq_iff kpage_def)

lemma kmem_ready_kmark [simp]: "kmem_ready c (kmark c s) = kmem_ready c s"
  by (simp add: kmem_ready_def kmark_def)

lemma kmem_ready_upd [simp]:
  "kmem_ready c (s\<lparr>freelist := f\<rparr>) = kmem_ready c s" "kmem_ready c (s\<lparr>mem := m\<rparr>) = kmem_ready c s"
  using cli_ok_cong [of "s\<lparr>freelist := f\<rparr>" s c] cli_ok_cong [of "s\<lparr>mem := m\<rparr>" s c]
  by (simp_all add: kmem_ready_def)

lemma kmem_ok_kalloc_empty:
  assumes "kmem_ok c s []"
  shows "\<exists>t. kalloc s = Inr (0, t) \<and> kmem_ok c t [] \<and> mem t = mem s \<and> kpage t = kpage s"
  using assms kalloc_eq [of c s] kpage_cong [of "(kmark c s)\<lparr>freelist := 0\<rparr>" s]
  by (simp add: kmem_ok_def free_pages_def)

lemma kmem_ok_kalloc_page:
  assumes "kmem_ok c s (p # ps)"
  shows "\<exists>t. kalloc s = Inr (p, t) \<and> kmem_ok c t ps \<and> mem t = mem s \<and> kpage t = kpage s"
proof -
  have "freelist s = p" and "p \<noteq> 0"
    using assms by (auto simp: kmem_ok_def free_pages_def dest: kpage_nz)
  moreover have "kpage ((kmark c s)\<lparr>freelist := load32 (mem s) p\<rparr>) = kpage s"
    by (rule kpage_cong) simp
  ultimately show ?thesis
    using assms kalloc_eq [of c s] by (simp add: kmem_ok_def free_pages_def)
qed

lemma kmem_ok_kfree:
  assumes "kmem_ok c s ps" and "kpage s v" and "v \<notin> set ps"
  shows "\<exists>t. kfree v s = Inr t \<and> kmem_ok c t (v # ps) \<and> kpage t = kpage s \<and>
    (\<forall>x. \<not> x - v < PGSIZE \<longrightarrow> mem t x = mem s x)"
proof -
  let ?t = "(kmark c s)\<lparr>freelist := v, mem := store32 v (freelist s) (memset v 1 PGSIZE (mem s))\<rparr>"
  have "kfree v s = Inr ?t"
    using assms by (intro kfree_eq) (simp_all add: kmem_ok_def)
  moreover have "free_pages ?t (v # ps)"
    using assms by (intro free_pages_kfree [of s ps v]) (simp_all add: kmem_ok_def)
  moreover have "kpage ?t = kpage s" by (rule kpage_cong) simp
  ultimately show ?thesis
    using assms(1) by (simp add: kmem_ok_def kfree_mem_other)
qed

interpretation kal: page_allocator kalloc kfree "kmem_ok c" kpage mem for c
proof
  show "kmem_ok c s [] \<Longrightarrow> \<exists>t. kalloc s = Inr (0, t) \<and> kmem_ok c t [] \<and> mem t = mem s \<and> kpage t = kpage s"
    for s :: "'a kmem_scheme" by (rule kmem_ok_kalloc_empty)
  show "kmem_ok c s (p # ps) \<Longrightarrow> \<exists>t. kalloc s = Inr (p, t) \<and> kmem_ok c t ps \<and> mem t = mem s \<and> kpage t = kpage s"
    for s :: "'a kmem_scheme" and p ps by (rule kmem_ok_kalloc_page)
  show "kmem_ok c s ps \<Longrightarrow> kpage s v \<Longrightarrow> v \<notin> set ps \<Longrightarrow>
      \<exists>t. kfree v s = Inr t \<and> kmem_ok c t (v # ps) \<and> kpage t = kpage s \<and> (\<forall>x. \<not> x - v < PGSIZE \<longrightarrow> mem t x = mem s x)"
    for s :: "'a kmem_scheme" and ps v by (rule kmem_ok_kfree)
qed (auto simp: kmem_ok_def free_pages_def dest: kpage_aligned kpage_nz)

subsection \<open>freerange\<close>

text \<open>The whole pages of \<open>[p, vend)\<close> in increasing order.\<close>

definition page_range :: "u32 \<Rightarrow> u32 \<Rightarrow> u32 list" where
  "page_range p vend = map (\<lambda>i. p + of_nat (4096 * i)) [0..<(unat vend - unat p) div 4096]"

lemma page_range_step:
  assumes "unat p + 4096 \<le> unat vend"
  shows "page_range p vend = p # page_range (p + PGSIZE) vend"
proof -
  have "unat p + 4096 < 2 ^ 32"
    using assms unsigned_less [of vend, where 'a = nat] by simp
  then have step: "unat (p + 4096) = unat p + 4096"
    by (simp add: unat_word_ariths)
  have n: "(unat vend - unat p) div 4096 = Suc ((unat vend - unat (p + 4096)) div 4096)"
    using assms step by (simp add: div_if)
  show ?thesis
    unfolding page_range_def n map_upt_Suc by (simp add: algebra_simps)
qed

lemma page_range_done: "\<not> unat p + 4096 \<le> unat vend \<Longrightarrow> page_range p vend = []"
  by (simp add: page_range_def)

lemma page_range_valid:
  assumes "page_aligned p" and "0x80000000 \<le> unat p" and "end_addr s \<le> p" and "unat vend \<le> 0xA0000000"
    and "q \<in> set (page_range p vend)"
  shows "kpage s q"
proof -
  from assms(5) obtain i where i: "i < (unat vend - unat p) div 4096" "q = p + of_nat (4096 * i)"
    by (auto simp: page_range_def)
  then have lt: "unat p + 4096 * i < 0xA0000000" using assms(4) by linarith
  have q: "unat q = unat p + 4096 * i"
  proof -
    have "unat (of_nat (4096 * i) :: u32) = 4096 * i"
      using lt by (subst unat_of_nat) simp
    then show ?thesis using i(2) lt by (simp add: unat_word_ariths)
  qed
  have "q mod PGSIZE = 0"
    using assms(1) q page_aligned_unat [of q] page_aligned_unat [of p] by (simp add: page_aligned_def)
  moreover have "end_addr s \<le> q" using assms(3) q by (simp add: word_le_nat_alt)
  moreover have "V2P q < PHYSTOP"
    using q lt assms(2) by (simp add: V2P_def word_less_nat_alt unat_sub_if' word_le_nat_alt)
  ultimately show ?thesis by (simp add: kpage_def)
qed

lemma page_range_distinct:
  assumes "unat vend \<le> 0xA0000000"
  shows "distinct (page_range p vend)"
  unfolding page_range_def
proof (subst distinct_map, intro conjI distinct_upt inj_onI)
  fix i j assume ij: "i \<in> set [0..<(unat vend - unat p) div 4096]" "j \<in> set [0..<(unat vend - unat p) div 4096]"
    and eq: "p + of_nat (4096 * i) = p + of_nat (4096 * j)"
  have "4096 * i < 2 ^ 32" "4096 * j < 2 ^ 32"
    using ij assms by auto
  moreover have "(of_nat (4096 * i) :: u32) = of_nat (4096 * j)"
    using eq by (metis add_left_cancel)
  then have "unat (of_nat (4096 * i) :: u32) = unat (of_nat (4096 * j) :: u32)" by simp
  ultimately have "4096 * i = 4096 * j"
    by (subst (asm) (1 2) unat_of_nat) simp
  then show "i = j" by simp
qed

lemma freerange_loop_free_many:
  fixes s :: "'a kmem_scheme"
  assumes "unat vend \<le> 0xA0000000" and "unat p \<le> 0xA0000000"
  shows "freerange_loop p vend s = free_many kfree (page_range p vend) s"
  using assms
proof (induction "(unat vend - unat p) div 4096" arbitrary: p s)
  case 0
  then have fin: "\<not> unat p + 4096 \<le> unat vend" by (simp add: div_eq_0_iff)
  then have "\<not> p + PGSIZE \<le> vend"
    using 0 by (simp add: word_le_nat_alt unat_word_ariths)
  with fin show ?case by (simp add: freerange_loop.simps [of p] page_range_done)
next
  case (Suc n)
  then have more: "unat p + 4096 \<le> unat vend" by linarith
  have step: "unat (p + PGSIZE) = unat p + 4096"
    using Suc.prems by (simp add: unat_word_ariths)
  have le: "p + PGSIZE \<le> vend" using more step by (simp add: word_le_nat_alt)
  have "(freerange_loop (p + PGSIZE) vend :: 'a kmem_scheme \<Rightarrow> _) = free_many kfree (page_range (p + PGSIZE) vend)"
    using Suc.hyps(2) Suc.prems more step by (intro ext Suc.hyps(1)) linarith+
  then show ?case
    using le by (simp add: freerange_loop.simps [of p] page_range_step [OF more])
qed

lemma freerange_pages:
  assumes ok: "kmem_ok c s ps" and p: "page_aligned p" "0x80000000 \<le> unat p" "unat p \<le> 0xA0000000" "end_addr s \<le> p"
    and vend: "unat vend \<le> 0xA0000000" and disj: "set (page_range p vend) \<inter> set ps = {}"
  shows "\<exists>t. freerange_loop p vend s = Inr t \<and> kmem_ok c t (rev (page_range p vend) @ ps) \<and> kpage t = kpage s"
  using kal.free_many_rev [OF ok page_range_distinct [OF vend] disj] page_range_valid [OF p(1,2,4) vend]
    freerange_loop_free_many [OF vend p(3), of s] by auto

lemma PGROUNDUP_aligned: "page_aligned (PGROUNDUP a)"
proof -
  have "PGROUNDUP a = (a + 4095) AND NOT (mask 12)"
    by (simp add: PGROUNDUP_def mask_eq_exp_minus_1 add.commute)
  then have "PGROUNDUP a AND mask 12 = 0"
    by (simp only:) (rule bit_word_eqI, simp only: bit_simps, simp)
  then show ?thesis by (simp add: page_aligned_def take_bit_eq_mod flip: take_bit_eq_mask)
qed

subsection \<open>Properties\<close>

text \<open>C9. The allocator keeps its free list: the list threaded through the free pages, without
  repetition and made of pages in its range only, is popped by \<^verbatim>\<open>kalloc\<close>, which returns \<open>0\<close> exactly
  when it is empty and writes no memory.\<close>

theorem kalloc_pops:
  assumes "kmem_ok c s ps"
  shows "\<exists>t. kalloc s = Inr (case ps of [] \<Rightarrow> 0 | p # _ \<Rightarrow> p, t) \<and> kmem_ok c t (tl ps) \<and> mem t = mem s"
  using assms kmem_ok_kalloc_empty kmem_ok_kalloc_page by (cases ps) fastforce+

text \<open>A machine with one CPU whose allocator owns the page at \<open>0x80400000\<close>.\<close>

definition demo_kmem :: kmem where
  "demo_kmem = \<lparr>cpus = [demo_cpu 0], lapic_id = 0, FL_IF = (\<lambda>_. True), locks = (\<lambda>_. unlocked),
     mem = (\<lambda>_. 0), use_lock = True, freelist = 0x80400000, end_addr = 0x80120000\<rparr>"

lemma demo_kmem_ok: "kmem_ok 0 demo_kmem [0x80400000]"
  by (simp add: kmem_ok_def kmem_ready_def free_pages_def demo_kmem_def demo_cpu_def cli_ok_def on_cpu_def
      kpage_def V2P_def load32_def)

theorem kalloc_pops_witness:
  "\<exists>t. kalloc demo_kmem = Inr (0x80400000, t) \<and> kmem_ok 0 t []"
  using kalloc_pops [OF demo_kmem_ok] by auto

text \<open>C10. \<^verbatim>\<open>kfree\<close> of a page in the allocator's range that is not free already pushes it on the free list and
  changes no byte outside that page.\<close>

theorem kfree_pushes:
  assumes "kmem_ok c s ps" and "kpage s v" and "v \<notin> set ps"
  shows "\<exists>t. kfree v s = Inr t \<and> kmem_ok c t (v # ps) \<and> (\<forall>x. \<not> x - v < PGSIZE \<longrightarrow> mem t x = mem s x)"
  using kmem_ok_kfree [OF assms] by blast

theorem kfree_pushes_witness:
  "\<exists>t. kfree 0x80401000 demo_kmem = Inr t \<and> kmem_ok 0 t [0x80401000, 0x80400000]"
  using kfree_pushes [OF demo_kmem_ok, of "0x80401000"]
  by (auto simp: kpage_def V2P_def demo_kmem_def)

text \<open>C8. A batch of \<^verbatim>\<open>kalloc\<close> calls returns distinct pages none of which is still free, with the memory
  untouched, and freeing the batch gives the allocator back the pages it had.\<close>

theorem kalloc_batch:
  assumes "kmem_ok c s ps" and "n \<le> length ps"
  shows "\<exists>qs t u. alloc_many kalloc n s = Inr (qs, t) \<and> length qs = n \<and> distinct qs \<and>
    (\<exists>rest. kmem_ok c t rest \<and> set qs \<inter> set rest = {} \<and> mem t = mem s \<and>
      free_many kfree qs t = Inr u \<and> (\<exists>all. kmem_ok c u all \<and> set all = set ps))"
  using kal.alloc_many_fresh [OF assms] .

theorem kalloc_batch_witness:
  "\<exists>qs t. alloc_many kalloc 1 demo_kmem = Inr (qs, t) \<and> length qs = 1"
  using kalloc_batch [OF demo_kmem_ok, of 1] by auto

text \<open>C11. \<^verbatim>\<open>kinit1\<close> turns exactly the whole pages between the rounded-up start and the end of its range
  into free pages, and \<^verbatim>\<open>freerange\<close> ends.\<close>

theorem kinit1_pages:
  assumes "freelist s = 0" and "0x80000000 \<le> unat (PGROUNDUP vstart)" and "unat (PGROUNDUP vstart) \<le> 0xA0000000"
    and "end_addr s \<le> PGROUNDUP vstart" and "unat vend \<le> 0xA0000000"
  shows "\<exists>t. kinit1 vstart vend s = Inr t \<and> free_pages t (rev (page_range (PGROUNDUP vstart) vend))"
proof -
  let ?s = "(initlock KmemLock s)\<lparr>use_lock := False\<rparr>"
  have "kmem_ok 0 ?s []"
    using assms(1) by (simp add: kmem_ok_def kmem_ready_def free_pages_def initlock_def)
  then have "\<exists>t. freerange_loop (PGROUNDUP vstart) vend ?s = Inr t \<and>
      kmem_ok 0 t (rev (page_range (PGROUNDUP vstart) vend) @ []) \<and> kpage t = kpage ?s"
    using assms by (intro freerange_pages PGROUNDUP_aligned) (simp_all add: initlock_def)
  then show ?thesis by (auto simp: kinit1_def freerange_def kmem_ok_def Let_def)
qed

theorem kinit1_pages_witness:
  "\<exists>t. kinit1 0x80200010 0x80203000 (demo_kmem\<lparr>freelist := 0\<rparr>) = Inr t \<and>
     free_pages t [0x80202000, 0x80201000]"
  using kinit1_pages [of "demo_kmem\<lparr>freelist := 0\<rparr>" "0x80200010" "0x80203000"]
  by (simp add: PGROUNDUP_def demo_kmem_def page_range_def upt_rec)

end
