(* ===== verification/Vm.thy ===== *)
theory Vm
  imports Kalloc
begin

section \<open>Page tables\<close>

text \<open>
  Models \<^verbatim>\<open>src/vm.c\<close> and the address arithmetic of \<^verbatim>\<open>src/mmu.h\<close>. Page directories and page tables
  live in the byte memory, and their entries are read and written with 32-bit accesses, as the
  code does. The loops over the pages of a range stop with \<open>Wrapped\<close> when their counter passes
  the end of the address space. \<^verbatim>\<open>seginit\<close> (descriptor tables) is not modelled; \<^verbatim>\<open>switchuvm\<close> is with
  the processes, \<^verbatim>\<open>loaduvm\<close> with \<^verbatim>\<open>exec\<close>.
\<close>

subsection \<open>Address arithmetic\<close>

abbreviation (input) PTE_P :: u32 where "PTE_P \<equiv> 1"
abbreviation (input) PTE_W :: u32 where "PTE_W \<equiv> 2"
abbreviation (input) PTE_U :: u32 where "PTE_U \<equiv> 4"
abbreviation (input) EXTMEM :: u32 where "EXTMEM \<equiv> 0x100000"
abbreviation (input) DEVSPACE :: u32 where "DEVSPACE \<equiv> 0xFE000000"
abbreviation (input) KERNLINK :: u32 where "KERNLINK \<equiv> 0x80100000"
abbreviation (input) PCI_BAR_BASE :: u32 where "PCI_BAR_BASE \<equiv> 0x80000000"
abbreviation (input) PCI_VP_OFFSET :: u32 where "PCI_VP_OFFSET \<equiv> 0x40000000"
abbreviation (input) NPDENTRIES :: nat where "NPDENTRIES \<equiv> 1024"

definition PDX :: "u32 \<Rightarrow> u32" where
  "PDX va = drop_bit 22 va AND 0x3FF"

definition PTX :: "u32 \<Rightarrow> u32" where
  "PTX va = drop_bit 12 va AND 0x3FF"

definition PGADDR :: "u32 \<Rightarrow> u32 \<Rightarrow> u32 \<Rightarrow> u32" where
  "PGADDR d t off = push_bit 22 d OR push_bit 12 t OR off"

definition PTE_ADDR :: "u32 \<Rightarrow> u32" where
  "PTE_ADDR pte = pte AND NOT 0xFFF"

definition PTE_FLAGS :: "u32 \<Rightarrow> u32" where
  "PTE_FLAGS pte = pte AND 0xFFF"

text \<open>What the termination of the page loops needs.\<close>

lemma page_step_decreases:
  "unat a \<le> unat (a + PGSIZE :: u32) \<Longrightarrow> 4294967296 - unat (a + PGSIZE) < 4294967296 - unat a"
proof (rule diff_less_mono2)
  assume "unat a \<le> unat (a + PGSIZE)"
  moreover have "unat (a + PGSIZE) \<noteq> unat a"
  proof
    assume "unat (a + PGSIZE) = unat a"
    then have "a + PGSIZE = a" by (simp only: word_unat_eq_iff)
    then show False by simp
  qed
  ultimately show "unat a < unat (a + PGSIZE)" by simp
  show "unat a < 4294967296" using unsigned_less [of a, where 'a = nat] by simp
qed

lemma PGROUNDDOWN_offset: "va - PGROUNDDOWN va < PGSIZE"
proof -
  have down: "PGROUNDDOWN va = va AND NOT (mask 12)"
    by (simp add: PGROUNDDOWN_def mask_eq_exp_minus_1)
  have "va = take_bit 12 va + PGROUNDDOWN va"
    unfolding down by (subst disjunctive_add) (auto simp: bit_simps intro!: bit_word_eqI)
  then have "va - PGROUNDDOWN va = take_bit 12 va" by (simp add: algebra_simps)
  also have "\<dots> < PGSIZE"
    using take_bit_nat_less_exp [of 12 "unat va"] by (simp add: word_less_nat_alt unsigned_take_bit_eq)
  finally show ?thesis .
qed

lemma copyout_decreases:
  assumes "0 < len" and "n = (if PGSIZE - (va - PGROUNDDOWN va) > len then len else PGSIZE - (va - PGROUNDDOWN va))"
  shows "unat (len - n) < unat len"
proof -
  have "n \<noteq> 0" using assms PGROUNDDOWN_offset [of va] by auto
  moreover have "n \<le> len" using assms by auto
  ultimately show ?thesis using assms(1)
    by (simp add: unat_sub word_le_nat_alt word_unat_eq_iff)
qed

subsection \<open>State\<close>

text \<open>\<open>cr3\<close> is the page table register of the CPU with a given APIC id. \<open>data_addr\<close> is the linker
  symbol \<^verbatim>\<open>data\<close>; \<open>vram_size\<close> and \<open>pvram_addr\<close> are the fields of \<^verbatim>\<open>gpu\<close> that \<^verbatim>\<open>setupkvm\<close> reads.\<close>

record vm = kmem +
  kpgdir :: u32
  cr3 :: "u8 \<Rightarrow> u32"
  data_addr :: u32
  vram_size :: u32
  pvram_addr :: u32

record kmap =
  virt :: u32
  phys_start :: u32
  phys_end :: u32
  kmap_perm :: u32

subsection \<open>Walking and mapping\<close>

definition walkpgdir ::
  "u32 \<Rightarrow> u32 \<Rightarrow> bool \<Rightarrow> 'a kmem_scheme \<Rightarrow> 'a kmem_scheme fault + u32 \<times> 'a kmem_scheme" where
  "walkpgdir pgdir va alloc s =
     (let pde = pgdir + 4 * PDX va in
      if load32 (mem s) pde AND PTE_P \<noteq> 0 then
        let pgtab = P2V (PTE_ADDR (load32 (mem s) pde)) in Inr (pgtab + 4 * PTX va, s)
      else if \<not> alloc then Inr (0, s)
      else
        kbind (kalloc s) (\<lambda>(pgtab, s).
        if pgtab = 0 then Inr (0, s)
        else
          let s = s\<lparr>mem := memset pgtab 0 PGSIZE (mem s)\<rparr>;
              s = s\<lparr>mem := store32 pde (V2P pgtab OR PTE_P OR PTE_W OR PTE_U) (mem s)\<rparr> in
          Inr (pgtab + 4 * PTX va, s)))"

text \<open>The result is \<open>0\<close> or \<open>-1\<close>.\<close>

function mappages_loop ::
  "u32 \<Rightarrow> u32 \<Rightarrow> u32 \<Rightarrow> u32 \<Rightarrow> u32 \<Rightarrow> 'a kmem_scheme \<Rightarrow> 'a kmem_scheme fault + int \<times> 'a kmem_scheme" where
  "mappages_loop pgdir a last_pg pa perm s =
     kbind (walkpgdir pgdir a True s) (\<lambda>(pte, s).
     if pte = 0 then Inr (-1, s)
     else if load32 (mem s) pte AND PTE_P \<noteq> 0 then Inl (Panic ''remap'')
     else
       let s = s\<lparr>mem := store32 pte (pa OR perm OR PTE_P) (mem s)\<rparr> in
       if a = last_pg then Inr (0, s)
       else if a + PGSIZE < a then Inl Wrapped
       else mappages_loop pgdir (a + PGSIZE) last_pg (pa + PGSIZE) perm s)"
  by auto
termination
  by (relation "measure (\<lambda>(pgdir, a, last_pg, pa, perm, s). 2 ^ 32 - unat a)")
     (auto simp: not_less word_le_nat_alt intro!: page_step_decreases)

declare mappages_loop.simps [simp del]

definition mappages ::
  "u32 \<Rightarrow> u32 \<Rightarrow> u32 \<Rightarrow> u32 \<Rightarrow> u32 \<Rightarrow> 'a kmem_scheme \<Rightarrow> 'a kmem_scheme fault + int \<times> 'a kmem_scheme" where
  "mappages pgdir va sz pa perm s =
     mappages_loop pgdir (PGROUNDDOWN va) (PGROUNDDOWN (va + sz - 1)) pa perm s"

subsection \<open>User memory\<close>

text \<open>The body of the loop of \<^verbatim>\<open>deallocuvm\<close> at address \<open>a\<close> whose entry is at \<open>pte\<close>, with the new value
  of \<open>a\<close>.\<close>

definition deallocuvm_body ::
  "u32 \<Rightarrow> u32 \<Rightarrow> 'a kmem_scheme \<Rightarrow> 'a kmem_scheme fault + u32 \<times> 'a kmem_scheme" where
  "deallocuvm_body pte a s =
     (if pte = 0 then Inr (PGADDR (PDX a + 1) 0 0 - PGSIZE, s)
      else if load32 (mem s) pte AND PTE_P \<noteq> 0 then
        let pa = PTE_ADDR (load32 (mem s) pte) in
        if pa = 0 then Inl (Panic ''kfree'')
        else
          kbind (kfree (P2V pa) s) (\<lambda>s.
          Inr (a, s\<lparr>mem := store32 pte 0 (mem s)\<rparr>))
      else Inr (a, s))"

function deallocuvm_loop ::
  "u32 \<Rightarrow> u32 \<Rightarrow> u32 \<Rightarrow> 'a kmem_scheme \<Rightarrow> 'a kmem_scheme fault + 'a kmem_scheme" where
  "deallocuvm_loop pgdir a oldsz s =
     (if a < oldsz then
        kbind (walkpgdir pgdir a False s) (\<lambda>(pte, s).
        kbind (deallocuvm_body pte a s) (\<lambda>(a', s).
        if a' + PGSIZE \<le> a then Inl Wrapped
        else deallocuvm_loop pgdir (a' + PGSIZE) oldsz s))
      else Inr s)"
  by auto
termination
  by (relation "measure (\<lambda>(pgdir, a, oldsz, s). 2 ^ 32 - unat a)")
     (auto simp: not_le word_less_nat_alt intro!: diff_less_mono2 order.strict_trans2 [OF unsigned_less])

declare deallocuvm_loop.simps [simp del]

definition deallocuvm ::
  "u32 \<Rightarrow> u32 \<Rightarrow> u32 \<Rightarrow> 'a kmem_scheme \<Rightarrow> 'a kmem_scheme fault + u32 \<times> 'a kmem_scheme" where
  "deallocuvm pgdir oldsz newsz s =
     (if newsz \<ge> oldsz then Inr (oldsz, s)
      else kbind (deallocuvm_loop pgdir (PGROUNDUP newsz) oldsz s) (\<lambda>s. Inr (newsz, s)))"

function allocuvm_loop ::
  "u32 \<Rightarrow> u32 \<Rightarrow> u32 \<Rightarrow> u32 \<Rightarrow> 'a kmem_scheme \<Rightarrow> 'a kmem_scheme fault + u32 \<times> 'a kmem_scheme" where
  "allocuvm_loop pgdir oldsz newsz a s =
     (if a < newsz then
        kbind (kalloc s) (\<lambda>(pg, s).
        if pg = 0 then kbind (deallocuvm pgdir newsz oldsz s) (\<lambda>(_, s). Inr (0, s))
        else
          let s = s\<lparr>mem := memset pg 0 PGSIZE (mem s)\<rparr> in
          kbind (mappages pgdir a PGSIZE (V2P pg) (PTE_W OR PTE_U) s) (\<lambda>(r, s).
          if r < 0 then
            kbind (deallocuvm pgdir newsz oldsz s) (\<lambda>(_, s).
            kbind (kfree pg s) (\<lambda>s. Inr (0, s)))
          else if a + PGSIZE < a then Inl Wrapped
          else allocuvm_loop pgdir oldsz newsz (a + PGSIZE) s))
      else Inr (newsz, s))"
  by auto
termination
  by (relation "measure (\<lambda>(pgdir, oldsz, newsz, a, s). 2 ^ 32 - unat a)")
     (auto simp: not_less word_le_nat_alt intro!: page_step_decreases)

declare allocuvm_loop.simps [simp del]

definition allocuvm ::
  "u32 \<Rightarrow> u32 \<Rightarrow> u32 \<Rightarrow> 'a kmem_scheme \<Rightarrow> 'a kmem_scheme fault + u32 \<times> 'a kmem_scheme" where
  "allocuvm pgdir oldsz newsz s =
     (if newsz \<ge> KERNBASE then Inr (0, s)
      else if newsz < oldsz then Inr (oldsz, s)
      else allocuvm_loop pgdir oldsz newsz (PGROUNDUP oldsz) s)"

text \<open>The loop of \<^verbatim>\<open>freevm\<close> over the page directory, from entry \<open>i\<close> with \<open>n\<close> entries left.\<close>

primrec freevm_loop :: "u32 \<Rightarrow> nat \<Rightarrow> u32 \<Rightarrow> 'a kmem_scheme \<Rightarrow> 'a kmem_scheme fault + 'a kmem_scheme" where
  "freevm_loop pgdir 0 i s = Inr s"
| "freevm_loop pgdir (Suc n) i s =
     kbind (if load32 (mem s) (pgdir + 4 * i) AND PTE_P \<noteq> 0
            then kfree (P2V (PTE_ADDR (load32 (mem s) (pgdir + 4 * i)))) s else Inr s) (\<lambda>s.
     freevm_loop pgdir n (i + 1) s)"

definition freevm :: "u32 \<Rightarrow> 'a kmem_scheme \<Rightarrow> 'a kmem_scheme fault + 'a kmem_scheme" where
  "freevm pgdir s =
     (if pgdir = 0 then Inl (Panic ''freevm: no pgdir'')
      else
        kbind (deallocuvm pgdir KERNBASE 0 s) (\<lambda>(_, s).
        kbind (freevm_loop pgdir NPDENTRIES 0 s) (\<lambda>s.
        kfree pgdir s)))"

definition clearpteu :: "u32 \<Rightarrow> u32 \<Rightarrow> 'a kmem_scheme \<Rightarrow> 'a kmem_scheme fault + 'a kmem_scheme" where
  "clearpteu pgdir uva s =
     kbind (walkpgdir pgdir uva False s) (\<lambda>(pte, s).
     if pte = 0 then Inl (Panic ''clearpteu'')
     else Inr (s\<lparr>mem := store32 pte (load32 (mem s) pte AND NOT PTE_U) (mem s)\<rparr>))"

definition inituvm :: "u32 \<Rightarrow> u32 \<Rightarrow> u32 \<Rightarrow> 'a kmem_scheme \<Rightarrow> 'a kmem_scheme fault + 'a kmem_scheme" where
  "inituvm pgdir init sz s =
     (if sz \<ge> PGSIZE then Inl (Panic ''inituvm: more than a page'')
      else
        kbind (kalloc s) (\<lambda>(pg, s).
        let s = s\<lparr>mem := memset pg 0 PGSIZE (mem s)\<rparr> in
        kbind (mappages pgdir 0 PGSIZE (V2P pg) (PTE_W OR PTE_U) s) (\<lambda>(_, s).
        Inr (s\<lparr>mem := memmove pg init sz (mem s)\<rparr>))))"

text \<open>\<^verbatim>\<open>uva2ka\<close> does not test the result of \<^verbatim>\<open>walkpgdir\<close>: without a page table it reads address \<open>0\<close>.\<close>

definition uva2ka :: "u32 \<Rightarrow> u32 \<Rightarrow> 'a kmem_scheme \<Rightarrow> 'a kmem_scheme fault + u32" where
  "uva2ka pgdir uva s =
     kbind (walkpgdir pgdir uva False s) (\<lambda>(pte, s).
     if load32 (mem s) pte AND PTE_P = 0 then Inr 0
     else if load32 (mem s) pte AND PTE_U = 0 then Inr 0
     else Inr (P2V (PTE_ADDR (load32 (mem s) pte))))"

text \<open>The buffer \<^verbatim>\<open>p\<close> of \<^verbatim>\<open>copyout\<close> is a string of the old process image or lies on the kernel stack; the copy does not overlap it.\<close>

function copyout ::
  "u32 \<Rightarrow> u32 \<Rightarrow> cptr \<Rightarrow> u32 \<Rightarrow> 'a kmem_scheme \<Rightarrow> 'a kmem_scheme fault + int \<times> 'a kmem_scheme" where
  "copyout pgdir va p len s =
     (if len > 0 then
        let va0 = PGROUNDDOWN va in
        kbind (uva2ka pgdir va0 s) (\<lambda>pa0.
        if pa0 = 0 then Inr (-1, s)
        else
          let n = PGSIZE - (va - va0);
              n = (if n > len then len else n);
              s = s\<lparr>mem := store_bytes (pa0 + (va - va0)) (map p [0..<unat n]) (mem s)\<rparr> in
          copyout pgdir (va0 + PGSIZE) (\<lambda>j. p (unat n + j)) (len - n) s)
      else Inr (0, s))"
  by auto
termination
  by (relation "measure (\<lambda>(pgdir, va, p, len, s). unat len)") (auto simp: unat_gt_0 word_gt_0 intro!: copyout_decreases)

declare copyout.simps [simp del]

subsection \<open>Kernel page table\<close>

definition kmap_table :: "'a vm_scheme \<Rightarrow> kmap list" where
  "kmap_table s =
     [\<lparr>virt = KERNBASE, phys_start = 0, phys_end = EXTMEM, kmap_perm = PTE_W\<rparr>,
      \<lparr>virt = KERNLINK, phys_start = V2P KERNLINK, phys_end = V2P (data_addr s), kmap_perm = 0\<rparr>,
      \<lparr>virt = data_addr s, phys_start = V2P (data_addr s), phys_end = PHYSTOP, kmap_perm = PTE_W\<rparr>,
      \<lparr>virt = DEVSPACE - vram_size s, phys_start = pvram_addr s, phys_end = pvram_addr s + vram_size s,
        kmap_perm = PTE_W\<rparr>,
      \<lparr>virt = PCI_BAR_BASE + PCI_VP_OFFSET, phys_start = PCI_BAR_BASE,
        phys_end = 0x10000000 + PCI_BAR_BASE, kmap_perm = PTE_W\<rparr>,
      \<lparr>virt = DEVSPACE, phys_start = DEVSPACE, phys_end = 0, kmap_perm = PTE_W\<rparr>]"

primrec setupkvm_loop ::
  "u32 \<Rightarrow> kmap list \<Rightarrow> 'a kmem_scheme \<Rightarrow> 'a kmem_scheme fault + u32 \<times> 'a kmem_scheme" where
  "setupkvm_loop pgdir [] s = Inr (pgdir, s)"
| "setupkvm_loop pgdir (k # ks) s =
     kbind (mappages pgdir (virt k) (phys_end k - phys_start k) (phys_start k) (kmap_perm k) s) (\<lambda>(r, s).
     if r < 0 then kbind (freevm pgdir s) (\<lambda>s. Inr (0, s))
     else setupkvm_loop pgdir ks s)"

definition setupkvm :: "'a vm_scheme \<Rightarrow> 'a vm_scheme fault + u32 \<times> 'a vm_scheme" where
  "setupkvm s =
     kbind (kalloc s) (\<lambda>(pgdir, s).
     if pgdir = 0 then Inr (0, s)
     else
       let s = s\<lparr>mem := memset pgdir 0 PGSIZE (mem s)\<rparr> in
       if P2V PHYSTOP > DEVSPACE then Inl (Panic ''PHYSTOP too high'')
       else setupkvm_loop pgdir (kmap_table s) s)"

definition switchkvm :: "'a vm_scheme \<Rightarrow> 'a vm_scheme" where
  "switchkvm s = s\<lparr>cr3 := (cr3 s)(lapic_id s := V2P (kpgdir s))\<rparr>"

definition kvmalloc :: "'a vm_scheme \<Rightarrow> 'a vm_scheme fault + 'a vm_scheme" where
  "kvmalloc s = kbind (setupkvm s) (\<lambda>(k, s). Inr (switchkvm (s\<lparr>kpgdir := k\<rparr>)))"

function copyuvm_loop ::
  "u32 \<Rightarrow> u32 \<Rightarrow> u32 \<Rightarrow> u32 \<Rightarrow> 'a vm_scheme \<Rightarrow> 'a vm_scheme fault + u32 \<times> 'a vm_scheme" where
  "copyuvm_loop d pgdir sz i s =
     (if i < sz then
        kbind (walkpgdir pgdir i False s) (\<lambda>(pte, s).
        if pte = 0 then Inl (Panic ''copyuvm: pte should exist'')
        else if load32 (mem s) pte AND PTE_P = 0 then Inl (Panic ''copyuvm: page not present'')
        else
          let pa = PTE_ADDR (load32 (mem s) pte);
              flags = PTE_FLAGS (load32 (mem s) pte) in
          kbind (kalloc s) (\<lambda>(pg, s).
          if pg = 0 then kbind (freevm d s) (\<lambda>s. Inr (0, s))
          else
            let s = s\<lparr>mem := memmove pg (P2V pa) PGSIZE (mem s)\<rparr> in
            kbind (mappages d i PGSIZE (V2P pg) flags s) (\<lambda>(r, s).
            if r < 0 then kbind (freevm d s) (\<lambda>s. Inr (0, s))
            else if i + PGSIZE < i then Inl Wrapped
            else copyuvm_loop d pgdir sz (i + PGSIZE) s)))
      else Inr (d, s))"
  by auto
termination
  by (relation "measure (\<lambda>(d, pgdir, sz, i, s). 2 ^ 32 - unat i)")
     (auto simp: not_less word_le_nat_alt intro!: page_step_decreases)

declare copyuvm_loop.simps [simp del]

definition copyuvm :: "u32 \<Rightarrow> u32 \<Rightarrow> 'a vm_scheme \<Rightarrow> 'a vm_scheme fault + u32 \<times> 'a vm_scheme" where
  "copyuvm pgdir sz s =
     kbind (setupkvm s) (\<lambda>(d, s).
     if d = 0 then Inr (0, s) else copyuvm_loop d pgdir sz 0 s)"

subsection \<open>Other components of the state are left alone\<close>

text \<open>What page-table code does to the rest of the kernel: nothing to the components above it, and
  to the machine no more than the page allocator does, which is nothing if its caller is inside a critical section.\<close>

definition nested :: "nat \<Rightarrow> 'a mach_scheme \<Rightarrow> bool" where
  "nested c s \<longleftrightarrow> cli_ok c s \<and> ncli (cpus s ! c) \<noteq> 0 \<and> locks s KmemLock = unlocked"

definition mach_eq :: "'a mach_scheme \<Rightarrow> 'b mach_scheme \<Rightarrow> bool" where
  "mach_eq s t \<longleftrightarrow> cpus t = cpus s \<and> lapic_id t = lapic_id s \<and> FL_IF t = FL_IF s \<and> locks t = locks s"

definition vframe :: "'a kmem_scheme \<Rightarrow> 'a kmem_scheme \<Rightarrow> bool" where
  "vframe s t \<longleftrightarrow> kmem.more t = kmem.more s \<and> use_lock t = use_lock s \<and> end_addr t = end_addr s \<and>
     (\<forall>c. kmem_ready c s \<longrightarrow> mach_eq s t \<or> mach_eq (kmark c s) t)"

lemma kmem_ready_cong: "mach_eq s t \<Longrightarrow> use_lock t = use_lock s \<Longrightarrow> kmem_ready c t = kmem_ready c s"
  using cli_ok_cong [of t s c] by (simp add: kmem_ready_def mach_eq_def)

lemma kmark_cong: "mach_eq s t \<Longrightarrow> use_lock t = use_lock s \<Longrightarrow> mach_eq (kmark c s) (kmark c t)"
  by (simp add: mach_eq_def kmark_def)

lemma kmark_kmark: "kmem_ready c s \<Longrightarrow> mach_eq (kmark c (kmark c s)) (kmark c s)"
  by (auto simp: mach_eq_def kmark_def kmem_ready_def cli_ok_def cpu_mark_def dest: on_cpu_length)

lemma mach_eq_trans: "mach_eq s t \<Longrightarrow> mach_eq t u \<Longrightarrow> mach_eq s u"
  by (simp add: mach_eq_def)

lemma mach_eq_sym: "mach_eq s t \<Longrightarrow> mach_eq t s"
  by (simp add: mach_eq_def)

lemma vframe_refl [simp]: "vframe s s"
  by (simp add: vframe_def mach_eq_def)

lemma vframe_trans:
  assumes "vframe s t" and "vframe t u"
  shows "vframe s u"
proof -
  have "mach_eq s u \<or> mach_eq (kmark c s) u" if c: "kmem_ready c s" for c
  proof (cases "mach_eq s t")
    case True
    then have "kmem_ready c t" using c assms(1) kmem_ready_cong by (auto simp: vframe_def)
    then have "mach_eq t u \<or> mach_eq (kmark c t) u" using assms(2) by (simp add: vframe_def)
    moreover have "mach_eq (kmark c s) (kmark c t)" using True assms(1) by (auto simp: vframe_def intro: kmark_cong)
    ultimately show ?thesis using True by (blast intro: mach_eq_trans)
  next
    case False
    then have m: "mach_eq (kmark c s) t" using c assms(1) by (auto simp: vframe_def)
    moreover have ul: "use_lock t = use_lock (kmark c s)" using assms(1) by (simp add: vframe_def)
    ultimately have "kmem_ready c t" using c kmem_ready_cong [of "kmark c s" t c] by simp
    then have "mach_eq t u \<or> mach_eq (kmark c t) u" using assms(2) by (simp add: vframe_def)
    moreover have "mach_eq (kmark c s) (kmark c t)"
      using mach_eq_trans [OF mach_eq_sym [OF kmark_kmark [OF c]] kmark_cong [OF m ul]] .
    ultimately show ?thesis using m by (blast intro: mach_eq_trans)
  qed
  then show ?thesis using assms by (simp add: vframe_def)
qed

lemma kmark_mem: "mach_eq (kmark c (s\<lparr>mem := m\<rparr>)) t = mach_eq (kmark c s) t"
  by (simp add: mach_eq_def kmark_def)

lemma vframe_mem [simp]: "vframe s (t\<lparr>mem := m\<rparr>) = vframe s t" "vframe (s\<lparr>mem := m\<rparr>) t = vframe s t"
  using kmem_ready_cong [of s "s\<lparr>mem := m\<rparr>"] by (simp_all add: vframe_def kmark_mem) (simp_all add: mach_eq_def)

lemma unhold_kmem [simp]: "kmem.more (unhold l c s) = kmem.more s"
  by (simp add: unhold_def pop_state_def)

lemma acquire_more: "acquire l s = Inr t \<Longrightarrow> kmem.more t = kmem.more s \<and> use_lock t = use_lock s \<and> end_addr t = end_addr s"
  by (auto dest!: acquire_InrD)

lemma unhold_kmem_fields [simp]:
  "mem (unhold l c s) = mem s" "use_lock (unhold l c s) = use_lock s" "freelist (unhold l c s) = freelist s"
  "end_addr (unhold l c s) = end_addr s"
  by (simp_all add: unhold_def pop_state_def)

lemma release_more: "release l s = Inr t \<Longrightarrow> kmem.more t = kmem.more s \<and> use_lock t = use_lock s \<and> end_addr t = end_addr s"
  by (auto dest!: release_InrD)

lemma nested_ready: "nested c s \<Longrightarrow> kmem_ready c s"
  by (simp add: nested_def kmem_ready_def)

lemma nested_kmark: "nested c s \<Longrightarrow> kmark c s = s"
  by (simp add: nested_def kmark_def)

lemma kalloc_frame:
  assumes "kalloc s = Inr (r, t)"
  shows "vframe s t"
proof -
  have "mach_eq (kmark c s) t" if "kmem_ready c s" for c
    using assms kalloc_eq [OF that] by (auto simp: mach_eq_def)
  moreover have "kmem.more t = kmem.more s \<and> use_lock t = use_lock s \<and> end_addr t = end_addr s"
    using assms
    by (auto simp: kalloc_def Let_def kbind_eq_Inr_iff dest!: acquire_more release_more split: if_splits)
  ultimately show ?thesis by (simp add: vframe_def)
qed

lemma kfree_frame:
  assumes "kfree v s = Inr t"
  shows "vframe s t"
proof -
  have page: "kpage s v" using assms kfree_bad [of s v] by fastforce
  have "mach_eq (kmark c s) t" if "kmem_ready c s" for c
    using assms kfree_eq [OF that page] by (auto simp: mach_eq_def)
  moreover have "kmem.more t = kmem.more s \<and> use_lock t = use_lock s \<and> end_addr t = end_addr s"
    using assms
    by (auto simp: kfree_def Let_def kbind_eq_Inr_iff dest!: acquire_more release_more split: if_splits)
  ultimately show ?thesis by (simp add: vframe_def)
qed

lemma vframe_nested: "vframe s t \<Longrightarrow> nested c s \<Longrightarrow> mach_eq s t"
  using nested_ready [of c s] nested_kmark [of c s] by (auto simp: vframe_def)

lemma walkpgdir_frame: "walkpgdir pgdir va alloc s = Inr (r, t) \<Longrightarrow> vframe s t"
  by (auto simp: walkpgdir_def Let_def kbind_eq_Inr_iff dest!: kalloc_frame split: if_splits)

lemma mappages_loop_frame:
  "mappages_loop pgdir a last_pg pa perm s = Inr (r, t) \<Longrightarrow> vframe s t"
proof (induction pgdir a last_pg pa perm s arbitrary: r t rule: mappages_loop.induct)
  case (1 pgdir a last_pg pa perm s)
  note eq = "1.prems" [unfolded mappages_loop.simps [of pgdir a last_pg pa perm s]]
  from eq obtain pte u where w: "walkpgdir pgdir a True s = Inr (pte, u)"
    by (auto simp: kbind_eq_Inr_iff)
  have u: "vframe s u" by (rule walkpgdir_frame [OF w])
  let ?v = "u\<lparr>mem := store32 pte (pa OR perm OR PTE_P) (mem u)\<rparr>"
  have "vframe s t" if "pte \<noteq> 0" "load32 (mem u) pte AND PTE_P = 0" "a \<noteq> last_pg" "\<not> a + PGSIZE < a"
  proof -
    have "mappages_loop pgdir (a + PGSIZE) last_pg (pa + PGSIZE) perm ?v = Inr (r, t)"
      using eq w that by (simp add: Let_def)
    then have "vframe ?v t" using "1.IH" [OF w refl] that by simp
    then show ?thesis using vframe_trans [OF u] by simp
  qed
  then show ?case
    using eq w u by (auto simp: Let_def split: if_splits)
qed

lemma mappages_frame: "mappages pgdir va n pa perm s = Inr (r, t) \<Longrightarrow> vframe s t"
  unfolding mappages_def by (rule mappages_loop_frame)

lemma deallocuvm_body_frame: "deallocuvm_body pte a s = Inr (a', t) \<Longrightarrow> vframe s t"
  by (auto simp: deallocuvm_body_def Let_def kbind_eq_Inr_iff dest!: kfree_frame split: if_splits)

lemma deallocuvm_loop_frame: "deallocuvm_loop pgdir a oldsz s = Inr t \<Longrightarrow> vframe s t"
proof (induction pgdir a oldsz s arbitrary: t rule: deallocuvm_loop.induct)
  case (1 pgdir a oldsz s)
  note eq = "1.prems" [unfolded deallocuvm_loop.simps [of pgdir a oldsz s]]
  show ?case
  proof (cases "a < oldsz")
    case False
    with eq show ?thesis by simp
  next
    case True
    from eq True obtain pte u a' v where w: "walkpgdir pgdir a False s = Inr (pte, u)"
      and b: "deallocuvm_body pte a u = Inr (a', v)"
      and rest: "\<not> a' + PGSIZE \<le> a" "deallocuvm_loop pgdir (a' + PGSIZE) oldsz v = Inr t"
      by (auto simp: kbind_eq_Inr_iff split: if_splits)
    show ?thesis
      using "1.IH" [OF True w refl b refl rest] walkpgdir_frame [OF w] deallocuvm_body_frame [OF b]
      by (blast intro: vframe_trans)
  qed
qed

lemma deallocuvm_frame: "deallocuvm pgdir oldsz newsz s = Inr (r, t) \<Longrightarrow> vframe s t"
  by (auto simp: deallocuvm_def kbind_eq_Inr_iff dest!: deallocuvm_loop_frame split: if_splits)

lemma allocuvm_loop_frame: "allocuvm_loop pgdir oldsz newsz a s = Inr (r, t) \<Longrightarrow> vframe s t"
proof (induction pgdir oldsz newsz a s arbitrary: r t rule: allocuvm_loop.induct)
  case (1 pgdir oldsz newsz a s)
  note eq = "1.prems" [unfolded allocuvm_loop.simps [of pgdir oldsz newsz a s]]
  show ?case
  proof (cases "a < newsz")
    case False
    with eq show ?thesis by simp
  next
    case True
    with eq obtain pg u where k: "kalloc s = Inr (pg, u)"
      by (auto simp: kbind_eq_Inr_iff)
    note u = kalloc_frame [OF k]
    show ?thesis
    proof (cases "pg = 0")
      case True
      with eq \<open>a < newsz\<close> k u show ?thesis
        by (auto simp: kbind_eq_Inr_iff dest!: deallocuvm_frame intro: vframe_trans)
    next
      case False
      let ?u = "u\<lparr>mem := memset pg 0 PGSIZE (mem u)\<rparr>"
      from eq \<open>a < newsz\<close> k False obtain q v
        where m: "mappages pgdir a PGSIZE (V2P pg) (PTE_W OR PTE_U) ?u = Inr (q, v)"
        by (auto simp: kbind_eq_Inr_iff Let_def)
      have v: "vframe s v" using mappages_frame [OF m] u by (auto intro: vframe_trans)
      show ?thesis
      proof (cases "q < 0")
        case True
        with eq \<open>a < newsz\<close> k False m obtain z w where "deallocuvm pgdir newsz oldsz v = Inr (z, w)" "kfree pg w = Inr t"
          by (auto simp: kbind_eq_Inr_iff Let_def)
        then show ?thesis using v by (blast dest: deallocuvm_frame kfree_frame intro: vframe_trans)
      next
        case q: False
        with eq \<open>a < newsz\<close> k False m
        have "\<not> a + PGSIZE < a" "allocuvm_loop pgdir oldsz newsz (a + PGSIZE) v = Inr (r, t)"
          by (simp_all add: Let_def split: if_splits)
        from "1.IH" [OF \<open>a < newsz\<close> k refl False refl m refl q this] v show ?thesis by (rule vframe_trans [rotated])
      qed
    qed
  qed
qed

lemma allocuvm_frame: "allocuvm pgdir oldsz newsz s = Inr (r, t) \<Longrightarrow> vframe s t"
  by (auto simp: allocuvm_def dest!: allocuvm_loop_frame split: if_splits)

lemma freevm_loop_frame: "freevm_loop pgdir n i s = Inr t \<Longrightarrow> vframe s t"
proof (induction n arbitrary: i s)
  case (Suc n)
  from Suc.prems obtain u where u: "(if load32 (mem s) (pgdir + 4 * i) AND PTE_P \<noteq> 0
      then kfree (P2V (PTE_ADDR (load32 (mem s) (pgdir + 4 * i)))) s else Inr s) = Inr u"
    and rest: "freevm_loop pgdir n (i + 1) u = Inr t"
    unfolding freevm_loop.simps kbind_eq_Inr_iff by blast
  from u have "vframe s u" by (auto dest!: kfree_frame split: if_splits)
  with rest Suc.IH show ?case by (blast intro: vframe_trans)
qed simp

lemma freevm_frame:
  assumes "freevm pgdir s = Inr t"
  shows "vframe s t"
proof -
  from assms obtain z u v where "deallocuvm pgdir KERNBASE 0 s = Inr (z, u)"
    "freevm_loop pgdir NPDENTRIES 0 u = Inr v" "kfree pgdir v = Inr t"
    by (auto simp: freevm_def kbind_eq_Inr_iff split: if_splits)
  then show ?thesis by (blast dest: deallocuvm_frame freevm_loop_frame kfree_frame intro: vframe_trans)
qed

lemma setupkvm_loop_frame: "setupkvm_loop pgdir ks s = Inr (r, t) \<Longrightarrow> vframe s t"
proof (induction ks arbitrary: s)
  case Nil
  then show ?case by simp
next
  case (Cons k ks)
  from Cons.prems obtain q u
    where m: "mappages pgdir (virt k) (phys_end k - phys_start k) (phys_start k) (kmap_perm k) s = Inr (q, u)"
    by (auto simp: kbind_eq_Inr_iff)
  show ?case
  proof (cases "q < 0")
    case True
    with Cons.prems m have "freevm pgdir u = Inr t" by (simp add: kbind_eq_Inr_iff)
    then show ?thesis using mappages_frame [OF m] by (blast dest: freevm_frame intro: vframe_trans)
  next
    case False
    with Cons.prems m have "setupkvm_loop pgdir ks u = Inr (r, t)" by simp
    then show ?thesis using mappages_frame [OF m] Cons.IH by (blast intro: vframe_trans)
  qed
qed

lemma setupkvm_frame:
  assumes "setupkvm s = Inr (r, t)"
  shows "vframe s t"
proof -
  from assms obtain pd u where k: "kalloc s = Inr (pd, u)" by (auto simp: setupkvm_def kbind_eq_Inr_iff)
  let ?u = "u\<lparr>mem := memset pd 0 PGSIZE (mem u)\<rparr>"
  have "\<not> P2V PHYSTOP > DEVSPACE" by (simp add: P2V_def)
  with assms k have "t = u \<or> setupkvm_loop pd (kmap_table ?u) ?u = Inr (r, t)"
    by (simp add: setupkvm_def Let_def split: if_splits)
  then show ?thesis
    using kalloc_frame [OF k] setupkvm_loop_frame [of pd "kmap_table ?u" ?u r t]
    by (elim disjE) (auto intro: vframe_trans)
qed

lemma inituvm_frame:
  assumes "inituvm pgdir init sz s = Inr t"
  shows "vframe s t"
proof -
  from assms obtain pg u where k: "kalloc s = Inr (pg, u)" by (auto simp: inituvm_def kbind_eq_Inr_iff split: if_splits)
  with assms obtain r v where m: "mappages pgdir 0 PGSIZE (V2P pg) (PTE_W OR PTE_U) (u\<lparr>mem := memset pg 0 PGSIZE (mem u)\<rparr>) = Inr (r, v)"
    and t: "t = v\<lparr>mem := memmove pg init sz (mem v)\<rparr>"
    by (auto simp: inituvm_def kbind_eq_Inr_iff Let_def split: if_splits)
  show ?thesis using kalloc_frame [OF k] mappages_frame [OF m] unfolding t by (auto intro: vframe_trans)
qed

lemma copyuvm_loop_frame: "copyuvm_loop d pgdir sz i s = Inr (r, t) \<Longrightarrow> vframe s t"
proof (induction d pgdir sz i s arbitrary: r t rule: copyuvm_loop.induct)
  case (1 d pgdir sz i s)
  note eq = "1.prems" [unfolded copyuvm_loop.simps [of d pgdir sz i s]]
  show ?case
  proof (cases "i < sz")
    case False
    with eq show ?thesis by simp
  next
    case True
    with eq obtain pt w pg u where w: "walkpgdir pgdir i False s = Inr (pt, w)" "pt \<noteq> 0" "load32 (mem w) pt AND PTE_P \<noteq> 0"
      and k: "kalloc w = Inr (pg, u)"
      by (auto simp: kbind_eq_Inr_iff Let_def split: if_splits)
    have u: "vframe s u" using walkpgdir_frame [OF w(1)] kalloc_frame [OF k] by (rule vframe_trans)
    show ?thesis
    proof (cases "pg = 0")
      case True
      with eq \<open>i < sz\<close> w k have "freevm d u = Inr t" by (auto simp: kbind_eq_Inr_iff Let_def)
      then show ?thesis using u by (blast dest: freevm_frame intro: vframe_trans)
    next
      case False
      let ?pa = "PTE_ADDR (load32 (mem w) pt)" and ?fl = "PTE_FLAGS (load32 (mem w) pt)"
      let ?u = "u\<lparr>mem := memmove pg (P2V ?pa) PGSIZE (mem u)\<rparr>"
      from eq \<open>i < sz\<close> w k False obtain q v where m: "mappages d i PGSIZE (V2P pg) ?fl ?u = Inr (q, v)"
        by (auto simp: kbind_eq_Inr_iff Let_def)
      have v: "vframe s v" using mappages_frame [OF m] u by (auto intro: vframe_trans)
      show ?thesis
      proof (cases "q < 0")
        case True
        with eq \<open>i < sz\<close> w k False m have "freevm d v = Inr t" by (auto simp: kbind_eq_Inr_iff Let_def)
        then show ?thesis using v by (blast dest: freevm_frame intro: vframe_trans)
      next
        case q: False
        with eq \<open>i < sz\<close> w k False m have "\<not> i + PGSIZE < i" "copyuvm_loop d pgdir sz (i + PGSIZE) v = Inr (r, t)"
          by (simp_all add: Let_def split: if_splits)
        from "1.IH" [OF \<open>i < sz\<close> w(1) refl w(2,3) refl refl k refl False refl m refl q this] v
        show ?thesis by (rule vframe_trans [rotated])
      qed
    qed
  qed
qed

lemma copyuvm_frame:
  assumes "copyuvm pgdir sz s = Inr (r, t)"
  shows "vframe s t"
proof -
  from assms obtain d u where u: "setupkvm s = Inr (d, u)" by (auto simp: copyuvm_def kbind_eq_Inr_iff)
  with assms have "t = u \<or> copyuvm_loop d pgdir sz 0 u = Inr (r, t)" by (auto simp: copyuvm_def split: if_splits)
  then show ?thesis using setupkvm_frame [OF u] copyuvm_loop_frame [of d pgdir sz 0 u r t] by (auto intro: vframe_trans)
qed

subsection \<open>None of this code gives up the processor\<close>

lemma noswtch_kalloc [noswtch_intros]: "noswtch (kalloc s)"
  unfolding kalloc_def by (intro noswtch_intros) simp_all

lemma noswtch_kfree [noswtch_intros]: "noswtch (kfree v s)"
  unfolding kfree_def by (intro noswtch_intros) simp_all

lemma noswtch_walkpgdir [noswtch_intros]: "noswtch (walkpgdir pgdir va alloc s)"
  unfolding walkpgdir_def by (intro noswtch_intros) simp_all

lemma noswtch_deallocuvm_body [noswtch_intros]: "noswtch (deallocuvm_body pte a s)"
  unfolding deallocuvm_body_def by (intro noswtch_intros) simp_all

lemma noswtch_deallocuvm_loop [noswtch_intros]: "noswtch (deallocuvm_loop pgdir a oldsz s)"
proof (induction pgdir a oldsz s rule: deallocuvm_loop.induct)
  case (1 pgdir a oldsz s)
  then show ?case
    by (subst deallocuvm_loop.simps) (intro noswtch_intros; simp)
qed

lemma noswtch_deallocuvm [noswtch_intros]: "noswtch (deallocuvm pgdir oldsz newsz s)"
  unfolding deallocuvm_def by (intro noswtch_intros) simp_all

lemma noswtch_freevm_loop [noswtch_intros]: "noswtch (freevm_loop pgdir n i s)"
  by (induction n arbitrary: i s) (auto intro!: noswtch_intros)

lemma noswtch_freevm [noswtch_intros]: "noswtch (freevm pgdir s)"
  unfolding freevm_def by (intro noswtch_intros) simp_all

end
