(* ===== verification/Proc.thy ===== *)
theory Proc
  imports Vm
begin

section \<open>Processes and the scheduler\<close>

text \<open>
  Models \<^verbatim>\<open>src/proc.c\<close>, \<^verbatim>\<open>src/proc.h\<close>, the process part of \<^verbatim>\<open>src/vm.c\<close> (\<^verbatim>\<open>switchuvm\<close>) and the timer
  part of \<^verbatim>\<open>src/trap.c\<close>. A pointer to a process is its index in \<^verbatim>\<open>ptable.proc\<close>.

  \<^verbatim>\<open>swtch\<close> exchanges kernel stacks. A call of it by a process ends the modelled call with
  \<open>Swtch s\<close>; what the process does when it is switched to again is a separate definition (\<open>..._resume\<close>)
  that receives the local variables the code keeps on the kernel stack. A call of it by the
  scheduler is an argument of the scheduler's definitions: \<open>run i s\<close> is the state in which the process
  in slot \<open>i\<close>, switched to in state \<open>s\<close>, next switches back.
\<close>

subsection \<open>State\<close>

datatype procstate = UNUSED | EMBRYO | SLEEPING | RUNNABLE | RUNNING | ZOMBIE

text \<open>\<open>ctx\<close> is \<^verbatim>\<open>p->context\<close>, \<open>wchan\<close> is \<^verbatim>\<open>p->chan\<close>, \<open>uscheduler\<close> is \<^verbatim>\<open>p->scheduler\<close> and \<open>ran_ticks\<close> is
  \<^verbatim>\<open>p->ticks\<close>.\<close>

record proc =
  sz :: u32
  pgdir :: u32
  kstack :: u32
  state :: procstate
  pid :: int
  parent :: "nat option"
  tf :: u32
  ctx :: u32
  wchan :: "chan option"
  killed :: bool
  ofile :: "nat option list"
  cwd :: "nat option"
  pname :: "u8 list"
  uscheduler :: u32
  is_threaded :: bool
  priority :: int
  ran_ticks :: "int list"
  wait_ticks :: "int list"

text \<open>\<open>trapret_addr\<close> and \<open>forkret_addr\<close> are the addresses of the two symbols; \<open>ticks\<close> is the counter of
  \<^verbatim>\<open>trap.c\<close>.\<close>

record ptab = vm +
  ptable :: "proc list"
  initproc :: "nat option"
  nextpid :: int
  ticks :: u32
  trapret_addr :: u32
  forkret_addr :: u32

definition upd_proc :: "nat \<Rightarrow> (proc \<Rightarrow> proc) \<Rightarrow> 'a ptab_scheme \<Rightarrow> 'a ptab_scheme" where
  "upd_proc i f s = s\<lparr>ptable := (ptable s)[i := f (ptable s ! i)]\<rparr>"

definition deref :: "'b option \<Rightarrow> ('b \<Rightarrow> 'e fault + 'c) \<Rightarrow> 'e fault + 'c" where
  "deref p f = (case p of None \<Rightarrow> Inl NullPtr | Some i \<Rightarrow> f i)"

subsection \<open>Creation\<close>

definition pinit :: "'a ptab_scheme \<Rightarrow> 'a ptab_scheme" where
  "pinit s = initlock PtableLock s"

abbreviation (input) SIZEOF_TRAPFRAME :: u32 where "SIZEOF_TRAPFRAME \<equiv> 76"
abbreviation (input) SIZEOF_CONTEXT :: u32 where "SIZEOF_CONTEXT \<equiv> 20"
abbreviation (input) CONTEXT_EIP :: u32 where "CONTEXT_EIP \<equiv> 16"

text \<open>What \<^verbatim>\<open>allocproc\<close> does to the slot it found (lines 105 to 112), and to the kernel stack of the new
  process (lines 122 to 136).\<close>

definition claim_slot :: "nat \<Rightarrow> 'a ptab_scheme \<Rightarrow> 'a ptab_scheme" where
  "claim_slot i s =
     (let s = upd_proc i (\<lambda>p. p\<lparr>state := EMBRYO, pid := nextpid s\<rparr>) s;
          s = s\<lparr>nextpid := int_inc (nextpid s)\<rparr> in
      upd_proc i (\<lambda>p. p\<lparr>priority := 3, ran_ticks := [0, 0, 0, 0], wait_ticks := [0, 0, 0, 0]\<rparr>) s)"

definition init_kstack :: "nat \<Rightarrow> u32 \<Rightarrow> 'a ptab_scheme \<Rightarrow> 'a ptab_scheme" where
  "init_kstack i k s =
     (let sp = k + KSTACKSIZE;
          sp = sp - SIZEOF_TRAPFRAME;
          s = upd_proc i (\<lambda>p. p\<lparr>tf := sp\<rparr>) s;
          sp = sp - 4;
          s = s\<lparr>mem := store32 sp (trapret_addr s) (mem s)\<rparr>;
          sp = sp - SIZEOF_CONTEXT;
          s = upd_proc i (\<lambda>p. p\<lparr>ctx := sp\<rparr>) s;
          s = s\<lparr>mem := memset sp 0 SIZEOF_CONTEXT (mem s)\<rparr> in
      s\<lparr>mem := store32 (sp + CONTEXT_EIP) (forkret_addr s) (mem s)\<rparr>)"

definition allocproc :: "'a ptab_scheme \<Rightarrow> 'a ptab_scheme fault + nat option \<times> 'a ptab_scheme" where
  "allocproc s =
     kbind (acquire PtableLock s) (\<lambda>s.
     case find_idx (\<lambda>p. state p = UNUSED) (ptable s) of
       None \<Rightarrow> kbind (release PtableLock s) (\<lambda>s. Inr (None, s))
     | Some i \<Rightarrow>
         kbind (release PtableLock (claim_slot i s)) (\<lambda>s.
         kbind (kalloc s) (\<lambda>(k, s).
         let s = upd_proc i (\<lambda>p. p\<lparr>kstack := k\<rparr>) s in
         if k = 0 then Inr (None, upd_proc i (\<lambda>p. p\<lparr>state := UNUSED\<rparr>) s)
         else Inr (Some i, init_kstack i k s))))"

definition switchuvm :: "nat option \<Rightarrow> 'a ptab_scheme \<Rightarrow> 'a ptab_scheme fault + 'a ptab_scheme" where
  "switchuvm p s =
     (case p of
        None \<Rightarrow> Inl (Panic ''switchuvm: no process'')
      | Some i \<Rightarrow>
          if kstack (ptable s ! i) = 0 then Inl (Panic ''switchuvm: no kstack'')
          else if pgdir (ptable s ! i) = 0 then Inl (Panic ''switchuvm: no pgdir'')
          else
            kbind (pushcli s) (\<lambda>s.
            kbind (mycpu s) (\<lambda>c.
            let s = upd_cpu c (\<lambda>x. x\<lparr>ts_esp0 := kstack (ptable s ! i) + KSTACKSIZE\<rparr>) s;
                s = s\<lparr>cr3 := (cr3 s)(lapic_id s := V2P (pgdir (ptable s ! i)))\<rparr> in
            popcli s)))"

definition growproc :: "int \<Rightarrow> 'a ptab_scheme \<Rightarrow> 'a ptab_scheme fault + int \<times> 'a ptab_scheme" where
  "growproc n s =
     kbind (myproc s) (\<lambda>(p, s).
     deref p (\<lambda>i.
     let sz0 = sz (ptable s ! i); pd = pgdir (ptable s ! i) in
     kbind (if n > 0 then allocuvm pd sz0 (sz0 + of_int n) s
            else if n < 0 then deallocuvm pd sz0 (sz0 + of_int n) s
            else Inr (sz0, s)) (\<lambda>(sz1, s).
     if n \<noteq> 0 \<and> sz1 = 0 then Inr (-1, s)
     else
       let s = upd_proc i (\<lambda>p. p\<lparr>sz := sz1\<rparr>) s in
       kbind (switchuvm (Some i) s) (\<lambda>s. Inr (0, s)))))"

text \<open>The address space of a new process \<open>j\<close>: the part of \<^verbatim>\<open>userinit\<close> from line 152 to 157, where \<open>init\<close> and \<open>initsz\<close>
  are the linker symbols \<^verbatim>\<open>_binary_initcode_start\<close> and \<^verbatim>\<open>_binary_initcode_size\<close>, and the part of \<^verbatim>\<open>fork\<close> by the
  process \<open>i\<close> from line 218 to 225, with \<open>False\<close> for its failure.\<close>

definition userinit_image :: "u32 \<Rightarrow> u32 \<Rightarrow> nat \<Rightarrow> 'a ptab_scheme \<Rightarrow> 'a ptab_scheme fault + 'a ptab_scheme" where
  "userinit_image init initsz j s =
     (let s = s\<lparr>initproc := Some j\<rparr> in
      kbind (setupkvm s) (\<lambda>(pd, s).
      let s = upd_proc j (\<lambda>p. p\<lparr>pgdir := pd\<rparr>) s in
      if pd = 0 then Inl (Panic ''userinit: out of memory?'')
      else
        kbind (inituvm pd init initsz s) (\<lambda>s.
        Inr (upd_proc j (\<lambda>p. p\<lparr>sz := PGSIZE\<rparr>) s))))"

definition fork_image :: "nat \<Rightarrow> nat \<Rightarrow> 'a ptab_scheme \<Rightarrow> 'a ptab_scheme fault + bool \<times> 'a ptab_scheme" where
  "fork_image i j s =
     kbind (copyuvm (pgdir (ptable s ! i)) (sz (ptable s ! i)) s) (\<lambda>(pd, s).
     let s = upd_proc j (\<lambda>p. p\<lparr>pgdir := pd\<rparr>) s in
     if pd = 0 then
       kbind (kfree (kstack (ptable s ! j)) s) (\<lambda>s.
       Inr (False, upd_proc j (\<lambda>p. p\<lparr>kstack := 0, state := UNUSED\<rparr>) s))
     else Inr (True, upd_proc j (\<lambda>p. p\<lparr>sz := sz (ptable s ! i), parent := Some i\<rparr>) s))"

text \<open>The last statements of \<^verbatim>\<open>userinit\<close> and of \<^verbatim>\<open>fork\<close>, which let the CPUs run the process \<open>i\<close>.\<close>

definition publish :: "nat \<Rightarrow> 'a ptab_scheme \<Rightarrow> 'a ptab_scheme fault + 'a ptab_scheme" where
  "publish i s =
     kbind (acquire PtableLock s) (\<lambda>s.
     release PtableLock (upd_proc i (\<lambda>p. p\<lparr>state := RUNNABLE\<rparr>) s))"

subsection \<open>Giving up the processor\<close>

text \<open>\<^verbatim>\<open>sched\<close> up to its \<^verbatim>\<open>swtch\<close>, with the value of its local variable \<^verbatim>\<open>intena\<close>, and after it.\<close>

definition sched_out :: "'a ptab_scheme \<Rightarrow> 'a ptab_scheme fault + bool \<times> 'a ptab_scheme" where
  "sched_out s =
     kbind (myproc s) (\<lambda>(p, s).
     kbind (holding PtableLock s) (\<lambda>h.
     if \<not> h then Inl (Panic ''sched ptable.lock'')
     else kbind (mycpu s) (\<lambda>c.
       if ncli (cpus s ! c) \<noteq> 1 then Inl (Panic ''sched locks'')
       else deref p (\<lambda>i.
         if state (ptable s ! i) = RUNNING then Inl (Panic ''sched running'')
         else if readeflags_IF s then Inl (Panic ''sched interruptible'')
         else Inr (intena (cpus s ! c), s)))))"

definition sched :: "'a ptab_scheme \<Rightarrow> 'a ptab_scheme fault + 'b" where
  "sched s = kbind (sched_out s) (\<lambda>(_, s). Inl (Swtch s))"

definition sched_resume :: "bool \<Rightarrow> 'a ptab_scheme \<Rightarrow> 'a ptab_scheme fault + 'a ptab_scheme" where
  "sched_resume intena_saved s =
     kbind (mycpu s) (\<lambda>c. Inr (upd_cpu c (\<lambda>x. x\<lparr>intena := intena_saved\<rparr>) s))"

definition yield :: "'a ptab_scheme \<Rightarrow> 'a ptab_scheme fault + 'b" where
  "yield s =
     kbind (acquire PtableLock s) (\<lambda>s.
     kbind (myproc s) (\<lambda>(p, s).
     deref p (\<lambda>i.
     let s = upd_proc i (\<lambda>p. p\<lparr>state := RUNNABLE\<rparr>) s in
     sched s)))"

definition yield_resume :: "bool \<Rightarrow> 'a ptab_scheme \<Rightarrow> 'a ptab_scheme fault + 'a ptab_scheme" where
  "yield_resume intena_saved s =
     kbind (sched_resume intena_saved s) (\<lambda>s. release PtableLock s)"

text \<open>What \<^verbatim>\<open>sleep\<close> does between its checks and \<^verbatim>\<open>sched\<close>, as the sequence of its actions, each of which is
  atomic for the other CPUs (lines 504 to 510). No caller passes a null lock, so the second panic of \<^verbatim>\<open>sleep\<close> has no
  counterpart.\<close>

definition sleep_acts ::
  "nat \<Rightarrow> chan \<Rightarrow> lockid \<Rightarrow> ('a ptab_scheme \<Rightarrow> 'a ptab_scheme fault + 'a ptab_scheme) list" where
  "sleep_acts i chan lk =
     (if lk \<noteq> PtableLock then [acquire PtableLock, release lk] else []) @
     [\<lambda>s. Inr (upd_proc i (\<lambda>p. p\<lparr>wchan := Some chan\<rparr>) s),
      \<lambda>s. Inr (upd_proc i (\<lambda>p. p\<lparr>state := SLEEPING\<rparr>) s)]"

primrec run_acts :: "('s \<Rightarrow> 's fault + 's) list \<Rightarrow> 's \<Rightarrow> 's fault + 's" where
  "run_acts [] s = Inr s"
| "run_acts (a # as) s = kbind (a s) (run_acts as)"

definition sleep :: "chan \<Rightarrow> lockid \<Rightarrow> 'a ptab_scheme \<Rightarrow> 'a ptab_scheme fault + 'b" where
  "sleep chan lk s =
     kbind (myproc s) (\<lambda>(p, s).
     case p of
       None \<Rightarrow> Inl (Panic ''sleep'')
     | Some i \<Rightarrow> kbind (run_acts (sleep_acts i chan lk) s) sched)"

definition sleep_resume ::
  "nat \<Rightarrow> lockid \<Rightarrow> bool \<Rightarrow> 'a ptab_scheme \<Rightarrow> 'a ptab_scheme fault + 'a ptab_scheme" where
  "sleep_resume i lk intena_saved s =
     kbind (sched_resume intena_saved s) (\<lambda>s.
     let s = upd_proc i (\<lambda>p. p\<lparr>wchan := None\<rparr>) s in
     if lk \<noteq> PtableLock then kbind (release PtableLock s) (acquire lk) else Inr s)"

text \<open>The channel may be a null pointer, when the parent of an exiting process is none.\<close>

definition wakeup1 :: "chan option \<Rightarrow> 'a ptab_scheme \<Rightarrow> 'a ptab_scheme" where
  "wakeup1 chan s = s\<lparr>ptable := map (\<lambda>p.
     if state p = SLEEPING \<and> wchan p = chan then p\<lparr>state := RUNNABLE\<rparr> else p) (ptable s)\<rparr>"

definition wakeup :: "chan \<Rightarrow> 'a ptab_scheme \<Rightarrow> 'a ptab_scheme fault + 'a ptab_scheme" where
  "wakeup chan s =
     kbind (acquire PtableLock s) (\<lambda>s.
     let s = wakeup1 (Some chan) s in
     release PtableLock s)"

definition kill :: "int \<Rightarrow> 'a ptab_scheme \<Rightarrow> 'a ptab_scheme fault + int \<times> 'a ptab_scheme" where
  "kill k s =
     kbind (acquire PtableLock s) (\<lambda>s.
     case find_idx (\<lambda>p. pid p = k) (ptable s) of
       Some i \<Rightarrow>
         let s = upd_proc i (\<lambda>p. p\<lparr>killed := True\<rparr>) s;
             s = (if state (ptable s ! i) = SLEEPING then upd_proc i (\<lambda>p. p\<lparr>state := RUNNABLE\<rparr>) s else s) in
         kbind (release PtableLock s) (\<lambda>s. Inr (0, s))
     | None \<Rightarrow> kbind (release PtableLock s) (\<lambda>s. Inr (-1, s)))"

subsection \<open>Exit and wait\<close>

text \<open>The loop of \<^verbatim>\<open>exit\<close> that hands the children of \<open>i\<close> to init, over the table slots \<open>js\<close>.\<close>

primrec reparent :: "nat \<Rightarrow> nat list \<Rightarrow> 'a ptab_scheme \<Rightarrow> 'a ptab_scheme" where
  "reparent i [] s = s"
| "reparent i (j # js) s =
     (let s = (if parent (ptable s ! j) = Some i then
                 let s = upd_proc j (\<lambda>p. p\<lparr>parent := initproc s\<rparr>) s in
                 if state (ptable s ! j) = ZOMBIE
                 then wakeup1 (map_option ChanProc (initproc s)) s else s
               else s) in
      reparent i js s)"

text \<open>\<^verbatim>\<open>exit\<close> from the point where the files are closed and the directory released: line 275 on.\<close>

definition exit_tail :: "nat \<Rightarrow> 'a ptab_scheme \<Rightarrow> 'a ptab_scheme fault + 'b" where
  "exit_tail i s =
     kbind (acquire PtableLock s) (\<lambda>s.
     let s = wakeup1 (map_option ChanProc (parent (ptable s ! i))) s;
         s = reparent i [0..<length (ptable s)] s;
         s = upd_proc i (\<lambda>p. p\<lparr>state := ZOMBIE\<rparr>) s in
     kbind (sched s :: 'a ptab_scheme fault + unit) (\<lambda>_. Inl (Panic ''zombie exit'')))"

text \<open>One pass of the loop of \<^verbatim>\<open>wait\<close> by the process \<open>i\<close>, which holds \<^verbatim>\<open>ptable.lock\<close>.\<close>

definition wait_pass :: "nat \<Rightarrow> 'a ptab_scheme \<Rightarrow> 'a ptab_scheme fault + int \<times> 'a ptab_scheme" where
  "wait_pass i s =
     (case find_idx (\<lambda>p. parent p = Some i \<and> state p = ZOMBIE) (ptable s) of
        Some j \<Rightarrow>
          let child = pid (ptable s ! j) in
          kbind (kfree (kstack (ptable s ! j)) s) (\<lambda>s.
          let s = upd_proc j (\<lambda>p. p\<lparr>kstack := 0\<rparr>) s in
          kbind (freevm (pgdir (ptable s ! j)) s) (\<lambda>s.
          let s = upd_proc j (\<lambda>p. p\<lparr>pid := 0, parent := None, pname := (pname p)[0 := 0],
                killed := False, state := UNUSED\<rparr>) s in
          kbind (release PtableLock s) (\<lambda>s. Inr (child, s))))
      | None \<Rightarrow>
          if find_idx (\<lambda>p. parent p = Some i) (ptable s) = None \<or> killed (ptable s ! i)
          then kbind (release PtableLock s) (\<lambda>s. Inr (-1, s))
          else sleep (ChanProc i) PtableLock s)"

definition wait :: "'a ptab_scheme \<Rightarrow> 'a ptab_scheme fault + int \<times> 'a ptab_scheme" where
  "wait s =
     kbind (myproc s) (\<lambda>(p, s).
     kbind (acquire PtableLock s) (\<lambda>s.
     deref p (\<lambda>i. wait_pass i s)))"

definition wait_resume ::
  "nat \<Rightarrow> bool \<Rightarrow> 'a ptab_scheme \<Rightarrow> 'a ptab_scheme fault + int \<times> 'a ptab_scheme" where
  "wait_resume i intena_saved s =
     kbind (sleep_resume i PtableLock intena_saved s) (\<lambda>s. wait_pass i s)"

subsection \<open>Multi-level feedback queues\<close>

text \<open>\<^verbatim>\<open>update_wait_ticks\<close> for one process other than the running one.\<close>

definition wait_tick :: "proc \<Rightarrow> proc" where
  "wait_tick p =
     (if state p = RUNNABLE then
        if priority p < 0 \<or> priority p > 3 then p
        else let j = nat (priority p) in p\<lparr>wait_ticks := (wait_ticks p)[j := int_inc (wait_ticks p ! j)]\<rparr>
      else p)"

definition update_wait_ticks :: "nat \<Rightarrow> 'a ptab_scheme \<Rightarrow> 'a ptab_scheme" where
  "update_wait_ticks running s =
     s\<lparr>ptable := map (\<lambda>i. if i = running then ptable s ! i else wait_tick (ptable s ! i)) [0..<length (ptable s)]\<rparr>"

text \<open>\<^verbatim>\<open>priority_boost\<close> for one process.\<close>

definition boost_slice :: "int list" where
  "boost_slice = [0, 32, 16, 8]"

definition boost :: "proc \<Rightarrow> proc" where
  "boost p =
     (if state p = UNUSED then p
      else
        let prio = priority p;
            p = (if prio = 2 \<or> prio = 1 then
                   let limit = 10 * boost_slice ! nat prio in
                   if wait_ticks p ! nat prio \<ge> limit
                   then p\<lparr>priority := priority p + 1, wait_ticks := (wait_ticks p)[nat prio := 0]\<rparr>
                   else p
                 else p) in
        if prio = 0 then
          if wait_ticks p ! 0 \<ge> 500 then p\<lparr>priority := 1, wait_ticks := (wait_ticks p)[0 := 0]\<rparr> else p
        else p)"

definition priority_boost :: "'a ptab_scheme \<Rightarrow> 'a ptab_scheme" where
  "priority_boost s = s\<lparr>ptable := map boost (ptable s)\<rparr>"

text \<open>The demotion of a process that used up its time slice, in \<^verbatim>\<open>scheduler\<close>.\<close>

definition slice :: "int list" where
  "slice = [1000000, 32, 16, 8]"

definition demote :: "proc \<Rightarrow> proc" where
  "demote p =
     (let prio = priority p in
      if prio > 0 \<and> ran_ticks p ! nat prio \<ge> slice ! nat prio
      then p\<lparr>priority := priority p - 1, ran_ticks := (ran_ticks p)[nat prio := 0]\<rparr>
      else p)"

text \<open>The search of \<^verbatim>\<open>scheduler\<close> over the levels \<open>prios\<close>, and over all four.\<close>

primrec mlfq_search :: "int list \<Rightarrow> proc list \<Rightarrow> nat option" where
  "mlfq_search [] ps = None"
| "mlfq_search (prio # prios) ps =
     (case find_idx (\<lambda>p. state p = RUNNABLE \<and> priority p = prio) ps of
        Some i \<Rightarrow> Some i
      | None \<Rightarrow> mlfq_search prios ps)"

definition mlfq_select :: "proc list \<Rightarrow> nat option" where
  "mlfq_select ps = mlfq_search [3, 2, 1, 0] ps"

text \<open>The parts of an MLFQ round before and after the \<^verbatim>\<open>swtch\<close> to process \<open>i\<close>. Both hold
  \<^verbatim>\<open>ptable.lock\<close>.\<close>

definition dispatch :: "nat \<Rightarrow> nat \<Rightarrow> 'a ptab_scheme \<Rightarrow> 'a ptab_scheme fault + 'a ptab_scheme" where
  "dispatch c i s =
     (let s = upd_cpu c (\<lambda>x. x\<lparr>cpu_proc := Some i\<rparr>) s in
      kbind (switchuvm (Some i) s) (\<lambda>s.
      Inr (upd_proc i (\<lambda>p. p\<lparr>state := RUNNING\<rparr>) s)))"

definition mlfq_account :: "nat \<Rightarrow> 'a ptab_scheme \<Rightarrow> 'a ptab_scheme" where
  "mlfq_account i s = priority_boost (update_wait_ticks i (upd_proc i demote s))"

definition mlfq_round ::
  "(nat \<Rightarrow> 'a ptab_scheme \<Rightarrow> 'a ptab_scheme fault + 'a ptab_scheme) \<Rightarrow> nat \<Rightarrow> 'a ptab_scheme
     \<Rightarrow> 'a ptab_scheme fault + 'a ptab_scheme" where
  "mlfq_round run c s =
     (case mlfq_select (ptable s) of
        None \<Rightarrow> Inr s
      | Some i \<Rightarrow>
          kbind (dispatch c i s) (\<lambda>s.
          kbind (run i s) (\<lambda>s.
          let s = switchkvm s;
              s = mlfq_account i s in
          Inr (upd_cpu c (\<lambda>x. x\<lparr>cpu_proc := None\<rparr>) s))))"

text \<open>The next runnable slot of the round-robin scan from slot \<open>k\<close> on.\<close>

definition rr_select :: "nat \<Rightarrow> proc list \<Rightarrow> nat option" where
  "rr_select k ps = find (\<lambda>i. state (ps ! i) = RUNNABLE) [k..<length ps]"

text \<open>The round-robin branch, over the table slots \<open>is\<close>.\<close>

primrec rr_round ::
  "(nat \<Rightarrow> 'a ptab_scheme \<Rightarrow> 'a ptab_scheme fault + 'a ptab_scheme) \<Rightarrow> nat \<Rightarrow> nat list \<Rightarrow> 'a ptab_scheme
     \<Rightarrow> 'a ptab_scheme fault + 'a ptab_scheme" where
  "rr_round run c [] s = Inr s"
| "rr_round run c (i # is) s =
     (if state (ptable s ! i) \<noteq> RUNNABLE then rr_round run c is s
      else
        kbind (dispatch c i s) (\<lambda>s.
        kbind (run i s) (\<lambda>s.
        let s = switchkvm s;
            s = upd_cpu c (\<lambda>x. x\<lparr>cpu_proc := None\<rparr>) s in
        rr_round run c is s)))"

text \<open>\<^verbatim>\<open>scheduler\<close>: its prologue, which binds \<^verbatim>\<open>c\<close>, and one iteration of its endless loop.\<close>

definition scheduler_start :: "'a ptab_scheme \<Rightarrow> 'a ptab_scheme fault + nat \<times> 'a ptab_scheme" where
  "scheduler_start s = kbind (mycpu s) (\<lambda>c. Inr (c, upd_cpu c (\<lambda>x. x\<lparr>cpu_proc := None\<rparr>) s))"

definition scheduler_iter ::
  "(nat \<Rightarrow> 'a ptab_scheme \<Rightarrow> 'a ptab_scheme fault + 'a ptab_scheme) \<Rightarrow> nat \<Rightarrow> 'a ptab_scheme
     \<Rightarrow> 'a ptab_scheme fault + 'a ptab_scheme" where
  "scheduler_iter run c s =
     kbind (acquire PtableLock (sti s)) (\<lambda>s.
     kbind (if sched_policy (cpus s ! c) = 1 \<or> sched_policy (cpus s ! c) = 2
            then mlfq_round run c s
            else rr_round run c [0..<length (ptable s)] s) (\<lambda>s.
     release PtableLock s))"

subsection \<open>The timer\<close>

text \<open>The timer case of \<^verbatim>\<open>trap\<close>. \<open>ucall\<close> is the call of the address in \<^verbatim>\<open>proc->scheduler\<close>, which runs
  user code.\<close>

definition timer_intr ::
  "(u32 \<Rightarrow> 'a ptab_scheme \<Rightarrow> 'a ptab_scheme fault + 'a ptab_scheme) \<Rightarrow> 'a ptab_scheme
     \<Rightarrow> 'a ptab_scheme fault + 'a ptab_scheme" where
  "timer_intr ucall s =
     kbind (cpuid s) (\<lambda>c.
     kbind (if c = 0 then
              kbind (acquire TicksLock s) (\<lambda>s.
              let s = s\<lparr>ticks := ticks s + 1\<rparr> in
              kbind (wakeup ChanTicks s) (release TicksLock))
            else Inr s) (\<lambda>s.
     kbind (myproc s) (\<lambda>(p, s).
     case p of
       None \<Rightarrow> Inr s
     | Some i \<Rightarrow>
         if state (ptable s ! i) = RUNNING \<and> is_threaded (ptable s ! i) \<and> uscheduler (ptable s ! i) \<noteq> 0
         then ucall (uscheduler (ptable s ! i)) s else Inr s)))"

text \<open>The accounting and the \<^verbatim>\<open>yield\<close> at the end of \<^verbatim>\<open>trap\<close> for a timer interrupt.\<close>

definition timer_yield :: "'a ptab_scheme \<Rightarrow> 'a ptab_scheme fault + 'a ptab_scheme" where
  "timer_yield s =
     kbind (myproc s) (\<lambda>(p, s).
     case p of
       None \<Rightarrow> Inr s
     | Some i \<Rightarrow>
         if state (ptable s ! i) = RUNNING then
           let j = nat (priority (ptable s ! i));
               s = upd_proc i (\<lambda>p. p\<lparr>ran_ticks := (ran_ticks p)[j := int_inc (ran_ticks p ! j)]\<rparr>) s in
           yield s
         else Inr s)"

subsection \<open>Process information\<close>

record pstat =
  ps_inuse :: "int list"
  ps_pid :: "int list"
  ps_priority :: "int list"
  ps_state :: "int list"
  ps_ticks :: "int list list"
  ps_wait_ticks :: "int list list"

primrec procstate_int :: "procstate \<Rightarrow> int" where
  "procstate_int UNUSED = 0"
| "procstate_int EMBRYO = 1"
| "procstate_int SLEEPING = 2"
| "procstate_int RUNNABLE = 3"
| "procstate_int RUNNING = 4"
| "procstate_int ZOMBIE = 5"

text \<open>\<^verbatim>\<open>sys_getpinfo\<close> once its argument is checked: the structure it fills.\<close>

definition getpinfo :: "'a ptab_scheme \<Rightarrow> 'a ptab_scheme fault + pstat \<times> 'a ptab_scheme" where
  "getpinfo s =
     kbind (acquire PtableLock s) (\<lambda>s.
     let ps = \<lparr>ps_inuse = map (\<lambda>p. if state p \<noteq> UNUSED then 1 else 0) (ptable s),
               ps_pid = map pid (ptable s),
               ps_priority = map priority (ptable s),
               ps_state = map (\<lambda>p. procstate_int (state p)) (ptable s),
               ps_ticks = map (\<lambda>p. map (\<lambda>j. ran_ticks p ! j) [0..<4]) (ptable s),
               ps_wait_ticks = map (\<lambda>p. map (\<lambda>j. wait_ticks p ! j) [0..<4]) (ptable s)\<rparr> in
     kbind (release PtableLock s) (\<lambda>s. Inr (ps, s)))"

text \<open>\<^verbatim>\<open>sys_setSchedPolicy\<close> once its argument is read.\<close>

definition setSchedPolicy :: "int \<Rightarrow> 'a ptab_scheme \<Rightarrow> 'a ptab_scheme fault + int \<times> 'a ptab_scheme" where
  "setSchedPolicy policy s =
     (if policy < 0 \<or> policy > 3 then Inr (-1, s)
      else
        let s = cli s in
        kbind (mycpu s) (\<lambda>c.
        let s = upd_cpu c (\<lambda>x. x\<lparr>sched_policy := policy\<rparr>) s;
            s = sti s in
        Inr (0, s)))"

subsection \<open>The lock layer leaves the process table alone\<close>

lemma ptab_hold [simp]:
  "ptable (hold l c s) = ptable s" "initproc (hold l c s) = initproc s" "nextpid (hold l c s) = nextpid s"
  "ticks (hold l c s) = ticks s" "trapret_addr (hold l c s) = trapret_addr s"
  "forkret_addr (hold l c s) = forkret_addr s" "kpgdir (hold l c s) = kpgdir s" "cr3 (hold l c s) = cr3 s"
  by (simp_all add: hold_def push_state_def)

lemma ptab_unhold [simp]:
  "ptable (unhold l c s) = ptable s" "initproc (unhold l c s) = initproc s" "nextpid (unhold l c s) = nextpid s"
  "ticks (unhold l c s) = ticks s" "trapret_addr (unhold l c s) = trapret_addr s"
  "forkret_addr (unhold l c s) = forkret_addr s" "kpgdir (unhold l c s) = kpgdir s" "cr3 (unhold l c s) = cr3 s"
  "mem (unhold l c s) = mem s" "use_lock (unhold l c s) = use_lock s" "freelist (unhold l c s) = freelist s"
  "end_addr (unhold l c s) = end_addr s"
  by (simp_all add: unhold_def pop_state_def)

lemma ptab_push_pop [simp]:
  "ptable (push_state c s) = ptable s" "nextpid (push_state c s) = nextpid s" "initproc (push_state c s) = initproc s"
  "ptable (pop_state c s) = ptable s" "nextpid (pop_state c s) = nextpid s" "initproc (pop_state c s) = initproc s"
  by (simp_all add: push_state_def pop_state_def)

lemma ptab_cli_mark [simp]:
  "ptable (cli_mark c s) = ptable s" "initproc (cli_mark c s) = initproc s" "nextpid (cli_mark c s) = nextpid s"
  "ticks (cli_mark c s) = ticks s" "trapret_addr (cli_mark c s) = trapret_addr s"
  "forkret_addr (cli_mark c s) = forkret_addr s" "kpgdir (cli_mark c s) = kpgdir s" "cr3 (cli_mark c s) = cr3 s"
  by (simp_all add: cli_mark_def)

lemma ptab_misc [simp]:
  "ptable (upd_cpu c f s) = ptable s" "nextpid (upd_cpu c f s) = nextpid s" "initproc (upd_cpu c f s) = initproc s"
  "ptable (cli s) = ptable s" "ptable (sti s) = ptable s" "ptable (switchkvm s) = ptable s"
  "nextpid (switchkvm s) = nextpid s" "initproc (switchkvm s) = initproc s"
  "nextpid (cli s) = nextpid s" "nextpid (sti s) = nextpid s" "initproc (cli s) = initproc s" "initproc (sti s) = initproc s"
  by (simp_all add: upd_cpu_def cli_def sti_def switchkvm_def)

lemma upd_proc_sel [simp]:
  "ptable (upd_proc i f s) = (ptable s)[i := f (ptable s ! i)]" "nextpid (upd_proc i f s) = nextpid s"
  "initproc (upd_proc i f s) = initproc s" "cpus (upd_proc i f s) = cpus s" "locks (upd_proc i f s) = locks s"
  "lapic_id (upd_proc i f s) = lapic_id s" "FL_IF (upd_proc i f s) = FL_IF s" "mem (upd_proc i f s) = mem s"
  "use_lock (upd_proc i f s) = use_lock s" "freelist (upd_proc i f s) = freelist s" "end_addr (upd_proc i f s) = end_addr s"
  "ticks (upd_proc i f s) = ticks s" "trapret_addr (upd_proc i f s) = trapret_addr s"
  "forkret_addr (upd_proc i f s) = forkret_addr s"
  by (simp_all add: upd_proc_def)

lemma wakeup1_sel [simp]:
  "nextpid (wakeup1 ch s) = nextpid s" "initproc (wakeup1 ch s) = initproc s"
  "length (ptable (wakeup1 ch s)) = length (ptable s)"
  "cpus (wakeup1 ch s) = cpus s" "locks (wakeup1 ch s) = locks s"
  "lapic_id (wakeup1 ch s) = lapic_id s" "FL_IF (wakeup1 ch s) = FL_IF s"
  by (simp_all add: wakeup1_def)

lemma sleep_code:
  "sleep chan lk s =
     kbind (myproc s) (\<lambda>(p, s).
     case p of
       None \<Rightarrow> Inl (Panic ''sleep'')
     | Some i \<Rightarrow>
         kbind (if lk \<noteq> PtableLock then kbind (acquire PtableLock s) (release lk) else Inr s) (\<lambda>s.
         sched (upd_proc i (\<lambda>p. p\<lparr>state := SLEEPING\<rparr>) (upd_proc i (\<lambda>p. p\<lparr>wchan := Some chan\<rparr>) s))))"
  by (cases "lk = PtableLock") (simp_all add: sleep_def sleep_acts_def kbind_assoc cong: option.case_cong)

lemma acquire_ptab: "acquire l s = Inr t \<Longrightarrow> ptable t = ptable s \<and> nextpid t = nextpid s \<and> initproc t = initproc s"
  by (auto dest!: acquire_InrD)

lemma release_ptab: "release l s = Inr t \<Longrightarrow> ptable t = ptable s \<and> nextpid t = nextpid s \<and> initproc t = initproc s"
  by (auto dest!: release_InrD)

lemma myproc_ptab:
  assumes "myproc s = Inr (p, t)"
  shows "ptable t = ptable s \<and> nextpid t = nextpid s \<and> initproc t = initproc s"
  using assms by (auto simp: myproc_def Let_def kbind_eq_Inr_iff dest!: pushcli_InrD popcli_InrD)

lemma switchuvm_ptab:
  assumes "switchuvm p s = Inr t"
  shows "ptable t = ptable s \<and> nextpid t = nextpid s \<and> initproc t = initproc s"
  using assms
  by (auto simp: switchuvm_def Let_def kbind_eq_Inr_iff split: option.splits if_splits
      dest!: pushcli_InrD popcli_InrD)

lemma dispatch_ptab:
  assumes "dispatch c i s = Inr t"
  shows "ptable t = (ptable s)[i := (ptable s ! i)\<lparr>state := RUNNING\<rparr>] \<and> nextpid t = nextpid s \<and> initproc t = initproc s"
  using assms by (auto simp: dispatch_def kbind_eq_Inr_iff dest!: switchuvm_ptab)

end
