(* ===== verification/Sched.thy ===== *)
theory Sched
  imports Proc
begin

section \<open>What the scheduler guarantees\<close>

text \<open>
  Lemmas on the multi-level feedback queues of \<^verbatim>\<open>src/proc.c\<close>: which process is selected, that
  priorities and waiting times stay in range, and that waiting processes rise to the top level.
\<close>

subsection \<open>Selection\<close>

lemma mlfq_search_Some_iff:
  assumes "sorted_wrt (>) prios"
  shows "mlfq_search prios ps = Some i \<longleftrightarrow>
    i < length ps \<and> state (ps ! i) = RUNNABLE \<and> priority (ps ! i) \<in> set prios \<and>
    (\<forall>j < length ps. state (ps ! j) = RUNNABLE \<and> priority (ps ! j) \<in> set prios \<longrightarrow>
       priority (ps ! j) < priority (ps ! i) \<or> priority (ps ! j) = priority (ps ! i) \<and> i \<le> j)"
  using assms
proof (induction prios)
  case Nil
  then show ?case by simp
next
  case (Cons q qs)
  then have lt: "\<forall>x \<in> set qs. x < q" by simp
  show ?case
  proof (cases "find_idx (\<lambda>p. state p = RUNNABLE \<and> priority p = q) ps")
    case None
    then have none: "\<forall>j < length ps. state (ps ! j) = RUNNABLE \<longrightarrow> priority (ps ! j) \<noteq> q"
      by (auto simp: find_idx_None_iff)
    with None Cons show ?thesis by auto
  next
    case (Some k)
    then have k: "k < length ps" "state (ps ! k) = RUNNABLE" "priority (ps ! k) = q"
      "\<forall>j<k. \<not> (state (ps ! j) = RUNNABLE \<and> priority (ps ! j) = q)"
      using find_idx_SomeD [OF Some] by auto
    have "mlfq_search (q # qs) ps = Some i \<longleftrightarrow> i = k" using Some by auto
    also have "\<dots> \<longleftrightarrow> i < length ps \<and> state (ps ! i) = RUNNABLE \<and> priority (ps ! i) \<in> set (q # qs) \<and>
      (\<forall>j < length ps. state (ps ! j) = RUNNABLE \<and> priority (ps ! j) \<in> set (q # qs) \<longrightarrow>
         priority (ps ! j) < priority (ps ! i) \<or> priority (ps ! j) = priority (ps ! i) \<and> i \<le> j)"
      (is "_ \<longleftrightarrow> ?best i")
    proof
      assume "i = k"
      then show "?best i" using k lt by (force simp: not_le [symmetric])
    next
      assume best: "?best i"
      then have "q < priority (ps ! i) \<or> q = priority (ps ! i) \<and> i \<le> k" using k by auto
      with best lt have "priority (ps ! i) = q" "i \<le> k" by auto
      with best k show "i = k" using le_neq_implies_less by blast
    qed
    finally show ?thesis .
  qed
qed

lemma mlfq_search_None_iff:
  "mlfq_search prios ps = None \<longleftrightarrow> (\<forall>p \<in> set ps. state p = RUNNABLE \<longrightarrow> priority p \<notin> set prios)"
  by (induction prios) (auto simp: find_idx_None_iff split: option.splits dest!: find_idx_SomeD nth_mem)

lemma set_levels: "x \<in> set [3, 2, 1, 0 :: int] \<longleftrightarrow> 0 \<le> x \<and> x \<le> 3"
  by auto

lemma mlfq_select_Some_iff:
  "mlfq_select ps = Some i \<longleftrightarrow>
     i < length ps \<and> state (ps ! i) = RUNNABLE \<and> 0 \<le> priority (ps ! i) \<and> priority (ps ! i) \<le> 3 \<and>
     (\<forall>j < length ps. state (ps ! j) = RUNNABLE \<and> 0 \<le> priority (ps ! j) \<and> priority (ps ! j) \<le> 3 \<longrightarrow>
        priority (ps ! j) < priority (ps ! i) \<or> priority (ps ! j) = priority (ps ! i) \<and> i \<le> j)"
  unfolding mlfq_select_def
  by (subst mlfq_search_Some_iff) (simp, simp only: set_levels conj_assoc)

lemma mlfq_select_None_iff:
  "mlfq_select ps = None \<longleftrightarrow> (\<forall>p \<in> set ps. state p = RUNNABLE \<longrightarrow> \<not> (0 \<le> priority p \<and> priority p \<le> 3))"
  unfolding mlfq_select_def mlfq_search_None_iff set_levels ..

subsection \<open>Accounting of one process\<close>

text \<open>The range of the scheduling fields: four counters per process, a priority between \<open>0\<close> and \<open>3\<close>,
  and waiting times below the limits at which \<^verbatim>\<open>priority_boost\<close> acts.\<close>

definition wait_limit :: "int list" where
  "wait_limit = [500, 320, 160]"

definition sched_ok :: "proc \<Rightarrow> bool" where
  "sched_ok p \<longleftrightarrow> 0 \<le> priority p \<and> priority p \<le> 3 \<and> length (ran_ticks p) = 4 \<and> length (wait_ticks p) = 4 \<and>
     (\<forall>j<3. 0 \<le> wait_ticks p ! j \<and> wait_ticks p ! j < wait_limit ! j)"

lemma priority_cases:
  assumes "sched_ok p"
  obtains "priority p = 0" | "priority p = 1" | "priority p = 2" | "priority p = 3"
proof -
  from assms have "0 \<le> priority p" and "priority p \<le> 3" by (simp_all add: sched_ok_def)
  then have "priority p = 0 \<or> priority p = 1 \<or> priority p = 2 \<or> priority p = 3" by linarith
  with that show thesis by blast
qed

lemma all_less_3: "(\<forall>j<3. P j) \<longleftrightarrow> P 0 \<and> P 1 \<and> P (2 :: nat)"
  by (auto simp: numeral_3_eq_3 numeral_2_eq_2 less_Suc_eq)

lemma all_less_4: "(\<forall>j<4. P j) \<longleftrightarrow> P 0 \<and> P 1 \<and> P 2 \<and> P (3 :: nat)"
  by (auto simp: numeral_3_eq_3 numeral_2_eq_2 less_Suc_eq eval_nat_numeral)

lemmas sched_simps = all_less_3 all_less_4 wait_limit_def boost_slice_def slice_def int_inc_small

lemma sched_ok_demote:
  assumes "sched_ok p"
  shows "sched_ok (demote p)"
  using assms
  by (cases p rule: priority_cases)
     (use assms in \<open>simp_all add: sched_ok_def demote_def Let_def sched_simps\<close>)

lemma sched_ok_boost:
  assumes "sched_ok p"
  shows "sched_ok (boost p)"
  using assms
  by (cases p rule: priority_cases)
     (use assms in \<open>simp_all add: sched_ok_def boost_def Let_def sched_simps\<close>)

lemma sched_ok_boost_wait:
  assumes "sched_ok p"
  shows "sched_ok (boost (wait_tick p))"
  using assms
  by (cases p rule: priority_cases)
     (use assms in \<open>simp_all add: sched_ok_def boost_def wait_tick_def Let_def sched_simps\<close>)

lemma boost_other_fields [simp]:
  "state (boost p) = state p" "pid (boost p) = pid p" "parent (boost p) = parent p"
  "wchan (boost p) = wchan p" "killed (boost p) = killed p" "kstack (boost p) = kstack p"
  by (simp_all add: boost_def Let_def)

lemma wait_tick_other_fields [simp]:
  "state (wait_tick p) = state p" "pid (wait_tick p) = pid p" "parent (wait_tick p) = parent p"
  "wchan (wait_tick p) = wchan p" "killed (wait_tick p) = killed p" "kstack (wait_tick p) = kstack p"
  "priority (wait_tick p) = priority p"
  by (simp_all add: wait_tick_def Let_def)

lemma demote_other_fields [simp]:
  "state (demote p) = state p" "pid (demote p) = pid p" "parent (demote p) = parent p"
  "wchan (demote p) = wchan p" "killed (demote p) = killed p" "kstack (demote p) = kstack p"
  by (simp_all add: demote_def Let_def)

text \<open>The accounting of a round, entry by entry.\<close>

lemma length_mlfq_account [simp]: "length (ptable (mlfq_account i s)) = length (ptable s)"
  by (simp add: mlfq_account_def priority_boost_def update_wait_ticks_def upd_proc_def)

lemma mlfq_account_nth:
  assumes "j < length (ptable s)"
  shows "ptable (mlfq_account i s) ! j =
    boost (if j = i then demote (ptable s ! i) else wait_tick (ptable s ! j))"
  using assms by (simp add: mlfq_account_def priority_boost_def update_wait_ticks_def upd_proc_def)

subsection \<open>Rising to the top level\<close>

text \<open>An upper bound on the number of rounds a waiting process needs to reach the top level.\<close>

definition rounds_left :: "proc \<Rightarrow> nat" where
  "rounds_left p =
     (let w = (\<lambda>j. nat (wait_limit ! j - wait_ticks p ! j)) in
      if priority p = 0 then w 0 + w 1 + w 2
      else if priority p = 1 then w 1 + w 2
      else if priority p = 2 then w 2
      else 0)"

lemma rounds_left_bound: "sched_ok p \<Longrightarrow> rounds_left p \<le> 980"
  by (auto simp: sched_ok_def rounds_left_def Let_def sched_simps)

lemma rounds_left_0:
  assumes "sched_ok p" and "rounds_left p = 0"
  shows "priority p = 3"
  using assms(1)
  by (cases p rule: priority_cases)
     (use assms in \<open>auto simp: sched_ok_def rounds_left_def Let_def sched_simps\<close>)

lemma rounds_left_step:
  assumes "sched_ok p" and "state p = RUNNABLE"
  shows "rounds_left (boost (wait_tick p)) \<le> rounds_left p - 1"
  using assms(1)
  by (cases p rule: priority_cases)
     (use assms in \<open>auto simp: sched_ok_def rounds_left_def boost_def wait_tick_def Let_def sched_simps\<close>)

definition same_sched :: "proc \<Rightarrow> proc \<Rightarrow> bool" where
  "same_sched p p' \<longleftrightarrow> state p' = state p \<and> priority p' = priority p \<and> wait_ticks p' = wait_ticks p \<and>
     ran_ticks p' = ran_ticks p"

text \<open>What a process that waits relies on: while another process runs, nobody takes it out of the
  run queue or changes its scheduling fields.\<close>

definition keeps_waiting ::
  "(nat \<Rightarrow> 'a ptab_scheme \<Rightarrow> 'a ptab_scheme fault + 'a ptab_scheme) \<Rightarrow> nat \<Rightarrow> bool" where
  "keeps_waiting run q \<longleftrightarrow> (\<forall>i s t. run i s = Inr t \<longrightarrow> i \<noteq> q \<longrightarrow> q < length (ptable s) \<longrightarrow>
     state (ptable s ! q) = RUNNABLE \<longrightarrow>
     length (ptable t) = length (ptable s) \<and> same_sched (ptable s ! q) (ptable t ! q))"

lemma keeps_waitingD:
  "keeps_waiting run q \<Longrightarrow> run i s = Inr t \<Longrightarrow> i \<noteq> q \<Longrightarrow> q < length (ptable s) \<Longrightarrow>
   state (ptable s ! q) = RUNNABLE \<Longrightarrow>
   length (ptable t) = length (ptable s) \<and> same_sched (ptable s ! q) (ptable t ! q)"
  unfolding keeps_waiting_def by blast

lemma same_sched_ok: "same_sched p p' \<Longrightarrow> sched_ok p' = sched_ok p"
  by (simp add: same_sched_def sched_ok_def)

lemma same_sched_rounds: "same_sched p p' \<Longrightarrow> rounds_left p' = rounds_left p"
  by (simp add: same_sched_def rounds_left_def)

lemma mlfq_round_waiting:
  assumes run: "keeps_waiting run q" and step: "mlfq_round run c s = Inr t"
    and q: "q < length (ptable s)" "state (ptable s ! q) = RUNNABLE" "sched_ok (ptable s ! q)"
    and other: "mlfq_select (ptable s) \<noteq> Some q"
  shows "\<exists>p. same_sched (ptable s ! q) p \<and> ptable t ! q = boost (wait_tick p) \<and>
    length (ptable t) = length (ptable s)"
proof -
  have "mlfq_select (ptable s) \<noteq> None"
    using q nth_mem [OF q(1)] by (auto simp: mlfq_select_None_iff sched_ok_def)
  then obtain i where i: "mlfq_select (ptable s) = Some i" and ne: "i \<noteq> q" using other by auto
  from step obtain s1 s2 where d: "dispatch c i s = Inr s1" and r: "run i s1 = Inr s2"
    and t: "t = upd_cpu c (\<lambda>x. x\<lparr>cpu_proc := None\<rparr>) (mlfq_account i (switchkvm s2))"
    by (auto simp: mlfq_round_def i Let_def kbind_eq_Inr_iff)
  from dispatch_ptab [OF d] ne have s1: "ptable s1 ! q = ptable s ! q" "length (ptable s1) = length (ptable s)"
    by simp_all
  have s2: "length (ptable s2) = length (ptable s)" "same_sched (ptable s ! q) (ptable s2 ! q)"
    using keeps_waitingD [OF run r ne] s1 q(1,2) by simp_all
  have "ptable t ! q = boost (wait_tick (ptable s2 ! q))"
    using ne q(1) s2(1) by (simp add: t mlfq_account_nth)
  with s2 show ?thesis by (auto simp: t)
qed

lemma scheduler_iter_mlfq:
  assumes "scheduler_iter run c s = Inr t" and "sched_policy (cpus s ! c) = 1 \<or> sched_policy (cpus s ! c) = 2"
  shows "\<exists>s1 t1. ptable s1 = ptable s \<and> mlfq_round run c s1 = Inr t1 \<and> ptable t = ptable t1"
proof -
  from assms(1) obtain s1 where a: "acquire PtableLock (sti s) = Inr s1"
    by (auto simp: scheduler_iter_def kbind_eq_Inr_iff)
  then obtain d where "s1 = hold PtableLock d (sti s)" by (auto dest: acquire_InrD)
  then have pol: "sched_policy (cpus s1 ! c) = sched_policy (cpus s ! c)"
    by (cases "c = d"; cases "d < length (cpus s)") (simp_all add: sti_def list_update_beyond)
  from acquire_ptab [OF a] have "ptable s1 = ptable s" by simp
  moreover from assms a pol obtain t1 where "mlfq_round run c s1 = Inr t1" "release PtableLock t1 = Inr t"
    by (auto simp: scheduler_iter_def kbind_eq_Inr_iff)
  ultimately show ?thesis by (auto dest: release_ptab)
qed

lemma waiting_rises:
  assumes run: "keeps_waiting run q"
    and steps: "\<forall>k<n. scheduler_iter run c (\<sigma> k) = Inr (\<sigma> (Suc k))"
    and policy: "\<forall>k<n. sched_policy (cpus (\<sigma> k) ! c) = 1 \<or> sched_policy (cpus (\<sigma> k) ! c) = 2"
    and other: "\<forall>k<n. mlfq_select (ptable (\<sigma> k)) \<noteq> Some q"
    and q: "q < length (ptable (\<sigma> 0))" "state (ptable (\<sigma> 0) ! q) = RUNNABLE" "sched_ok (ptable (\<sigma> 0) ! q)"
  shows "q < length (ptable (\<sigma> n)) \<and> state (ptable (\<sigma> n) ! q) = RUNNABLE \<and> sched_ok (ptable (\<sigma> n) ! q) \<and>
    rounds_left (ptable (\<sigma> n) ! q) \<le> rounds_left (ptable (\<sigma> 0) ! q) - n"
  using steps policy other
proof (induction n)
  case 0
  then show ?case using q by simp
next
  case (Suc n)
  have IH: "q < length (ptable (\<sigma> n))" "state (ptable (\<sigma> n) ! q) = RUNNABLE" "sched_ok (ptable (\<sigma> n) ! q)"
    "rounds_left (ptable (\<sigma> n) ! q) \<le> rounds_left (ptable (\<sigma> 0) ! q) - n"
    using Suc.IH Suc.prems less_SucI by blast+
  obtain s1 t1 where s1: "ptable s1 = ptable (\<sigma> n)" "mlfq_round run c s1 = Inr t1" "ptable (\<sigma> (Suc n)) = ptable t1"
    using scheduler_iter_mlfq [of run c "\<sigma> n" "\<sigma> (Suc n)"] Suc.prems(1,2) by blast
  obtain p where p: "same_sched (ptable (\<sigma> n) ! q) p" "ptable (\<sigma> (Suc n)) ! q = boost (wait_tick p)"
    "length (ptable (\<sigma> (Suc n))) = length (ptable (\<sigma> n))"
    using mlfq_round_waiting [OF run s1(2), folded s1(3), unfolded s1(1)] IH(1-3) Suc.prems(3) by blast
  have ok: "sched_ok p" "state p = RUNNABLE"
    using same_sched_ok [OF p(1)] p(1) IH by (simp_all add: same_sched_def)
  have "rounds_left (boost (wait_tick p)) \<le> rounds_left (ptable (\<sigma> n) ! q) - 1"
    using rounds_left_step [OF ok] same_sched_rounds [OF p(1)] by simp
  with IH(4) have "rounds_left (ptable (\<sigma> (Suc n)) ! q) \<le> rounds_left (ptable (\<sigma> 0) ! q) - Suc n"
    unfolding p(2) by linarith
  then show ?case
    using IH(1) p(3) ok(2) sched_ok_boost_wait [OF ok(1)] unfolding p(2) by simp
qed

subsection \<open>Properties\<close>

text \<open>C4. The MLFQ search selects slot \<open>i\<close> exactly if it is runnable and every other runnable process has a
  lower priority, or the same priority and a higher slot number. So processes on one level are not
  taken in turn: the lowest slot always wins.\<close>

theorem mlfq_select_correct:
  "mlfq_select ps = Some i \<longleftrightarrow>
     i < length ps \<and> state (ps ! i) = RUNNABLE \<and> 0 \<le> priority (ps ! i) \<and> priority (ps ! i) \<le> 3 \<and>
     (\<forall>j < length ps. state (ps ! j) = RUNNABLE \<and> 0 \<le> priority (ps ! j) \<and> priority (ps ! j) \<le> 3 \<longrightarrow>
        priority (ps ! j) < priority (ps ! i) \<or> priority (ps ! j) = priority (ps ! i) \<and> i \<le> j)"
  by (rule mlfq_select_Some_iff)

definition demo_proc :: "int \<Rightarrow> procstate \<Rightarrow> int \<Rightarrow> proc" where
  "demo_proc k st prio = \<lparr>sz = 0x1000, pgdir = 0x80500000, kstack = 0x80600000, state = st, pid = k,
     parent = None, tf = 0, ctx = 0, wchan = None, killed = False, ofile = replicate 16 None, cwd = None,
     pname = replicate 16 0, uscheduler = 0, is_threaded = False, priority = prio,
     ran_ticks = [0, 0, 0, 0], wait_ticks = [0, 0, 0, 0]\<rparr>"

definition demo_ptab :: "proc list \<Rightarrow> ptab" where
  "demo_ptab ps = \<lparr>cpus = [(demo_cpu 0)\<lparr>sched_policy := 1\<rparr>], lapic_id = 0, FL_IF = (\<lambda>_. True),
     locks = (\<lambda>_. unlocked), mem = (\<lambda>_. 0), use_lock = True, freelist = 0x80400000, end_addr = 0x80120000,
     kpgdir = 0x80700000, cr3 = (\<lambda>_. 0), data_addr = 0x80110000, vram_size = 0x300000, pvram_addr = 0x80000000,
     ptable = ps, initproc = None, nextpid = 9, ticks = 0, trapret_addr = 0x80101000, forkret_addr = 0x80102000\<rparr>"

theorem mlfq_select_correct_witness:
  "mlfq_select [demo_proc 1 SLEEPING 3, demo_proc 2 RUNNABLE 1, demo_proc 3 RUNNABLE 2, demo_proc 4 RUNNABLE 2] = Some 2"
  using mlfq_select_correct
    [of "[demo_proc 1 SLEEPING 3, demo_proc 2 RUNNABLE 1, demo_proc 3 RUNNABLE 2, demo_proc 4 RUNNABLE 2]" 2]
  by (auto simp: demo_proc_def less_Suc_eq numeral_eq_Suc)

text \<open>C3. No starvation below the top level: a runnable process that is not selected rises to the top
  level within the number of MLFQ rounds that its waiting times allow, which is at most \<open>980\<close>.\<close>

theorem waiting_reaches_top:
  assumes "keeps_waiting run q"
    and "\<forall>k<n. scheduler_iter run c (\<sigma> k) = Inr (\<sigma> (Suc k))"
    and "\<forall>k<n. sched_policy (cpus (\<sigma> k) ! c) = 1 \<or> sched_policy (cpus (\<sigma> k) ! c) = 2"
    and "\<forall>k<n. mlfq_select (ptable (\<sigma> k)) \<noteq> Some q"
    and "q < length (ptable (\<sigma> 0))" and "state (ptable (\<sigma> 0) ! q) = RUNNABLE"
    and "sched_ok (ptable (\<sigma> 0) ! q)" and "rounds_left (ptable (\<sigma> 0) ! q) \<le> n"
  shows "rounds_left (ptable (\<sigma> 0) ! q) \<le> 980 \<and> priority (ptable (\<sigma> n) ! q) = 3"
proof
  have "sched_ok (ptable (\<sigma> n) ! q)" "rounds_left (ptable (\<sigma> n) ! q) \<le> rounds_left (ptable (\<sigma> 0) ! q) - n"
    using waiting_rises [OF assms(1-7)] by blast+
  then show "priority (ptable (\<sigma> n) ! q) = 3"
    using assms(8) by (intro rounds_left_0) simp_all
  show "rounds_left (ptable (\<sigma> 0) ! q) \<le> 980"
    by (rule rounds_left_bound [OF assms(7)])
qed

text \<open>A process that yields as soon as it runs.\<close>

definition demo_run :: "nat \<Rightarrow> ptab \<Rightarrow> ptab fault + ptab" where
  "demo_run i s = Inr (upd_proc i (\<lambda>p. p\<lparr>state := RUNNABLE\<rparr>) s)"

definition demo_rounds :: "nat \<Rightarrow> ptab" where
  "demo_rounds k =
     (let s = demo_ptab [demo_proc 1 RUNNABLE 3, (demo_proc 2 RUNNABLE 2)\<lparr>wait_ticks := [0, 0, 159, 0]\<rparr>] in
      if k = 0 then s else projr (scheduler_iter demo_run 0 s))"

lemma demo_rounds_step: "scheduler_iter demo_run 0 (demo_rounds 0) = Inr (demo_rounds 1)"
  by (simp add: demo_rounds_def demo_ptab_def demo_proc_def demo_cpu_def scheduler_iter_def acquire_def release_def
      pushcli_def popcli_def holding_def mycpu_def readeflags_IF_def cli_def sti_def upd_cpu_def Let_def unlocked_def
      mlfq_round_def mlfq_select_def dispatch_def switchuvm_def demo_run_def upd_proc_def switchkvm_def
      mlfq_account_def priority_boost_def update_wait_ticks_def)

lemma demo_run_keeps_waiting: "keeps_waiting demo_run q"
  by (auto simp: keeps_waiting_def demo_run_def same_sched_def)

theorem waiting_reaches_top_witness:
  "priority (ptable (demo_rounds 0) ! 1) = 2 \<and> priority (ptable (demo_rounds 1) ! 1) = 3"
proof -
  have "rounds_left (ptable (demo_rounds 0) ! 1) \<le> 980 \<and> priority (ptable (demo_rounds 1) ! 1) = 3"
  proof (rule waiting_reaches_top [OF demo_run_keeps_waiting, where n = 1 and c = 0])
    show "\<forall>k<1. scheduler_iter demo_run 0 (demo_rounds k) = Inr (demo_rounds (Suc k))"
      using demo_rounds_step by simp
  qed (simp_all add: demo_rounds_def demo_ptab_def demo_proc_def mlfq_select_def sched_ok_def rounds_left_def
      Let_def sched_simps)
  then show ?thesis by (simp add: demo_rounds_def demo_ptab_def demo_proc_def)
qed

end
