(* ===== verification/Procops.thy ===== *)
theory Procops
  imports Sched
begin

section \<open>What the process operations guarantee\<close>

text \<open>
  Results of the operations of \<^verbatim>\<open>src/proc.c\<close> on a CPU that may run them: \<open>cli_ok c s\<close> says that the
  executing CPU is \<open>c\<close> and that it runs with interrupts off if it is inside a critical section.
\<close>

subsection \<open>Critical sections on the process table\<close>

lemma ptable_section:
  assumes "cli_ok c s" and "locks s PtableLock = unlocked"
    and "cpus t = cpus (hold PtableLock c s)" and "lapic_id t = lapic_id s"
    and "FL_IF t = FL_IF (hold PtableLock c s)" and "locks t = locks (hold PtableLock c s)"
  shows "\<exists>u. release PtableLock t = Inr u \<and> ptable u = ptable t \<and> nextpid u = nextpid t \<and>
    initproc u = initproc t \<and> mem u = mem t \<and> use_lock u = use_lock t \<and> freelist u = freelist t \<and>
    end_addr u = end_addr t \<and> trapret_addr u = trapret_addr t \<and> forkret_addr u = forkret_addr t \<and>
    ticks u = ticks t \<and> cli_ok c u \<and> locks u = locks s"
proof -
  let ?u = "t\<lparr>cpus := cpus (cli_mark c s), FL_IF := FL_IF s, locks := locks s\<rparr>"
  have "release PtableLock t = Inr ?u" by (rule release_back [OF assms])
  moreover have "cli_ok c ?u = cli_ok c (cli_mark c s)"
    using assms(4) by (intro cli_ok_cong) simp_all
  ultimately show ?thesis using assms(1) by simp
qed

lemma wakeup_result:
  assumes "cli_ok c s" and "locks s PtableLock = unlocked"
  shows "\<exists>t. wakeup ch s = Inr t \<and> ptable t = ptable (wakeup1 (Some ch) s) \<and> cli_ok c t \<and> locks t = locks s"
proof -
  let ?t = "wakeup1 (Some ch) (hold PtableLock c s)"
  have "\<exists>u. release PtableLock ?t = Inr u \<and> ptable u = ptable ?t \<and> cli_ok c u \<and> locks u = locks s"
    using ptable_section [OF assms, of ?t] by auto
  then show ?thesis
    using acquire_free [OF assms] by (auto simp: wakeup_def wakeup1_def)
qed

lemma wakeup1_nth:
  "j < length (ptable s) \<Longrightarrow> ptable (wakeup1 ch s) ! j =
     (if state (ptable s ! j) = SLEEPING \<and> wchan (ptable s ! j) = ch
      then (ptable s ! j)\<lparr>state := RUNNABLE\<rparr> else ptable s ! j)"
  by (simp add: wakeup1_def)

lemma kill_result:
  assumes "cli_ok c s" and "locks s PtableLock = unlocked"
  shows "\<exists>t. kill k s = Inr (case find_idx (\<lambda>p. pid p = k) (ptable s) of Some _ \<Rightarrow> 0 | None \<Rightarrow> -1, t) \<and>
    cli_ok c t \<and> locks t = locks s \<and>
    ptable t = (case find_idx (\<lambda>p. pid p = k) (ptable s) of
        None \<Rightarrow> ptable s
      | Some i \<Rightarrow> (ptable s)[i := (ptable s ! i)\<lparr>killed := True,
          state := (if state (ptable s ! i) = SLEEPING then RUNNABLE else state (ptable s ! i))\<rparr>])"
proof (cases "find_idx (\<lambda>p. pid p = k) (ptable s)")
  case None
  have "\<exists>u. release PtableLock (hold PtableLock c s) = Inr u \<and> ptable u = ptable s \<and> cli_ok c u \<and> locks u = locks s"
    using ptable_section [OF assms, of "hold PtableLock c s"] by auto
  with None show ?thesis
    using acquire_free [OF assms] by (auto simp: kill_def)
next
  case (Some i)
  let ?h = "upd_proc i (\<lambda>p. p\<lparr>killed := True\<rparr>) (hold PtableLock c s)"
  define t where "t = (if state (ptable s ! i) = SLEEPING then upd_proc i (\<lambda>p. p\<lparr>state := RUNNABLE\<rparr>) ?h else ?h)"
  from Some have i: "i < length (ptable s)" by (rule find_idx_length)
  have pt: "ptable t = (ptable s)[i := (ptable s ! i)\<lparr>killed := True,
      state := (if state (ptable s ! i) = SLEEPING then RUNNABLE else state (ptable s ! i))\<rparr>]"
    using i by (simp add: t_def)
  have t: "cpus t = cpus (hold PtableLock c s)" "lapic_id t = lapic_id s"
    "FL_IF t = FL_IF (hold PtableLock c s)" "locks t = locks (hold PtableLock c s)"
    by (simp_all add: t_def)
  obtain u where u: "release PtableLock t = Inr u" "ptable u = ptable t" "cli_ok c u" "locks u = locks s"
    using ptable_section [OF assms t] by blast
  have "kill k s = kbind (release PtableLock t) (\<lambda>s. Inr (0, s))"
    using Some acquire_free [OF assms] i by (simp add: kill_def Let_def t_def)
  then show ?thesis using u pt Some by simp
qed

subsection \<open>Page-table code and the process table\<close>

lemma more_ptab:
  assumes "kmem.more t = kmem.more s"
  shows "ptable t = ptable s" "nextpid t = nextpid s" "initproc t = initproc s" "ticks t = ticks s"
    "trapret_addr t = trapret_addr s" "forkret_addr t = forkret_addr s"
  using assms by (cases s; cases t; simp)+

lemma vframe_ptab:
  assumes "vframe s t"
  shows "ptable t = ptable s" "nextpid t = nextpid s" "initproc t = initproc s" "ticks t = ticks s"
    "trapret_addr t = trapret_addr s" "forkret_addr t = forkret_addr s"
  using more_ptab [of t s] assms by (simp_all add: vframe_def)

subsection \<open>The process table invariant\<close>

text \<open>Every slot has its scheduling fields in range. If \<^verbatim>\<open>nextpid\<close> has a bound \<open>b\<close>, which is \<open>0\<close> when it may have wrapped
  around, then it is positive and at most \<open>b\<close>, and the pids of the slots in use are positive, below \<^verbatim>\<open>nextpid\<close> and pairwise
  different.\<close>

definition in_use :: "proc \<Rightarrow> bool" where
  "in_use p \<longleftrightarrow> state p \<noteq> UNUSED"

definition tab_inv :: "int \<Rightarrow> int \<Rightarrow> proc list \<Rightarrow> bool" where
  "tab_inv b n ps \<longleftrightarrow> (\<forall>i < length ps. sched_ok (ps ! i)) \<and>
     (0 < b \<longrightarrow> 0 < n \<and> n \<le> b \<and> (\<forall>i < length ps. in_use (ps ! i) \<longrightarrow> 0 < pid (ps ! i) \<and> pid (ps ! i) < n) \<and>
        (\<forall>i < length ps. \<forall>j < length ps. i \<noteq> j \<longrightarrow> in_use (ps ! i) \<longrightarrow> in_use (ps ! j) \<longrightarrow> pid (ps ! i) \<noteq> pid (ps ! j)))"

definition table_inv :: "'a ptab_scheme \<Rightarrow> bool" where
  "table_inv s \<longleftrightarrow> tab_inv (nextpid s) (nextpid s) (ptable s) \<and> 0 < nextpid s"

lemma tab_invD:
  assumes "tab_inv b n ps"
  shows "i < length ps \<Longrightarrow> sched_ok (ps ! i)"
    and "0 < b \<Longrightarrow> 0 < n \<and> n \<le> b"
    and "0 < b \<Longrightarrow> i < length ps \<Longrightarrow> in_use (ps ! i) \<Longrightarrow> 0 < pid (ps ! i) \<and> pid (ps ! i) < n"
    and "0 < b \<Longrightarrow> i < length ps \<Longrightarrow> j < length ps \<Longrightarrow> i \<noteq> j \<Longrightarrow> in_use (ps ! i) \<Longrightarrow> in_use (ps ! j) \<Longrightarrow>
      pid (ps ! i) \<noteq> pid (ps ! j)"
  using assms unfolding tab_inv_def by blast+

lemma tab_inv_mono: "tab_inv b n ps \<Longrightarrow> (0 < b' \<Longrightarrow> 0 < b \<and> b \<le> b') \<Longrightarrow> tab_inv b' n ps"
  unfolding tab_inv_def by auto

text \<open>Entries may change as long as none comes into use and pids in use stay.\<close>

definition entry_step :: "proc \<Rightarrow> proc \<Rightarrow> bool" where
  "entry_step p p' \<longleftrightarrow> (sched_ok p \<longrightarrow> sched_ok p') \<and> (in_use p' \<longrightarrow> in_use p \<and> pid p' = pid p)"

lemma entry_step_refl [simp]: "entry_step p p"
  by (simp add: entry_step_def)

lemma entry_step_trans: "entry_step p q \<Longrightarrow> entry_step q r \<Longrightarrow> entry_step p r"
  by (auto simp: entry_step_def)

lemma tab_inv_entries:
  assumes inv: "tab_inv b n ps" and len: "length qs = length ps"
    and entries: "\<And>i. i < length ps \<Longrightarrow> entry_step (ps ! i) (qs ! i)"
  shows "tab_inv b n qs"
  unfolding tab_inv_def len
proof (intro conjI allI impI)
  note inv = tab_invD [OF inv]
  fix i assume i: "i < length ps"
  show "sched_ok (qs ! i)" using entries [OF i] inv(1) [OF i] by (simp add: entry_step_def)
  assume b: "0 < b"
  show "0 < pid (qs ! i)" "pid (qs ! i) < n" if "in_use (qs ! i)"
    using entries [OF i] inv(3) [OF b i] that by (auto simp: entry_step_def)
  fix j assume j: "j < length ps" and "i \<noteq> j" "in_use (qs ! i)" "in_use (qs ! j)"
  then show "pid (qs ! i) \<noteq> pid (qs ! j)"
    using entries [OF i] entries [OF j] inv(4) [OF b i j] by (simp add: entry_step_def)
qed (use tab_invD(2) [OF inv] in auto)

lemma sched_ok_upd [simp]:
  "sched_ok (p\<lparr>state := st\<rparr>) = sched_ok p" "sched_ok (p\<lparr>killed := k\<rparr>) = sched_ok p"
  "sched_ok (p\<lparr>wchan := ch\<rparr>) = sched_ok p" "sched_ok (p\<lparr>kstack := ks\<rparr>) = sched_ok p"
  "sched_ok (p\<lparr>parent := pa\<rparr>) = sched_ok p" "sched_ok (p\<lparr>sz := n\<rparr>) = sched_ok p"
  "sched_ok (p\<lparr>tf := a\<rparr>) = sched_ok p" "sched_ok (p\<lparr>ctx := a\<rparr>) = sched_ok p" "sched_ok (p\<lparr>pid := x\<rparr>) = sched_ok p"
  "sched_ok (p\<lparr>pname := nm\<rparr>) = sched_ok p" "sched_ok (p\<lparr>pgdir := a\<rparr>) = sched_ok p"
  "sched_ok (p\<lparr>ofile := fs\<rparr>) = sched_ok p" "sched_ok (p\<lparr>cwd := d\<rparr>) = sched_ok p"
  "sched_ok (p\<lparr>uscheduler := a\<rparr>) = sched_ok p" "sched_ok (p\<lparr>is_threaded := b\<rparr>) = sched_ok p"
  by (simp_all add: sched_ok_def)

lemmas entry_simps = entry_step_def in_use_def

lemma noswtch_sched_out [noswtch_intros]: "noswtch (sched_out s)"
  unfolding sched_out_def deref_def by (intro noswtch_intros) simp_all

end
