(* ===== verification/Procsys.thy ===== *)
theory Procsys
  imports Procops
begin

section \<open>Processes on several CPUs\<close>

text \<open>
  The process operations as steps of a system of CPUs that share the process table. A step is a whole operation
  of one CPU, at whose start and end that CPU holds no lock: the creation of a process, the making of its
  address space, a \<^verbatim>\<open>kill\<close> or \<^verbatim>\<open>wakeup\<close>, a process giving up its CPU together with what the
  scheduler that ran it does next, or the scheduler starting a process. Steps of different CPUs interleave freely.

  The scheduler keeps on its stack which of its two branches it took before it switched to a process; the
  component \<open>m\<close> of the system holds this for every CPU.
\<close>

subsection \<open>Steps\<close>

text \<open>\<^verbatim>\<open>scheduler\<close> from its return from the process \<open>i\<close> to the end of the loop body, in the MLFQ branch (\<open>mlfq\<close>) or in the
  round-robin branch.\<close>

definition sched_tail :: "bool \<Rightarrow> nat \<Rightarrow> nat \<Rightarrow> 'a ptab_scheme \<Rightarrow> 'a ptab_scheme" where
  "sched_tail mlfq c i s =
     (let s = switchkvm s;
          s = (if mlfq then mlfq_account i s else s) in
      upd_cpu c (\<lambda>x. x\<lparr>cpu_proc := None\<rparr>) s)"

definition mlfq_policy :: "nat \<Rightarrow> 'a mach_scheme \<Rightarrow> bool" where
  "mlfq_policy c s \<longleftrightarrow> sched_policy (cpus s ! c) = 1 \<or> sched_policy (cpus s ! c) = 2"

definition at_cpu :: "nat \<Rightarrow> 'a mach_scheme \<Rightarrow> 'a mach_scheme" where
  "at_cpu c s = s\<lparr>lapic_id := apicid (cpus s ! c)\<rparr>"

text \<open>The ways in which a process gives up its CPU, up to its \<^verbatim>\<open>swtch\<close>.\<close>

inductive gives_up :: "nat \<Rightarrow> ptab \<Rightarrow> ptab \<Rightarrow> bool" where
  up_yield: "(yield s :: ptab fault + unit) = Inl (Swtch t) \<Longrightarrow> gives_up i s t"
| up_timer: "timer_yield s = Inl (Swtch t) \<Longrightarrow> gives_up i s t"
| up_sleep: "l \<noteq> PtableLock \<Longrightarrow> acquire l s = Inr u \<Longrightarrow> (sleep ch l u :: ptab fault + unit) = Inl (Swtch t) \<Longrightarrow>
    gives_up i s t"
| up_wait: "wait s = Inl (Swtch t) \<Longrightarrow> gives_up i s t"
| up_exit: "initproc s \<noteq> Some i \<Longrightarrow> (exit_tail i s :: ptab fault + unit) = Inl (Swtch t) \<Longrightarrow> gives_up i s t"

text \<open>\<open>runs_on\<close>: the process \<open>i\<close> is switched to on CPU \<open>c\<close> in state \<open>v\<close>, and \<open>t\<close> is the next state in which the CPU
  holds no lock. The process returns into \<^verbatim>\<open>forkret\<close> when it is new, and otherwise into the call of \<^verbatim>\<open>sched\<close> by which it gave
  up its CPU, in \<^verbatim>\<open>yield\<close>, in a \<^verbatim>\<open>sleep\<close> whose caller releases the lock \<open>l\<close>, or in \<^verbatim>\<open>wait\<close>, which may sleep again at once.
  \<open>back_in\<close>: the process \<open>i\<close> has switched back to the scheduler in state \<open>u\<close>. The MLFQ branch then ends; the round-robin
  branch switches to the next runnable process behind \<open>i\<close>, still holding \<^verbatim>\<open>ptable.lock\<close>, or ends when there is none.\<close>

inductive runs_on :: "nat \<Rightarrow> bool \<Rightarrow> nat \<Rightarrow> ptab \<Rightarrow> ptab \<Rightarrow> bool"
  and back_in :: "nat \<Rightarrow> bool \<Rightarrow> nat \<Rightarrow> ptab \<Rightarrow> ptab \<Rightarrow> bool" where
  on_forkret: "release PtableLock v = Inr t \<Longrightarrow> runs_on c mlfq i v t"
| on_yield: "yield_resume e v = Inr t \<Longrightarrow> runs_on c mlfq i v t"
| on_sleep: "l \<noteq> PtableLock \<Longrightarrow> sleep_resume i l e v = Inr u \<Longrightarrow> release l u = Inr t \<Longrightarrow> runs_on c mlfq i v t"
| on_wait: "wait_resume i e v = Inr (r, t) \<Longrightarrow> runs_on c mlfq i v t"
| on_wait_again: "wait_resume i e v = Inl (Swtch u) \<Longrightarrow> back_in c mlfq i u t \<Longrightarrow> runs_on c mlfq i v t"
| back_end: "mlfq \<or> rr_select (Suc i) (ptable (sched_tail mlfq c i u)) = None \<Longrightarrow>
    release PtableLock (sched_tail mlfq c i u) = Inr t \<Longrightarrow> back_in c mlfq i u t"
| back_next: "\<not> mlfq \<Longrightarrow> rr_select (Suc i) (ptable (sched_tail mlfq c i u)) = Some j \<Longrightarrow>
    dispatch c j (sched_tail mlfq c i u) = Inr v \<Longrightarrow> runs_on c mlfq j v t \<Longrightarrow> back_in c mlfq i u t"

text \<open>The steps of CPU \<open>c\<close>. The last three stand for the code that does not schedule: it changes memory, the list of
  free pages and \<^verbatim>\<open>ticks\<close>, the files and the name of a process that is being created, and the address space, the files, the
  name and the thread fields of the running process.\<close>

type_synonym psys = "(nat \<Rightarrow> bool) \<times> ptab"

inductive proc_step :: "nat \<Rightarrow> psys \<Rightarrow> psys \<Rightarrow> bool" where
  step_userinit: "i < length (ptable s) \<Longrightarrow> state (ptable s ! i) = EMBRYO \<Longrightarrow>
    userinit_image init initsz i (at_cpu c s) = Inr t \<Longrightarrow> proc_step c (m, s) (m, t)"
| step_fork: "cpu_proc (cpus s ! c) = Some i \<Longrightarrow> j < length (ptable s) \<Longrightarrow> state (ptable s ! j) = EMBRYO \<Longrightarrow>
    fork_image i j (at_cpu c s) = Inr (ok, t) \<Longrightarrow> proc_step c (m, s) (m, t)"
| step_publish: "i < length (ptable s) \<Longrightarrow> state (ptable s ! i) = EMBRYO \<Longrightarrow> publish i (at_cpu c s) = Inr t \<Longrightarrow>
    proc_step c (m, s) (m, t)"
| step_grow: "cpu_proc (cpus s ! c) = Some i \<Longrightarrow> growproc n (at_cpu c s) = Inr (r, t) \<Longrightarrow> proc_step c (m, s) (m, t)"
| step_wakeup: "wakeup ch (at_cpu c s) = Inr t \<Longrightarrow> proc_step c (m, s) (m, t)"
| step_kill: "kill k (at_cpu c s) = Inr (r, t) \<Longrightarrow> proc_step c (m, s) (m, t)"
| step_wait: "cpu_proc (cpus s ! c) = Some i \<Longrightarrow> wait (at_cpu c s) = Inr (r, t) \<Longrightarrow> proc_step c (m, s) (m, t)"
| step_policy: "setSchedPolicy k (at_cpu c s) = Inr (r, t) \<Longrightarrow> proc_step c (m, s) (m, t)"
| step_give_up: "cpu_proc (cpus s ! c) = Some i \<Longrightarrow> gives_up i (at_cpu c s) u \<Longrightarrow> back_in c (m c) i u t \<Longrightarrow>
    proc_step c (m, s) (m, t)"
| step_start: "cpu_proc (cpus s ! c) = None \<Longrightarrow> acquire PtableLock (sti (at_cpu c s)) = Inr u \<Longrightarrow>
    (if mlfq_policy c u then mlfq_select (ptable u) else rr_select 0 (ptable u)) = Some i \<Longrightarrow>
    dispatch c i u = Inr v \<Longrightarrow> runs_on c (mlfq_policy c u) i v t \<Longrightarrow> proc_step c (m, s) (m(c := mlfq_policy c u), t)"
| step_idle: "cpu_proc (cpus s ! c) = None \<Longrightarrow> acquire PtableLock (sti (at_cpu c s)) = Inr u \<Longrightarrow>
    (if mlfq_policy c u then mlfq_select (ptable u) else rr_select 0 (ptable u)) = None \<Longrightarrow>
    release PtableLock u = Inr t \<Longrightarrow> proc_step c (m, s) (m, t)"
| step_memory: "proc_step c (m, s) (m, s\<lparr>mem := x, freelist := f, ticks := k\<rparr>)"
| step_embryo: "state (ptable s ! i) = EMBRYO \<Longrightarrow>
    proc_step c (m, s) (m, upd_proc i (\<lambda>p. p\<lparr>ofile := fs, cwd := d, pname := nm\<rparr>) s)"
| step_current: "cpu_proc (cpus s ! c) = Some i \<Longrightarrow>
    proc_step c (m, s) (m, upd_proc i (\<lambda>p. p\<lparr>sz := n, pgdir := a, ofile := fs, cwd := d, pname := nm, uscheduler := us,
      is_threaded := th\<rparr>) s)"

text \<open>The table as the kernel finds it at boot: all bytes zero.\<close>

definition zero_proc :: proc where
  "zero_proc = \<lparr>sz = 0, pgdir = 0, kstack = 0, state = UNUSED, pid = 0, parent = None, tf = 0, ctx = 0,
     wchan = None, killed = False, ofile = replicate NOFILE None, cwd = None, pname = replicate 16 0,
     uscheduler = 0, is_threaded = False, priority = 0, ran_ticks = [0, 0, 0, 0], wait_ticks = [0, 0, 0, 0]\<rparr>"

definition boot_ptab :: "ptab \<Rightarrow> bool" where
  "boot_ptab s \<longleftrightarrow> distinct (map apicid (cpus s)) \<and> (\<forall>x \<in> set (cpus s). ncli x = 0 \<and> cpu_proc x = None) \<and>
     locks s = (\<lambda>_. unlocked) \<and> ptable s = replicate NPROC zero_proc \<and> nextpid s = 1"

text \<open>The states that the CPUs reach from boot with \<open>n\<close> calls of \<^verbatim>\<open>allocproc\<close>.\<close>

inductive proc_reachable :: "nat \<Rightarrow> psys \<Rightarrow> bool" where
  proc_boot: "boot_ptab s \<Longrightarrow> proc_reachable 0 (m, s)"
| proc_alloc: "proc_reachable n (m, s) \<Longrightarrow> c < length (cpus s) \<Longrightarrow> allocproc (at_cpu c s) = Inr (r, t) \<Longrightarrow>
    proc_reachable (Suc n) (m, t)"
| proc_next: "proc_reachable n (m, s) \<Longrightarrow> c < length (cpus s) \<Longrightarrow> proc_step c (m, s) (m', t) \<Longrightarrow>
    proc_reachable n (m', t)"

subsection \<open>The invariant\<close>

text \<open>Between steps no lock is held, and a process is \<^verbatim>\<open>RUNNING\<close> exactly when it is the current process
  of a CPU, of one CPU only.\<close>

definition at_rest :: "'a mach_scheme \<Rightarrow> bool" where
  "at_rest s \<longleftrightarrow> distinct (map apicid (cpus s)) \<and> (\<forall>x \<in> set (cpus s). ncli x = 0) \<and> locks s = (\<lambda>_. unlocked)"

definition running :: "'a mach_scheme \<Rightarrow> nat option list" where
  "running s = map cpu_proc (cpus s)"

definition run_inv :: "nat option list \<Rightarrow> proc list \<Rightarrow> bool" where
  "run_inv rs ps \<longleftrightarrow>
     (\<forall>c < length rs. \<forall>i. rs ! c = Some i \<longrightarrow> i < length ps \<and> state (ps ! i) = RUNNING) \<and>
     (\<forall>i < length ps. state (ps ! i) = RUNNING \<longrightarrow> Some i \<in> set rs) \<and>
     (\<forall>c < length rs. \<forall>d < length rs. c \<noteq> d \<longrightarrow> rs ! c \<noteq> None \<longrightarrow> rs ! c \<noteq> rs ! d)"

definition proc_inv :: "'a ptab_scheme \<Rightarrow> bool" where
  "proc_inv s \<longleftrightarrow> at_rest s \<and> table_inv s \<and> run_inv (running s) (ptable s)"

text \<open>The same with a bound on \<^verbatim>\<open>nextpid\<close>, or without the part on pids.\<close>

definition sys_inv :: "int \<Rightarrow> 'a ptab_scheme \<Rightarrow> bool" where
  "sys_inv b s \<longleftrightarrow> at_rest s \<and> tab_inv b (nextpid s) (ptable s) \<and> run_inv (running s) (ptable s)"

lemma proc_inv_sys: "proc_inv s \<longleftrightarrow> 0 < nextpid s \<and> sys_inv (nextpid s) s"
  by (auto simp: proc_inv_def sys_inv_def table_inv_def)

lemma sys_inv_proc:
  assumes "sys_inv b s" and "0 < b"
  shows "proc_inv s"
  using assms unfolding proc_inv_sys sys_inv_def tab_inv_def by simp

lemma sys_inv_rest: "sys_inv b s \<Longrightarrow> at_rest s"
  by (simp add: sys_inv_def)

lemma sys_inv_mono: "sys_inv b s \<Longrightarrow> (0 < b' \<Longrightarrow> 0 < b \<and> b \<le> b') \<Longrightarrow> sys_inv b' s"
  by (auto simp: sys_inv_def intro: tab_inv_mono)

lemma run_invD:
  assumes "run_inv rs ps"
  shows "c < length rs \<Longrightarrow> rs ! c = Some i \<Longrightarrow> i < length ps \<and> state (ps ! i) = RUNNING"
    and "i < length ps \<Longrightarrow> state (ps ! i) = RUNNING \<Longrightarrow> Some i \<in> set rs"
    and "c < length rs \<Longrightarrow> d < length rs \<Longrightarrow> c \<noteq> d \<Longrightarrow> rs ! c \<noteq> None \<Longrightarrow> rs ! c \<noteq> rs ! d"
  using assms unfolding run_inv_def by blast+

text \<open>A step that starts or stops no process.\<close>

lemma run_inv_same:
  assumes "run_inv rs ps" and "length qs = length ps"
    and "\<And>i. i < length ps \<Longrightarrow> state (qs ! i) = RUNNING \<longleftrightarrow> state (ps ! i) = RUNNING"
  shows "run_inv rs qs"
  using assms unfolding run_inv_def by simp

text \<open>The process of CPU \<open>c\<close> stops.\<close>

lemma run_inv_stop:
  assumes inv: "run_inv rs ps" and c: "c < length rs" "rs ! c = Some i" and len: "length qs = length ps"
    and i: "state (qs ! i) \<noteq> RUNNING"
    and others: "\<And>j. j < length ps \<Longrightarrow> j \<noteq> i \<Longrightarrow> state (qs ! j) = RUNNING \<longleftrightarrow> state (ps ! j) = RUNNING"
  shows "run_inv (rs[c := None]) qs"
  unfolding run_inv_def length_list_update len
proof (intro conjI allI impI)
  note D = run_invD [OF inv]
  fix d assume d: "d < length rs"
  show "k < length ps" if "rs[c := None] ! d = Some k" for k
    using that D(1) [OF d] d by (cases "d = c") simp_all
  show "state (qs ! k) = RUNNING" if k: "rs[c := None] ! d = Some k" for k
  proof -
    from k d have "d \<noteq> c" "rs ! d = Some k" by (cases "d = c"; simp)+
    moreover from this have "k \<noteq> i" using D(3) [OF d c(1)] c(2) by auto
    ultimately show ?thesis using D(1) [OF d] others by simp
  qed
  fix e assume e: "e < length rs" and de: "d \<noteq> e" and ne: "rs[c := None] ! d \<noteq> None"
  then have "d \<noteq> c" using d by (cases "d = c") simp_all
  then show "rs[c := None] ! d \<noteq> rs[c := None] ! e"
    using D(3) [OF d e de] ne d e by (cases "e = c") simp_all
next
  fix k assume k: "k < length ps" and st: "state (qs ! k) = RUNNING"
  with i others have "k \<noteq> i" "state (ps ! k) = RUNNING" by auto
  then obtain d where d: "d < length rs" "rs ! d = Some k"
    using run_invD(2) [OF inv k] by (auto simp: in_set_conv_nth)
  with c \<open>k \<noteq> i\<close> have "rs[c := None] ! d = Some k" by (cases "d = c") auto
  with d show "Some k \<in> set (rs[c := None])" by (metis length_list_update nth_mem)
qed

text \<open>CPU \<open>c\<close> starts the process \<open>i\<close>.\<close>

lemma run_inv_start:
  assumes inv: "run_inv rs ps" and c: "c < length rs" "rs ! c = None" and i: "i < length ps" "state (ps ! i) \<noteq> RUNNING"
    and st: "state p = RUNNING"
  shows "run_inv (rs[c := Some i]) (ps[i := p])"
  unfolding run_inv_def length_list_update
proof (intro conjI allI impI)
  note D = run_invD [OF inv]
  have fresh: "rs ! d \<noteq> Some i" if "d < length rs" for d
    using D(1) [OF that, of i] i(2) by auto
  fix d assume d: "d < length rs"
  show "k < length ps" if "rs[c := Some i] ! d = Some k" for k
    using that D(1) [OF d] d i by (cases "d = c") auto
  show "state (ps[i := p] ! k) = RUNNING" if "rs[c := Some i] ! d = Some k" for k
    using that D(1) [OF d] d i st by (cases "d = c"; cases "k = i") auto
  fix e assume e: "e < length rs" and de: "d \<noteq> e" and ne: "rs[c := Some i] ! d \<noteq> None"
  then show "rs[c := Some i] ! d \<noteq> rs[c := Some i] ! e"
    using D(3) [OF d e de] fresh [OF d] fresh [OF e] d e by (cases "e = c"; cases "d = c") auto
next
  fix k assume k: "k < length ps" and "state (ps[i := p] ! k) = RUNNING"
  then show "Some k \<in> set (rs[c := Some i])"
  proof (cases "k = i")
    case True
    then show ?thesis using c(1) by (simp add: set_update_memI)
  next
    case False
    with k \<open>state (ps[i := p] ! k) = RUNNING\<close> obtain d where d: "d < length rs" "rs ! d = Some k"
      using run_invD(2) [OF inv k] by (auto simp: in_set_conv_nth)
    with c have "rs[c := Some i] ! d = Some k" by (cases "d = c") auto
    with d show ?thesis by (metis length_list_update nth_mem)
  qed
qed

subsection \<open>Inside a critical section\<close>

text \<open>CPU \<open>c\<close> is inside the critical section on the process table that it entered in state \<open>s\<close>.\<close>

definition in_section :: "nat \<Rightarrow> 'a mach_scheme \<Rightarrow> 'b mach_scheme \<Rightarrow> bool" where
  "in_section c s t \<longleftrightarrow> lapic_id t = lapic_id s \<and>
     locks t = (locks s)(PtableLock := \<lparr>locked = True, lk_cpu = Some c\<rparr>) \<and> \<not> FL_IF t (lapic_id t) \<and>
     (\<exists>x. cpus t = (cpus s)[c := x] \<and> apicid x = apicid (cpus s ! c) \<and> ncli x = 1)"

lemma in_section_cong:
  "cpus t' = cpus t \<Longrightarrow> lapic_id t' = lapic_id t \<Longrightarrow> FL_IF t' = FL_IF t \<Longrightarrow> locks t' = locks t \<Longrightarrow>
   in_section c s t' = in_section c s t"
  by (simp add: in_section_def)

lemma mlfq_account_sel [simp]:
  "cpus (mlfq_account i s) = cpus s" "lapic_id (mlfq_account i s) = lapic_id s" "FL_IF (mlfq_account i s) = FL_IF s"
  "locks (mlfq_account i s) = locks s" "nextpid (mlfq_account i s) = nextpid s"
  by (simp_all add: mlfq_account_def priority_boost_def update_wait_ticks_def)

lemma switchkvm_sel [simp]:
  "cpus (switchkvm s) = cpus s" "lapic_id (switchkvm s) = lapic_id s" "FL_IF (switchkvm s) = FL_IF s"
  "locks (switchkvm s) = locks s"
  by (simp_all add: switchkvm_def)

lemma in_section_upd [simp]:
  "in_section c s (upd_proc i f t) = in_section c s t" "in_section c s (wakeup1 ch t) = in_section c s t"
  "in_section c s (mlfq_account i t) = in_section c s t" "in_section c s (switchkvm t) = in_section c s t"
  by (rule in_section_cong; simp)+

lemma in_section_length: "in_section c s t \<Longrightarrow> length (cpus t) = length (cpus s)"
  by (auto simp: in_section_def)

lemma in_section_on_cpu:
  assumes "in_section c s t" and "on_cpu c s"
  shows "on_cpu c t"
proof -
  from assms(1) obtain x where x: "cpus t = (cpus s)[c := x]" "apicid x = apicid (cpus s ! c)" "lapic_id t = lapic_id s"
    by (auto simp: in_section_def)
  then have "map apicid (cpus t) = map apicid (cpus s)" by simp
  with x(3) assms(2) show ?thesis using on_cpu_cong [of t s c] by blast
qed

lemma in_section_cpu:
  assumes "in_section c s t" and "c < length (cpus s)"
  shows "ncli (cpus t ! c) = 1" "apicid (cpus t ! c) = apicid (cpus s ! c)"
  using assms by (auto simp: in_section_def)

lemma in_section_upd_cpu:
  assumes "in_section c s t" and "c < length (cpus s)" and "\<And>x. apicid (f x) = apicid x" and "\<And>x. ncli (f x) = ncli x"
  shows "in_section c s (upd_cpu c f t)"
proof -
  from assms(1) obtain x where x: "cpus t = (cpus s)[c := x]" "apicid x = apicid (cpus s ! c)" "ncli x = 1"
    by (auto simp: in_section_def)
  then have "cpus (upd_cpu c f t) = (cpus s)[c := f x]" using assms(2) by (simp add: upd_cpu_def)
  then show ?thesis
    using assms x by (auto simp: in_section_def upd_cpu_def)
qed

lemma in_section_enter:
  assumes "at_rest s" and "on_cpu c s"
  shows "acquire PtableLock s = Inr (hold PtableLock c s)" "in_section c s (hold PtableLock c s)"
proof -
  have len: "c < length (cpus s)" by (rule on_cpu_length [OF assms(2)])
  show "acquire PtableLock s = Inr (hold PtableLock c s)"
    using assms by (intro acquire_eq) (auto simp: at_rest_def unlocked_def)
  have "ncli (cpus s ! c) = 0" using assms(1) len by (simp add: at_rest_def)
  then show "in_section c s (hold PtableLock c s)"
    by (auto simp: in_section_def intro!: exI [of _ "cpu_push (FL_IF s (lapic_id s)) (cpus s ! c)"])
qed

lemma at_rest_cpu:
  assumes "at_rest s" and "on_cpu c s"
  shows "cli_ok c s" "locks s l = unlocked" "ncli (cpus s ! c) = 0"
  using assms on_cpu_length [OF assms(2)] by (auto simp: at_rest_def cli_ok_def)

lemma in_section_leave:
  assumes "at_rest s" and "on_cpu c s" and "in_section c s t"
  shows "\<exists>u. release PtableLock t = Inr u \<and> at_rest u \<and> running u = (running s)[c := cpu_proc (cpus t ! c)] \<and>
    ptable u = ptable t \<and> nextpid u = nextpid t \<and> initproc u = initproc t \<and> cpus u = (cpus t)[c := cpu_pop (cpus t ! c)] \<and>
    lapic_id u = lapic_id t \<and> kmem.more u = kmem.more t \<and> mem u = mem t \<and> freelist u = freelist t \<and>
    use_lock u = use_lock t \<and> end_addr u = end_addr t"
proof -
  have len: "c < length (cpus s)" by (rule on_cpu_length [OF assms(2)])
  from assms(3) obtain x where x: "cpus t = (cpus s)[c := x]" "apicid x = apicid (cpus s ! c)" "ncli x = 1"
    and lk: "locks t = (locks s)(PtableLock := \<lparr>locked = True, lk_cpu = Some c\<rparr>)" "\<not> FL_IF t (lapic_id t)"
    by (auto simp: in_section_def)
  have rel: "release PtableLock t = Inr (unhold PtableLock c t)"
    using in_section_on_cpu [OF assms(3,2)] x lk len by (intro release_eq) simp_all
  have "at_rest (unhold PtableLock c t)"
    using assms(1) x lk len unfolding at_rest_def
    by (auto simp: fun_eq_iff dest!: set_update_subset_insert [THEN subsetD])
  moreover have "running (unhold PtableLock c t) = (running s)[c := cpu_proc (cpus t ! c)]"
    using x len by (simp add: running_def map_update)
  ultimately show ?thesis using rel by simp
qed

text \<open>\<^verbatim>\<open>sched\<close> inside the section goes straight to its \<^verbatim>\<open>swtch\<close>.\<close>

lemma sched_in_section:
  assumes "in_section c s t" and "on_cpu c s" and "cpu_proc (cpus t ! c) = Some i" and "state (ptable t ! i) \<noteq> RUNNING"
  shows "sched t = Inl (Swtch t)"
proof -
  have len: "c < length (cpus s)" by (rule on_cpu_length [OF assms(2)])
  have oc: "on_cpu c t" by (rule in_section_on_cpu [OF assms(1,2)])
  have n: "ncli (cpus t ! c) = 1" by (rule in_section_cpu [OF assms(1) len])
  from assms(1) have lk: "locks t PtableLock = \<lparr>locked = True, lk_cpu = Some c\<rparr>" "\<not> FL_IF t (lapic_id t)"
    by (auto simp: in_section_def)
  have "cli_ok c t" using oc n lk by (simp add: cli_ok_def)
  then have "myproc t = Inr (Some i, t)" using n assms(3) by (simp add: myproc_eq)
  moreover have "mycpu t = Inr c" using oc lk by (intro mycpu_on_cpu)
  ultimately show ?thesis
    using assms(4) lk n by (simp add: sched_def sched_out_def holding_def deref_def readeflags_IF_def)
qed

subsection \<open>Changes to the table\<close>

text \<open>Changes that bring no slot into use, keep the pids in use, and start or stop no process other than \<open>i\<close>.\<close>

definition mild_but :: "nat option \<Rightarrow> proc list \<Rightarrow> proc list \<Rightarrow> bool" where
  "mild_but i ps qs \<longleftrightarrow> length qs = length ps \<and>
     (\<forall>j < length ps. entry_step (ps ! j) (qs ! j) \<and>
        (Some j = i \<or> (state (qs ! j) = RUNNING \<longleftrightarrow> state (ps ! j) = RUNNING)))"

lemma mild_refl [simp]: "mild_but i ps ps"
  by (simp add: mild_but_def)

lemma mild_butD:
  assumes "mild_but i ps qs"
  shows "length qs = length ps" and "j < length ps \<Longrightarrow> entry_step (ps ! j) (qs ! j)"
    and "j < length ps \<Longrightarrow> Some j \<noteq> i \<Longrightarrow> state (qs ! j) = RUNNING \<longleftrightarrow> state (ps ! j) = RUNNING"
  using assms unfolding mild_but_def by blast+

lemma mild_trans:
  assumes "mild_but i ps qs" and "mild_but i qs rs"
  shows "mild_but i ps rs"
proof -
  note D = mild_butD [OF assms(1)] and E = mild_butD [OF assms(2)]
  show ?thesis
    unfolding mild_but_def
  proof (intro conjI allI impI)
    show "length rs = length ps" using D(1) E(1) by simp
    fix j assume j: "j < length ps"
    show "entry_step (ps ! j) (rs ! j)"
      using D(1) D(2) [OF j] E(2) [of j] j by (auto intro: entry_step_trans)
    show "Some j = i \<or> (state (rs ! j) = RUNNING) = (state (ps ! j) = RUNNING)"
      using D(1) D(3) [OF j] E(3) [of j] j by (cases "Some j = i") simp_all
  qed
qed

lemma mild_weaken: "mild_but None ps qs \<Longrightarrow> mild_but i ps qs"
  by (auto simp: mild_but_def)

lemma mild_upd:
  assumes "entry_step (ps ! k) p" and "Some k = i \<or> (state p = RUNNING \<longleftrightarrow> state (ps ! k) = RUNNING)"
  shows "mild_but i ps (ps[k := p])"
  unfolding mild_but_def
proof (intro conjI allI impI)
  fix j assume "j < length ps"
  then show "entry_step (ps ! j) (ps[k := p] ! j)" "Some j = i \<or> (state (ps[k := p] ! j) = RUNNING) = (state (ps ! j) = RUNNING)"
    using assms by (cases "j = k"; simp)+
qed simp

lemma mild_upd2:
  assumes "k < length ps" and "entry_step p q" and "Some k = i \<or> (state q = RUNNING \<longleftrightarrow> state p = RUNNING)"
  shows "mild_but i (ps[k := p]) (ps[k := q])"
  using mild_upd [of "ps[k := p]" k q i] assms by simp

lemma mild_wakeup1: "mild_but i (ptable s) (ptable (wakeup1 ch s))"
  by (auto simp: mild_but_def wakeup1_nth entry_simps)

lemma mild_account:
  assumes "mild_but i ps (ptable s)"
  shows "mild_but i ps (ptable (mlfq_account j s))"
proof (rule mild_trans [OF assms])
  show "mild_but i (ptable s) (ptable (mlfq_account j s))"
    unfolding mild_but_def
    by (auto simp: mlfq_account_nth entry_simps sched_ok_boost sched_ok_demote sched_ok_boost_wait)
qed

lemma map_nth_update: "(map f xs)[c := f (xs ! c)] = map f xs"
  by (cases "c < length xs") (simp_all add: list_update_same_conv list_update_beyond)

lemma tab_inv_mild: "tab_inv b n ps \<Longrightarrow> mild_but i ps qs \<Longrightarrow> tab_inv b n qs"
  by (rule tab_inv_entries) (blast dest: mild_butD)+

lemma sys_inv_mild:
  assumes inv: "sys_inv b s" and "at_rest t" and "running t = running s" and "nextpid t = nextpid s"
    and mild: "mild_but None (ptable s) (ptable t)"
  shows "sys_inv b t"
  unfolding sys_inv_def
proof (intro conjI)
  show "tab_inv b (nextpid t) (ptable t)"
    using inv assms(4) tab_inv_mild [OF _ mild] by (simp add: sys_inv_def)
  show "run_inv (running t) (ptable t)"
    unfolding assms(3)
    by (rule run_inv_same [of "running s" "ptable s"])
       (use inv mild_butD(1,3) [OF mild] in \<open>simp_all add: sys_inv_def\<close>)
qed fact

lemma at_rest_cong: "cpus t = cpus s \<Longrightarrow> locks t = locks s \<Longrightarrow> at_rest t = at_rest s"
  by (simp add: at_rest_def)

lemma running_cong: "cpus t = cpus s \<Longrightarrow> running t = running s"
  by (simp add: running_def)

lemma sys_inv_cong:
  "cpus t = cpus s \<Longrightarrow> locks t = locks s \<Longrightarrow> nextpid t = nextpid s \<Longrightarrow> ptable t = ptable s \<Longrightarrow> sys_inv b t = sys_inv b s"
  by (simp add: sys_inv_def at_rest_def running_def)

text \<open>A change of one slot outside the critical sections.\<close>

lemma sys_inv_upd:
  assumes "sys_inv b s" and "entry_step (ptable s ! i) (f (ptable s ! i))"
    and "state (f (ptable s ! i)) = RUNNING \<longleftrightarrow> state (ptable s ! i) = RUNNING"
  shows "sys_inv b (upd_proc i f s)"
  by (rule sys_inv_mild [OF assms(1)])
     (use assms at_rest_cong [of "upd_proc i f s" s] running_cong [of "upd_proc i f s" s]
      in \<open>simp_all add: sys_inv_def mild_upd\<close>)

lemma at_cpu_sel [simp]:
  "ptable (at_cpu c s) = ptable s" "nextpid (at_cpu c s) = nextpid s" "cpus (at_cpu c s) = cpus s"
  "running (at_cpu c s) = running s" "at_rest (at_cpu c s) = at_rest s" "locks (at_cpu c s) = locks s"
  "initproc (at_cpu c s) = initproc s"
  by (simp_all add: at_cpu_def running_def at_rest_def)

lemma proc_inv_at_cpu [simp]: "proc_inv (at_cpu c s) = proc_inv s"
  by (simp add: proc_inv_def table_inv_def)

lemma sys_inv_at_cpu [simp]: "sys_inv b (at_cpu c s) = sys_inv b s"
  by (simp add: sys_inv_def)

lemma at_cpu_on: "at_rest s \<Longrightarrow> c < length (cpus s) \<Longrightarrow> on_cpu c (at_cpu c s)"
  by (rule on_cpu_this) (simp_all add: at_rest_def at_cpu_def)

subsection \<open>A process gives up its CPU\<close>

lemma myproc_rest:
  assumes "at_rest s" and "on_cpu c s" and "cpu_proc (cpus s ! c) = p"
  shows "myproc s = Inr (p, cli_mark c s)" "at_rest (cli_mark c s)" "on_cpu c (cli_mark c s)"
    "cpu_proc (cpus (cli_mark c s) ! c) = p" "running (cli_mark c s) = running s"
    "in_section c (cli_mark c s) t = in_section c s t"
proof -
  have len: "c < length (cpus s)" by (rule on_cpu_length [OF assms(2)])
  show "myproc s = Inr (p, cli_mark c s)" using at_rest_cpu [OF assms(1,2)] assms(3) by (simp add: myproc_eq)
  show "at_rest (cli_mark c s)"
    using assms(1) len by (auto simp: at_rest_def dest!: set_update_subset_insert [THEN subsetD])
  show "on_cpu c (cli_mark c s)" using assms(2) by simp
  show "cpu_proc (cpus (cli_mark c s) ! c) = p" using assms(3) len by simp
  show "running (cli_mark c s) = running s"
    using len by (simp add: running_def map_update list_update_same_conv)
  show "in_section c (cli_mark c s) t = in_section c s t" using len by (simp add: in_section_def)
qed

lemma myproc_section:
  assumes "in_section c s t" and "on_cpu c s" and "cpu_proc (cpus t ! c) = p"
  shows "myproc t = Inr (p, t)"
proof -
  have "on_cpu c t" "ncli (cpus t ! c) = 1"
    using in_section_on_cpu [OF assms(1,2)] in_section_cpu(1) [OF assms(1) on_cpu_length [OF assms(2)]] by simp_all
  moreover from assms(1) have "\<not> FL_IF t (lapic_id t)" unfolding in_section_def by blast
  ultimately show ?thesis using assms(3) myproc_eq [of c t] by (simp add: cli_ok_def)
qed

text \<open>What the table looks like when the process \<open>i\<close> has given up CPU \<open>c\<close>.\<close>

definition gave_up :: "nat \<Rightarrow> nat \<Rightarrow> 'a ptab_scheme \<Rightarrow> 'a ptab_scheme \<Rightarrow> bool" where
  "gave_up c i s t \<longleftrightarrow> in_section c s t \<and> cpu_proc (cpus t ! c) = Some i \<and> nextpid t = nextpid s \<and>
     mild_but (Some i) (ptable s) (ptable t) \<and> state (ptable t ! i) \<noteq> RUNNING"

lemma yield_gives_up:
  fixes s :: "'a ptab_scheme"
  assumes "at_rest s" and "on_cpu c s" and "cpu_proc (cpus s ! c) = Some i" and "i < length (ptable s)"
    and "in_use (ptable s ! i)" and "(yield s :: 'a ptab_scheme fault + 'b) = Inl (Swtch t)"
  shows "gave_up c i s t"
proof -
  note sec = in_section_enter [OF assms(1,2)]
  have len: "c < length (cpus s)" by (rule on_cpu_length [OF assms(2)])
  let ?h = "hold PtableLock c s"
  let ?t = "upd_proc i (\<lambda>p. p\<lparr>state := RUNNABLE\<rparr>) ?h"
  have p: "cpu_proc (cpus ?h ! c) = Some i" using assms(3) len by simp
  have "(sched ?t :: 'a ptab_scheme fault + 'b) = Inl (Swtch ?t)"
    using sec p assms(2,4) by (intro sched_in_section [of c s ?t i]) simp_all
  with assms(6) sec(1) myproc_section [OF sec(2) assms(2) p] have "t = ?t"
    by (simp add: yield_def deref_def)
  then show ?thesis
    using sec(2) p assms(4,5) by (auto simp: gave_up_def entry_simps intro!: mild_upd)
qed

lemma timer_gives_up:
  fixes s :: "'a ptab_scheme"
  assumes "at_rest s" and "on_cpu c s" and "cpu_proc (cpus s ! c) = Some i" and "i < length (ptable s)"
    and "in_use (ptable s ! i)" and "timer_yield s = Inl (Swtch t)"
  shows "gave_up c i s t"
proof -
  note rest = myproc_rest [OF assms(1-3)]
  let ?j = "nat (priority (ptable s ! i))"
  let ?f = "\<lambda>p. p\<lparr>ran_ticks := (ran_ticks p)[?j := int_inc (ran_ticks p ! ?j)]\<rparr>"
  let ?u = "upd_proc i ?f (cli_mark c s)"
  have "(yield ?u :: 'a ptab_scheme fault + 'a ptab_scheme) = Inl (Swtch t)"
    using assms(6) rest(1) by (auto simp: timer_yield_def Let_def split: if_splits)
  moreover have "at_rest ?u" "on_cpu c ?u"
    using rest(2,3) on_cpu_cong [of ?u "cli_mark c s" c] by (simp_all add: at_rest_def)
  moreover have "in_use (ptable ?u ! i)" using assms(4,5) by (simp add: in_use_def)
  ultimately have "gave_up c i ?u t"
    using rest(4) assms(4) by (intro yield_gives_up) simp_all
  moreover have "in_section c ?u t = in_section c s t"
    using rest(6) by (simp add: in_section_def)
  moreover have "mild_but (Some i) (ptable s) (ptable ?u)"
    by (auto intro!: mild_upd simp: entry_simps sched_ok_def all_less_4 nth_list_update)
  ultimately show ?thesis
    by (auto simp: gave_up_def intro: mild_trans)
qed

lemma sleep_section:
  assumes "at_rest s" and "on_cpu c s" and "l \<noteq> PtableLock"
  shows "acquire l s = Inr (hold l c s)" "acquire PtableLock (hold l c s) = Inr (hold PtableLock c (hold l c s))"
    "release l (hold PtableLock c (hold l c s)) = Inr (unhold l c (hold PtableLock c (hold l c s)))"
    "in_section c s (unhold l c (hold PtableLock c (hold l c s)))"
proof -
  have len: "c < length (cpus s)" by (rule on_cpu_length [OF assms(2)])
  note rest = at_rest_cpu [OF assms(1,2)]
  show "acquire l s = Inr (hold l c s)" by (rule acquire_free [OF rest(1,2)])
  show "acquire PtableLock (hold l c s) = Inr (hold PtableLock c (hold l c s))"
    using rest(1) rest(2) [of PtableLock] assms(3) by (intro acquire_free) simp_all
  show "release l (hold PtableLock c (hold l c s)) = Inr (unhold l c (hold PtableLock c (hold l c s)))"
    using assms(2,3) len rest(3) by (intro release_eq) simp_all
  show "in_section c s (unhold l c (hold PtableLock c (hold l c s)))"
    using len rest(2) [of l] rest(3) assms(3) by (auto simp: in_section_def fun_eq_iff)
qed

lemma sleep_gives_up:
  fixes s :: "'a ptab_scheme"
  assumes "at_rest s" and "on_cpu c s" and "cpu_proc (cpus s ! c) = Some i" and "i < length (ptable s)"
    and "in_use (ptable s ! i)" and "l \<noteq> PtableLock" and "acquire l s = Inr u"
    and "(sleep ch l u :: 'a ptab_scheme fault + 'b) = Inl (Swtch t)"
  shows "gave_up c i s t \<and> locks t l = unlocked \<and> ptable t = (ptable s)[i := (ptable s ! i)\<lparr>wchan := Some ch, state := SLEEPING\<rparr>]"
proof -
  note sec = sleep_section [OF assms(1,2,6)]
  have len: "c < length (cpus s)" by (rule on_cpu_length [OF assms(2)])
  let ?u = "unhold l c (hold PtableLock c (hold l c s))"
  let ?t = "upd_proc i (\<lambda>p. p\<lparr>state := SLEEPING\<rparr>) (upd_proc i (\<lambda>p. p\<lparr>wchan := Some ch\<rparr>) ?u)"
  have u: "u = hold l c s" using sec(1) assms(7) by simp
  have p: "cpu_proc (cpus (hold l c s) ! c) = Some i" "cpu_proc (cpus ?u ! c) = Some i" using assms(3) len by simp_all
  have "myproc (hold l c s) = Inr (Some i, hold l c s)"
    using myproc_eq [of c "hold l c s"] at_rest_cpu [OF assms(1,2)] len assms(3) by simp
  moreover have "(sched ?t :: 'a ptab_scheme fault + 'b) = Inl (Swtch ?t)"
    using sec(4) p(2) assms(2,4) by (intro sched_in_section [of c s ?t i]) simp_all
  ultimately have "t = ?t" using assms(6,8) sec(2,3) u by (simp add: sleep_code)
  moreover have "entry_step (ptable s ! i) ((ptable s ! i)\<lparr>wchan := Some ch, state := SLEEPING\<rparr>)"
    using assms(5) by (simp add: entry_simps)
  moreover have "locks ?t l = unlocked" by simp
  ultimately show ?thesis
    using sec(4) p(2) assms(4) by (auto simp: gave_up_def intro!: mild_upd)
qed

lemma sleep_ptable_gives_up:
  fixes t :: "'a ptab_scheme"
  assumes "in_section c s t" and "on_cpu c s" and "cpu_proc (cpus t ! c) = Some i" and "i < length (ptable t)"
    and "(sleep ch PtableLock t :: 'a ptab_scheme fault + 'b) = Inl (Swtch u)"
  shows "u = upd_proc i (\<lambda>p. p\<lparr>state := SLEEPING\<rparr>) (upd_proc i (\<lambda>p. p\<lparr>wchan := Some ch\<rparr>) t)"
proof -
  let ?u = "upd_proc i (\<lambda>p. p\<lparr>state := SLEEPING\<rparr>) (upd_proc i (\<lambda>p. p\<lparr>wchan := Some ch\<rparr>) t)"
  have "(sched ?u :: 'a ptab_scheme fault + 'b) = Inl (Swtch ?u)"
    using assms(1-4) by (intro sched_in_section [of c s ?u i]) simp_all
  with assms(5) myproc_section [OF assms(1-3)] show ?thesis by (simp add: sleep_code)
qed

lemma reparent_sel [simp]:
  "cpus (reparent i js s) = cpus s" "lapic_id (reparent i js s) = lapic_id s" "FL_IF (reparent i js s) = FL_IF s"
  "locks (reparent i js s) = locks s" "nextpid (reparent i js s) = nextpid s" "initproc (reparent i js s) = initproc s"
  "length (ptable (reparent i js s)) = length (ptable s)"
  by (induction js arbitrary: s) (simp_all add: Let_def)

lemma mild_reparent: "mild_but k ps (ptable s) \<Longrightarrow> mild_but k ps (ptable (reparent i js s))"
proof (induction js arbitrary: s)
  case Nil
  then show ?case by simp
next
  case (Cons j js)
  let ?u = "upd_proc j (\<lambda>p. p\<lparr>parent := initproc s\<rparr>) s"
  have u: "mild_but k ps (ptable ?u)"
    by (rule mild_trans [OF Cons.prems]) (auto intro!: mild_upd simp: entry_simps)
  then have "mild_but k ps (ptable (wakeup1 (map_option ChanProc (initproc s)) ?u))"
    by (rule mild_trans) (rule mild_wakeup1)
  with u Cons show ?case by (simp add: Let_def)
qed

lemma exit_gives_up:
  fixes s :: "'a ptab_scheme"
  assumes "at_rest s" and "on_cpu c s" and "cpu_proc (cpus s ! c) = Some i" and "i < length (ptable s)"
    and "state (ptable s ! i) = RUNNING" and "(exit_tail i s :: 'a ptab_scheme fault + 'b) = Inl (Swtch t)"
  shows "gave_up c i s t \<and> state (ptable t ! i) = ZOMBIE"
proof -
  note sec = in_section_enter [OF assms(1,2)]
  let ?h = "hold PtableLock c s"
  let ?w = "wakeup1 (map_option ChanProc (parent (ptable s ! i))) ?h"
  let ?r = "reparent i [0..<length (ptable s)] ?w"
  let ?t = "upd_proc i (\<lambda>p. p\<lparr>state := ZOMBIE\<rparr>) ?r"
  have len: "c < length (cpus s)" by (rule on_cpu_length [OF assms(2)])
  have p: "cpu_proc (cpus ?t ! c) = Some i" using assms(3) len by simp
  have inr: "in_section c s ?t" using sec(2) in_section_cong [of ?t ?h c s] by simp
  have "(sched ?t :: 'a ptab_scheme fault + unit) = Inl (Swtch ?t)"
    using inr p assms(2,4) by (intro sched_in_section [of c s ?t i]) simp_all
  then have t: "t = ?t" using assms(6) sec(1) by (simp add: exit_tail_def Let_def)
  have r: "mild_but None (ptable s) (ptable ?r)"
    using mild_wakeup1 [of None ?h] by (intro mild_reparent) simp
  then have "state (ptable ?r ! i) = RUNNING"
    using mild_butD(3) [OF r assms(4)] assms(5) by simp
  then have "mild_but (Some i) (ptable ?r) (ptable ?t)"
    by (simp add: mild_upd entry_simps)
  then have "mild_but (Some i) (ptable s) (ptable ?t)"
    by (rule mild_trans [OF mild_weaken [OF r]])
  then show ?thesis
    using inr p t assms(4) by (simp add: gave_up_def)
qed

subsection \<open>The invariant inside a critical section\<close>

text \<open>CPU \<open>c\<close> is in the critical section that it entered in state \<open>s\<close>; \<open>p\<close> is the process it runs there.\<close>

definition sec_inv :: "int \<Rightarrow> nat \<Rightarrow> nat option \<Rightarrow> 'b mach_scheme \<Rightarrow> 'a ptab_scheme \<Rightarrow> bool" where
  "sec_inv b c p s u \<longleftrightarrow> in_section c s u \<and> tab_inv b (nextpid u) (ptable u) \<and> run_inv ((running s)[c := p]) (ptable u)"

lemma running_same: "cpu_proc (cpus s ! c) = p \<Longrightarrow> (running s)[c := p] = running s"
  by (cases "c < length (cpus s)") (auto simp: running_def list_update_same_conv list_update_beyond)

lemma sec_enter:
  assumes "sys_inv b s" and "on_cpu c s" and "cpu_proc (cpus s ! c) = p"
  shows "acquire PtableLock s = Inr (hold PtableLock c s)" "sec_inv b c p s (hold PtableLock c s)"
    "cpu_proc (cpus (hold PtableLock c s) ! c) = p"
  using in_section_enter [OF sys_inv_rest [OF assms(1)] assms(2)] assms(1,3) running_same [OF assms(3)] on_cpu_length [OF assms(2)]
  by (simp_all add: sec_inv_def sys_inv_def)

lemma sec_mild:
  assumes sec: "sec_inv b c p s u" and v: "in_section c s v" "nextpid v = nextpid u"
    and mild: "mild_but None (ptable u) (ptable v)"
  shows "sec_inv b c p s v"
proof -
  have "run_inv ((running s)[c := p]) (ptable v)"
    by (rule run_inv_same [of _ "ptable u"])
       (use sec mild_butD(1,3) [OF mild] in \<open>simp_all add: sec_inv_def\<close>)
  then show ?thesis using sec v tab_inv_mild [OF _ mild] by (simp add: sec_inv_def)
qed

lemma sec_upd:
  assumes "sec_inv b c p s u" and "entry_step (ptable u ! j) (f (ptable u ! j))"
    and "state (f (ptable u ! j)) = RUNNING \<longleftrightarrow> state (ptable u ! j) = RUNNING"
  shows "sec_inv b c p s (upd_proc j f u)"
  by (rule sec_mild [OF assms(1)]) (use assms in \<open>simp_all add: sec_inv_def mild_upd\<close>)

lemma sec_upd_cpu:
  assumes "sec_inv b c p s u" and "c < length (cpus s)" and "\<And>x. apicid (f x) = apicid x" and "\<And>x. ncli (f x) = ncli x"
  shows "sec_inv b c p s (upd_cpu c f u)"
  using assms by (simp add: sec_inv_def in_section_upd_cpu)

lemma sec_runs:
  assumes "sec_inv b c (Some i) s u" and "c < length (cpus s)"
  shows "i < length (ptable u)" "state (ptable u ! i) = RUNNING" "in_use (ptable u ! i)"
  using run_invD(1) [of "(running s)[c := Some i]" "ptable u" c i] assms
  by (simp_all add: sec_inv_def running_def in_use_def)

lemma sec_stop:
  assumes sec: "sec_inv b c (Some i) s u" and c: "c < length (cpus s)" and v: "in_section c s v" "nextpid v = nextpid u"
    and mild: "mild_but (Some i) (ptable u) (ptable v)" and st: "state (ptable v ! i) \<noteq> RUNNING"
  shows "sec_inv b c None s v"
proof -
  have "run_inv ((running s)[c := Some i, c := None]) (ptable v)"
    by (rule run_inv_stop [of _ "ptable u" c i])
       (use sec c mild_butD(1,3) [OF mild] st in \<open>simp_all add: sec_inv_def running_def\<close>)
  then show ?thesis using sec v tab_inv_mild [OF _ mild] by (simp add: sec_inv_def)
qed

lemma sec_start:
  assumes sec: "sec_inv b c None s u" and c: "c < length (cpus s)" and i: "i < length (ptable u)" "state (ptable u ! i) = RUNNABLE"
    and v: "in_section c s v" "nextpid v = nextpid u" "ptable v = (ptable u)[i := (ptable u ! i)\<lparr>state := RUNNING\<rparr>]"
  shows "sec_inv b c (Some i) s v"
proof -
  have "run_inv ((running s)[c := None, c := Some i]) (ptable v)"
    unfolding v(3)
    by (rule run_inv_start) (use sec c i in \<open>simp_all add: sec_inv_def running_def\<close>)
  moreover have "mild_but (Some i) (ptable u) (ptable v)"
    unfolding v(3) using i(2) by (intro mild_upd) (simp_all add: entry_simps)
  ultimately show ?thesis using sec v tab_inv_mild [of b "nextpid u" "ptable u"] by (simp add: sec_inv_def)
qed

lemma sec_leave:
  assumes sec: "sec_inv b c p s u" and s: "at_rest s" "on_cpu c s" and p: "cpu_proc (cpus u ! c) = p"
    and rel: "release PtableLock u = Inr t"
  shows "sys_inv b t" "on_cpu c t" "cpu_proc (cpus t ! c) = p"
proof -
  have u: "in_section c s u" using sec by (simp add: sec_inv_def)
  have len: "c < length (cpus u)" using on_cpu_length [OF s(2)] in_section_length [OF u] by simp
  from in_section_leave [OF s u] rel have t: "at_rest t" "running t = (running s)[c := p]" "ptable t = ptable u"
    "nextpid t = nextpid u" "cpus t = (cpus u)[c := cpu_pop (cpus u ! c)]" "lapic_id t = lapic_id u" using p by auto
  show "sys_inv b t" using sec t by (simp add: sys_inv_def sec_inv_def)
  have "map apicid (cpus t) = map apicid (cpus u)" using len by (simp add: t(5) map_update list_update_same_conv)
  then show "on_cpu c t" using in_section_on_cpu [OF u s(2)] t(6) on_cpu_cong [of t u c] by blast
  show "cpu_proc (cpus t ! c) = p" using p len by (simp add: t(5))
qed

lemma in_section_nested:
  assumes "at_rest s" and "on_cpu c s" and "in_section c s t"
  shows "nested c t"
proof -
  have "ncli (cpus t ! c) = 1" by (rule in_section_cpu(1) [OF assms(3) on_cpu_length [OF assms(2)]])
  moreover have "\<not> FL_IF t (lapic_id t)" "locks t KmemLock = unlocked"
    using assms(1,3) by (auto simp: in_section_def at_rest_def)
  ultimately show ?thesis
    using in_section_on_cpu [OF assms(3,2)] by (simp add: nested_def cli_ok_def)
qed

lemma in_section_frame:
  assumes "at_rest s" and "on_cpu c s" and "in_section c s t" and "vframe t u"
  shows "in_section c s u" "cpus u = cpus t" "ptable u = ptable t" "nextpid u = nextpid t"
proof -
  have "mach_eq t u" using vframe_nested [OF assms(4) in_section_nested [OF assms(1-3)]] .
  then show "in_section c s u" "cpus u = cpus t"
    using assms(3) in_section_cong [of u t c s] by (simp_all add: mach_eq_def)
  show "ptable u = ptable t" "nextpid u = nextpid t" by (rule vframe_ptab [OF assms(4)])+
qed

lemma sleep_not_Inr: "sleep ch l s \<noteq> Inr r"
  by (auto simp: sleep_code sched_def Let_def kbind_eq_Inr_iff split: option.splits)

lemma claim_slot_sel [simp]:
  "cpus (claim_slot i s) = cpus s" "locks (claim_slot i s) = locks s" "lapic_id (claim_slot i s) = lapic_id s"
  "FL_IF (claim_slot i s) = FL_IF s" "nextpid (claim_slot i s) = int_inc (nextpid s)" "initproc (claim_slot i s) = initproc s"
  "use_lock (claim_slot i s) = use_lock s" "freelist (claim_slot i s) = freelist s" "mem (claim_slot i s) = mem s"
  "end_addr (claim_slot i s) = end_addr s" "trapret_addr (claim_slot i s) = trapret_addr s"
  "forkret_addr (claim_slot i s) = forkret_addr s" "in_section c r (claim_slot i s) = in_section c r s"
proof -
  show "in_section c r (claim_slot i s) = in_section c r s"
    by (rule in_section_cong) (simp_all add: claim_slot_def Let_def)
qed (simp_all add: claim_slot_def Let_def)

lemma claim_slot_ptable:
  "i < length (ptable s) \<Longrightarrow> ptable (claim_slot i s) = (ptable s)[i := (ptable s ! i)\<lparr>state := EMBRYO, pid := nextpid s,
     priority := 3, ran_ticks := [0, 0, 0, 0], wait_ticks := [0, 0, 0, 0]\<rparr>]"
  by (simp add: claim_slot_def Let_def)

lemma init_kstack_sel [simp]:
  "cpus (init_kstack i k s) = cpus s" "locks (init_kstack i k s) = locks s" "lapic_id (init_kstack i k s) = lapic_id s"
  "FL_IF (init_kstack i k s) = FL_IF s" "nextpid (init_kstack i k s) = nextpid s" "initproc (init_kstack i k s) = initproc s"
  "use_lock (init_kstack i k s) = use_lock s" "freelist (init_kstack i k s) = freelist s"
  "end_addr (init_kstack i k s) = end_addr s"
  by (simp_all add: init_kstack_def Let_def)

lemma init_kstack_ptable:
  "i < length (ptable s) \<Longrightarrow>
     ptable (init_kstack i k s) = (ptable s)[i := (ptable s ! i)\<lparr>tf := k + 4020, ctx := k + 3996\<rparr>]"
  by (simp add: init_kstack_def Let_def algebra_simps)

text \<open>\<^verbatim>\<open>switchuvm\<close> inside the section.\<close>

lemma switchuvm_section:
  assumes "in_section c s t" and "on_cpu c s" and "switchuvm p t = Inr u"
  shows "in_section c s u \<and> cpu_proc (cpus u ! c) = cpu_proc (cpus t ! c)"
proof -
  have len: "c < length (cpus s)" by (rule on_cpu_length [OF assms(2)])
  have on: "on_cpu c t" by (rule in_section_on_cpu [OF assms(1,2)])
  have n: "ncli (cpus t ! c) = 1" "\<not> FL_IF t (lapic_id t)"
    using in_section_cpu(1) [OF assms(1) len] assms(1) by (auto simp: in_section_def)
  from assms(3) obtain i where i: "p = Some i" by (auto simp: switchuvm_def split: option.splits)
  let ?x = "push_state c t"
  have push: "pushcli t = Inr ?x" by (rule pushcli_eq [OF on])
  have my: "mycpu ?x = Inr c" using on by (intro mycpu_on_cpu) (simp, simp add: push_state_def)
  let ?y = "(upd_cpu c (\<lambda>x. x\<lparr>ts_esp0 := kstack (ptable ?x ! i) + KSTACKSIZE\<rparr>) ?x)"
  let ?z = "?y\<lparr>cr3 := (cr3 ?y)(lapic_id ?y := V2P (pgdir (ptable ?y ! i)))\<rparr>"
  have "popcli ?z = Inr u"
    using assms(3) i push my by (simp add: switchuvm_def Let_def split: if_splits)
  then obtain d where d: "on_cpu d ?z" "u = pop_state d ?z" by (auto dest: popcli_InrD)
  have "on_cpu c ?z = on_cpu c ?x"
    using in_section_length [OF assms(1)] len by (intro on_cpu_cong) (simp_all add: upd_cpu_def)
  with d(1) on have "d = c" by (auto dest: on_cpu_unique)
  with d(2) have u: "u = pop_state c ?z" by simp
  from assms(1) obtain x where x: "cpus t = (cpus s)[c := x]" "apicid x = apicid (cpus s ! c)" "ncli x = 1"
    by (auto simp: in_section_def)
  show ?thesis
    using assms(1) x len n unfolding u by (auto simp: in_section_def pop_state_def upd_cpu_def push_state_def)
qed

lemma sti_rest [simp]: "at_rest (sti s) = at_rest s" "running (sti s) = running s" "cpus (sti s) = cpus s"
  by (simp_all add: sti_def at_rest_def running_def)


text \<open>A pass of \<^verbatim>\<open>wait\<close>: it returns outside the section, or its process sleeps.\<close>

lemma wait_pass_returns:
  fixes h :: "'a ptab_scheme"
  assumes sec: "sec_inv b c (Some i) s h" and s: "at_rest s" "on_cpu c s" and p: "cpu_proc (cpus h ! c) = Some i"
    and pass: "wait_pass i h = Inr (r, t)"
  shows "sys_inv b t"
proof (cases "find_idx (\<lambda>p. parent p = Some i \<and> state p = ZOMBIE) (ptable h)")
  case None
  have "(sleep (ChanProc i) PtableLock h :: 'a ptab_scheme fault + int \<times> 'a ptab_scheme) \<noteq> Inr (r, t)"
    by (rule sleep_not_Inr)
  with pass None have "release PtableLock h = Inr t"
    by (auto simp: wait_pass_def kbind_eq_Inr_iff split: if_splits)
  then show ?thesis by (rule sec_leave(1) [OF sec s p])
next
  case (Some j)
  then have j: "j < length (ptable h)" "state (ptable h ! j) = ZOMBIE" using find_idx_SomeD [OF Some] by auto
  from pass Some obtain u v where k: "kfree (kstack (ptable h ! j)) h = Inr u"
    and f: "freevm (pgdir (ptable (upd_proc j (\<lambda>p. p\<lparr>kstack := 0\<rparr>) u) ! j)) (upd_proc j (\<lambda>p. p\<lparr>kstack := 0\<rparr>) u) = Inr v"
    and r: "release PtableLock (upd_proc j (\<lambda>p. p\<lparr>pid := 0, parent := None, pname := (pname p)[0 := 0],
              killed := False, state := UNUSED\<rparr>) v) = Inr t"
    by (auto simp: wait_pass_def Let_def kbind_eq_Inr_iff)
  have h: "in_section c s h" using sec by (simp add: sec_inv_def)
  note u = in_section_frame [OF s h kfree_frame [OF k]]
  let ?u = "upd_proc j (\<lambda>p. p\<lparr>kstack := 0\<rparr>) u"
  have "in_section c s ?u" using u(1) by simp
  note v = in_section_frame [OF s this freevm_frame [OF f]]
  let ?v = "upd_proc j (\<lambda>p. p\<lparr>pid := 0, parent := None, pname := (pname p)[0 := 0], killed := False, state := UNUSED\<rparr>) v"
  have "mild_but None (ptable h) (ptable ?v)"
    using u(3) v(3) j by (auto simp: entry_simps intro!: mild_upd)
  then have "sec_inv b c (Some i) s ?v"
    using u v by (intro sec_mild [OF sec]) simp_all
  then show ?thesis by (rule sec_leave(1) [OF _ s _ r]) (use u v p in simp)
qed

lemma wait_pass_sleeps:
  fixes h :: "'a ptab_scheme"
  assumes sec: "sec_inv b c (Some i) s h" and s: "at_rest s" "on_cpu c s" and p: "cpu_proc (cpus h ! c) = Some i"
    and pass: "wait_pass i h = Inl (Swtch u)"
  shows "sec_inv b c None s u \<and> i < length (ptable u)"
proof -
  have len: "c < length (cpus s)" by (rule on_cpu_length [OF s(2)])
  note i = sec_runs [OF sec len]
  have h: "in_section c s h" using sec by (simp add: sec_inv_def)
  have "noswtch (case find_idx (\<lambda>p. parent p = Some i \<and> state p = ZOMBIE) (ptable h) of
      None \<Rightarrow> Inr (0, h) | Some j \<Rightarrow> wait_pass i h)"
    by (auto simp: wait_pass_def split: option.splits intro!: noswtch_intros)
  with pass have "(sleep (ChanProc i) PtableLock h :: 'a ptab_scheme fault + int \<times> 'a ptab_scheme) = Inl (Swtch u)"
    by (auto simp: wait_pass_def noswtch_def split: option.splits if_splits
        dest!: kbind_eq_Swtch [OF _ noswtch_release])
  from sleep_ptable_gives_up [OF h s(2) p i(1) this]
  have u: "u = upd_proc i (\<lambda>p. p\<lparr>state := SLEEPING\<rparr>) (upd_proc i (\<lambda>p. p\<lparr>wchan := Some (ChanProc i)\<rparr>) h)" .
  have "sec_inv b c None s u"
    by (rule sec_stop [OF sec len]) (use h i in \<open>auto simp: u entry_simps intro!: mild_upd\<close>)
  then show ?thesis using i(1) by (simp add: u)
qed

text \<open>The process of CPU \<open>c\<close> has given it up.\<close>

lemma gave_up_sec:
  assumes inv: "sys_inv b s" and c: "on_cpu c s" "cpu_proc (cpus s ! c) = Some i" and up: "gave_up c i s u"
  shows "sec_inv b c None s u \<and> i < length (ptable u)"
proof -
  have len: "c < length (cpus s)" by (rule on_cpu_length [OF c(1)])
  note sec = sec_enter [OF inv c]
  have "sec_inv b c None s u"
    by (rule sec_stop [OF sec(2) len]) (use up in \<open>simp_all add: gave_up_def\<close>)
  moreover have "length (ptable u) = length (ptable s)" using up mild_butD(1) by (auto simp: gave_up_def)
  ultimately show ?thesis using sec_runs(1) [OF sec(2) len] by simp
qed

lemma sys_inv_runs:
  assumes "sys_inv b s" and "on_cpu c s" and "cpu_proc (cpus s ! c) = Some i"
  shows "i < length (ptable s)" "state (ptable s ! i) = RUNNING" "in_use (ptable s ! i)"
  using sec_runs [OF sec_enter(2) [OF assms] on_cpu_length [OF assms(2)]] by simp_all

lemma cli_mark_sys:
  assumes "sys_inv b s" and "on_cpu c s"
  shows "sys_inv b (cli_mark c s)"
  using assms myproc_rest(2,5) [OF sys_inv_rest [OF assms(1)] assms(2) refl] by (simp add: sys_inv_def)

lemma gives_up_sec:
  assumes up: "gives_up i s t" and inv: "sys_inv b s" and c: "on_cpu c s" "cpu_proc (cpus s ! c) = Some i"
  shows "sec_inv b c None s t \<and> i < length (ptable t)"
proof -
  have rest: "at_rest s" by (rule sys_inv_rest [OF inv])
  note i = sys_inv_runs [OF inv c]
  from up show ?thesis
  proof cases
    case up_yield
    then show ?thesis using yield_gives_up [OF rest c i(1,3)] gave_up_sec [OF inv c] by blast
  next
    case up_timer
    then show ?thesis using timer_gives_up [OF rest c i(1,3)] gave_up_sec [OF inv c] by blast
  next
    case (up_sleep l u ch)
    then show ?thesis using sleep_gives_up [OF rest c i(1,3)] gave_up_sec [OF inv c] by blast
  next
    case up_exit
    then show ?thesis using exit_gives_up [OF rest c i(1,2)] gave_up_sec [OF inv c] by blast
  next
    case up_wait
    note m = myproc_rest [OF rest c]
    note sec = sec_enter [OF cli_mark_sys [OF inv c(1)] m(3,4)]
    from up_wait have "wait_pass i (hold PtableLock c (cli_mark c s)) = Inl (Swtch t)"
      using m(1) sec(1) by (simp add: wait_def deref_def)
    from wait_pass_sleeps [OF sec(2) m(2,3) sec(3) this] show ?thesis
      by (simp add: sec_inv_def m(5,6))
  qed
qed

subsection \<open>Switching between processes and the scheduler\<close>

lemma sched_tail_sec:
  assumes "sec_inv b c None s u" and "c < length (cpus s)" and "i < length (ptable u)"
  shows "sec_inv b c None s (sched_tail mlfq c i u)" "cpu_proc (cpus (sched_tail mlfq c i u) ! c) = None"
    "length (ptable (sched_tail mlfq c i u)) = length (ptable u)"
proof -
  let ?v = "sched_tail mlfq c i u"
  have u: "in_section c s u" using assms(1) by (simp add: sec_inv_def)
  have v: "in_section c s ?v"
    unfolding sched_tail_def Let_def using u assms(2) by (intro in_section_upd_cpu) simp_all
  have mild: "mild_but None (ptable u) (ptable ?v)" "nextpid ?v = nextpid u"
    by (simp_all add: sched_tail_def Let_def mild_account)
  show "sec_inv b c None s ?v" by (rule sec_mild [OF assms(1) v mild(2,1)])
  show "length (ptable ?v) = length (ptable u)" by (rule mild_butD(1) [OF mild(1)])
  show "cpu_proc (cpus ?v ! c) = None"
    using assms(2) in_section_length [OF u] by (simp add: sched_tail_def Let_def upd_cpu_def)
qed

lemma dispatch_sec:
  assumes sec: "sec_inv b c None s u" and c: "on_cpu c s" and i: "i < length (ptable u)" "state (ptable u ! i) = RUNNABLE"
    and disp: "dispatch c i u = Inr v"
  shows "sec_inv b c (Some i) s v" "cpu_proc (cpus v ! c) = Some i"
proof -
  have len: "c < length (cpus s)" by (rule on_cpu_length [OF c])
  have u: "in_section c s u" using sec by (simp add: sec_inv_def)
  let ?w = "upd_cpu c (\<lambda>x. x\<lparr>cpu_proc := Some i\<rparr>) u"
  have w: "in_section c s ?w" using u len by (intro in_section_upd_cpu) simp_all
  from disp obtain x where x: "switchuvm (Some i) ?w = Inr x" and v: "v = upd_proc i (\<lambda>p. p\<lparr>state := RUNNING\<rparr>) x"
    by (auto simp: dispatch_def Let_def kbind_eq_Inr_iff)
  note sw = switchuvm_section [OF w c x]
  have vs: "in_section c s v" using sw unfolding v by simp
  show "cpu_proc (cpus v ! c) = Some i"
    using sw len in_section_length [OF u] unfolding v by (simp add: upd_cpu_def)
  show "sec_inv b c (Some i) s v"
    by (rule sec_start [OF sec len i vs]) (use dispatch_ptab [OF disp] in simp_all)
qed

lemma sched_resume_sec:
  assumes sec: "sec_inv b c p s v" and c: "on_cpu c s" and res: "sched_resume e v = Inr y"
  shows "sec_inv b c p s y" "cpu_proc (cpus y ! c) = cpu_proc (cpus v ! c)"
proof -
  have len: "c < length (cpus s)" by (rule on_cpu_length [OF c])
  have v: "in_section c s v" using sec by (simp add: sec_inv_def)
  have "mycpu v = Inr c"
    using in_section_on_cpu [OF v c] v by (intro mycpu_on_cpu) (auto simp: in_section_def)
  then have y: "y = upd_cpu c (\<lambda>x. x\<lparr>intena := e\<rparr>) v" using res by (simp add: sched_resume_def)
  show "sec_inv b c p s y" unfolding y by (rule sec_upd_cpu [OF sec len]) simp_all
  show "cpu_proc (cpus y ! c) = cpu_proc (cpus v ! c)"
    using len in_section_length [OF v] by (simp add: y upd_cpu_def)
qed

lemma lock_pair:
  assumes "at_rest s" and "on_cpu c s" and "acquire l s = Inr u" and "release l u = Inr t"
  shows "t = cli_mark c s"
proof -
  note r = at_rest_cpu [OF assms(1,2)]
  have u: "u = hold l c s" using acquire_free [OF r(1,2), of l] assms(3) by simp
  have "release l u = Inr (unhold l c u)"
    unfolding u using r(1) by (intro release_after [of c s]) simp_all
  then show ?thesis using assms(4) unhold_hold [OF r(1,2)] by (simp add: u)
qed

lemma rr_selectD:
  assumes "rr_select k ps = Some i"
  shows "k \<le> i" "i < length ps" "state (ps ! i) = RUNNABLE"
  using assms by (auto simp: rr_select_def find_Some_iff)

lemma select_runnable:
  assumes "(if b then mlfq_select ps else rr_select 0 ps) = Some i"
  shows "i < length ps" "state (ps ! i) = RUNNABLE"
  using assms rr_selectD [of 0 ps i] by (auto simp: mlfq_select_Some_iff split: if_splits)

text \<open>A process that runs on, until its CPU holds no lock, and a scheduler that is switched back to.\<close>

lemma switch_keeps:
  "runs_on c mlfq i v t \<Longrightarrow> at_rest s \<Longrightarrow> on_cpu c s \<Longrightarrow> sec_inv b c (Some i) s v \<Longrightarrow> cpu_proc (cpus v ! c) = Some i \<Longrightarrow> sys_inv b t"
  "back_in c mlfq i v t \<Longrightarrow> at_rest s \<Longrightarrow> on_cpu c s \<Longrightarrow> sec_inv b c None s v \<Longrightarrow> i < length (ptable v) \<Longrightarrow> sys_inv b t"
proof (induction rule: runs_on_back_in.inducts)
  case (on_forkret v t c mlfq i)
  then show ?case using sec_leave(1) by blast
next
  case (on_yield e v t c mlfq i)
  then obtain y where y: "sched_resume e v = Inr y" "release PtableLock y = Inr t"
    by (auto simp: yield_resume_def kbind_eq_Inr_iff)
  note r = sched_resume_sec [OF on_yield.prems(3,2) y(1)]
  show ?case by (rule sec_leave(1) [OF r(1) on_yield.prems(1,2) _ y(2)]) (simp add: r(2) on_yield.prems(4))
next
  case (on_sleep l i e v u t c mlfq)
  then obtain y x where y: "sched_resume e v = Inr y" "release PtableLock (upd_proc i (\<lambda>p. p\<lparr>wchan := None\<rparr>) y) = Inr x" "acquire l x = Inr u"
    by (auto simp: sleep_resume_def kbind_eq_Inr_iff)
  note r = sched_resume_sec [OF on_sleep.prems(3,2) y(1)]
  have "sec_inv b c (Some i) s (upd_proc i (\<lambda>p. p\<lparr>wchan := None\<rparr>) y)"
    by (rule sec_upd [OF r(1)]) (simp_all add: entry_simps)
  note x = sec_leave [OF this on_sleep.prems(1,2) _ y(2)]
  have p: "cpu_proc (cpus (upd_proc i (\<lambda>p. p\<lparr>wchan := None\<rparr>) y) ! c) = Some i" using r(2) on_sleep.prems(4) by simp
  have "t = cli_mark c x" using lock_pair [OF sys_inv_rest [OF x(1) [OF p]] x(2) [OF p] y(3) on_sleep.hyps(3)] .
  then show ?case using cli_mark_sys [OF x(1,2) [OF p]] by simp
next
  case (on_wait i e v r t c mlfq)
  then obtain y where y: "sched_resume e v = Inr y" "wait_pass i (upd_proc i (\<lambda>p. p\<lparr>wchan := None\<rparr>) y) = Inr (r, t)"
    by (auto simp: wait_resume_def sleep_resume_def kbind_eq_Inr_iff)
  note r = sched_resume_sec [OF on_wait.prems(3,2) y(1)]
  have "sec_inv b c (Some i) s (upd_proc i (\<lambda>p. p\<lparr>wchan := None\<rparr>) y)"
    by (rule sec_upd [OF r(1)]) (simp_all add: entry_simps)
  then show ?case by (rule wait_pass_returns [OF _ on_wait.prems(1,2) _ y(2)]) (use r(2) on_wait.prems(4) in simp)
next
  case (on_wait_again i e v u c mlfq t)
  then obtain y where y: "sched_resume e v = Inr y" "wait_pass i (upd_proc i (\<lambda>p. p\<lparr>wchan := None\<rparr>) y) = Inl (Swtch u)"
    by (cases "sched_resume e v") (auto simp: wait_resume_def sleep_resume_def sched_resume_def kbind_assoc dest!: kbind_eq_Swtch [OF _ noswtch_mycpu])
  note r = sched_resume_sec [OF on_wait_again.prems(3,2) y(1)]
  have "sec_inv b c (Some i) s (upd_proc i (\<lambda>p. p\<lparr>wchan := None\<rparr>) y)"
    by (rule sec_upd [OF r(1)]) (simp_all add: entry_simps)
  from wait_pass_sleeps [OF this on_wait_again.prems(1,2) _ y(2)] r(2) on_wait_again.prems(4)
  show ?case using on_wait_again.IH on_wait_again.prems(1,2) by simp
next
  case (back_end mlfq i c u t)
  note v = sched_tail_sec [OF back_end.prems(3) on_cpu_length [OF back_end.prems(2)] back_end.prems(4), of mlfq]
  show ?case by (rule sec_leave(1) [OF v(1) back_end.prems(1,2) v(2) back_end.hyps(2)])
next
  case (back_next mlfq i c u j v t)
  note w = sched_tail_sec [OF back_next.prems(3) on_cpu_length [OF back_next.prems(2)] back_next.prems(4), of mlfq]
  note d = dispatch_sec [OF w(1) back_next.prems(2) rr_selectD(2,3) [OF back_next.hyps(2)] back_next.hyps(3)]
  show ?case using back_next.IH back_next.prems(1,2) d by blast
qed

subsection \<open>Every step keeps the invariant\<close>

lemma wakeup_step_keeps:
  assumes inv: "sys_inv b s" and c: "on_cpu c s" and "wakeup ch s = Inr t"
  shows "sys_inv b t"
proof -
  note sec = sec_enter [OF inv c refl]
  have "sec_inv b c (cpu_proc (cpus s ! c)) s (wakeup1 (Some ch) (hold PtableLock c s))"
    by (rule sec_mild [OF sec(2)]) (use sec(2) mild_wakeup1 [of None "hold PtableLock c s"] in \<open>simp_all add: sec_inv_def\<close>)
  then show ?thesis
    by (rule sec_leave(1) [OF _ sys_inv_rest [OF inv] c]) (use assms(3) sec in \<open>simp_all add: wakeup_def\<close>)
qed

lemma publish_keeps:
  assumes inv: "sys_inv b s" and c: "on_cpu c s" and i: "state (ptable s ! i) = EMBRYO" and "publish i s = Inr t"
  shows "sys_inv b t"
proof -
  note sec = sec_enter [OF inv c refl]
  have "sec_inv b c (cpu_proc (cpus s ! c)) s (upd_proc i (\<lambda>p. p\<lparr>state := RUNNABLE\<rparr>) (hold PtableLock c s))"
    by (rule sec_upd [OF sec(2)]) (use i in \<open>simp_all add: entry_simps\<close>)
  then show ?thesis
    by (rule sec_leave(1) [OF _ sys_inv_rest [OF inv] c]) (use assms(4) sec in \<open>simp_all add: publish_def\<close>)
qed

lemma kill_step_keeps:
  assumes inv: "sys_inv b s" and c: "on_cpu c s" and kill: "kill k s = Inr (r, t)"
  shows "sys_inv b t"
proof (cases "find_idx (\<lambda>p. pid p = k) (ptable s)")
  case None
  note sec = sec_enter [OF inv c refl]
  show ?thesis
    by (rule sec_leave(1) [OF sec(2) sys_inv_rest [OF inv] c])
       (use kill sec None in \<open>auto simp: kill_def kbind_eq_Inr_iff\<close>)
next
  case (Some i)
  note sec = sec_enter [OF inv c refl]
  let ?k = "upd_proc i (\<lambda>p. p\<lparr>killed := True\<rparr>) (hold PtableLock c s)"
  let ?t = "if state (ptable ?k ! i) = SLEEPING then upd_proc i (\<lambda>p. p\<lparr>state := RUNNABLE\<rparr>) ?k else ?k"
  have "sec_inv b c (cpu_proc (cpus s ! c)) s ?k" by (rule sec_upd [OF sec(2)]) (simp_all add: entry_simps)
  then have "sec_inv b c (cpu_proc (cpus s ! c)) s ?t" by (auto intro!: sec_upd simp: entry_simps)
  then show ?thesis
  proof (rule sec_leave(1) [OF _ sys_inv_rest [OF inv] c])
    show "release PtableLock ?t = Inr t"
      using kill sec(1) Some by (auto simp: kill_def Let_def kbind_eq_Inr_iff)
  qed (use sec in simp)
qed

lemma wait_step_keeps:
  assumes inv: "sys_inv b s" and c: "on_cpu c s" "cpu_proc (cpus s ! c) = Some i" and "wait s = Inr (r, t)"
  shows "sys_inv b t"
proof -
  note m = myproc_rest [OF sys_inv_rest [OF inv] c]
  note sec = sec_enter [OF cli_mark_sys [OF inv c(1)] m(3,4)]
  have "wait_pass i (hold PtableLock c (cli_mark c s)) = Inr (r, t)"
    using assms(4) m(1) sec(1) by (simp add: wait_def deref_def)
  then show ?thesis by (rule wait_pass_returns [OF sec(2) m(2,3) sec(3)])
qed

text \<open>A slot comes into use with a fresh pid.\<close>

lemma tab_inv_alloc:
  assumes inv: "tab_inv b n ps" and i: "i < length ps" "\<not> in_use (ps ! i)" and p: "pid p = n" "sched_ok p"
    and small: "0 < b' \<Longrightarrow> 0 < b \<and> b < 2147483647 \<and> b + 1 \<le> b'"
  shows "tab_inv b' (int_inc n) (ps[i := p])"
  unfolding tab_inv_def length_list_update
proof (intro conjI allI impI)
  note D = tab_invD [OF inv]
  have n: "int_inc n = n + 1 \<and> 0 < n \<and> n < b' \<and> 0 < b" if "0 < b'"
    using D(2) small [OF that] by (simp add: int_inc_small)
  show "0 < int_inc n" "int_inc n \<le> b'" if "0 < b'" using n [OF that] by simp_all
  fix j assume j: "j < length ps"
  let ?q = "\<lambda>j. ps[i := p] ! j"
  show "sched_ok (?q j)" using D(1) [OF j] p j by (cases "j = i") simp_all
  assume b': "0 < b'"
  then have b: "0 < b" using n by blast
  show "0 < pid (?q j)" if "in_use (?q j)"
    using n [OF b'] D(3) [OF b j] p j that by (cases "j = i") simp_all
  show "pid (?q j) < int_inc n" if "in_use (?q j)"
    using D(3) [OF b j] p j that n [OF b'] by (cases "j = i") simp_all
  fix k assume k: "k < length ps" and jk: "j \<noteq> k" and use: "in_use (?q j)" "in_use (?q k)"
  have lt: "pid (ps ! m) \<noteq> n" if "m < length ps" "in_use (ps ! m)" for m
    using D(3) [OF b that] by simp
  show "pid (?q j) \<noteq> pid (?q k)"
    using D(4) [OF b j k jk] lt [OF j] lt [OF k] use jk j k p by (cases "j = i"; cases "k = i") auto
qed

text \<open>Page-table code between critical sections.\<close>

lemma rest_frame:
  assumes rest: "at_rest s" "on_cpu c s" and "vframe s t"
  shows "at_rest t" "on_cpu c t" "running t = running s" "ptable t = ptable s" "nextpid t = nextpid s" "initproc t = initproc s"
    "length (cpus t) = length (cpus s)"
proof -
  note m = myproc_rest [OF rest refl]
  have "kmem_ready c s" using at_rest_cpu [OF rest] by (simp add: kmem_ready_def)
  then have "mach_eq s t \<or> mach_eq (kmark c s) t" using assms(3) unfolding vframe_def by blast
  then obtain u where u: "u = s \<or> u = cli_mark c s" "mach_eq u t" unfolding kmark_def by (metis (full_types))
  have e: "cpus t = cpus u" "locks t = locks u" "lapic_id t = lapic_id u" using u(2) unfolding mach_eq_def by blast+
  have U: "at_rest u" "running u = running s" "on_cpu c u" "length (cpus u) = length (cpus s)"
    using u(1) m(2,3,5) rest by (elim disjE; simp)+
  show "at_rest t" "running t = running s" "length (cpus t) = length (cpus s)"
    using U at_rest_cong [OF e(1,2)] running_cong [OF e(1)] e(1) by simp_all
  show "on_cpu c t" using U(3) e(1,3) on_cpu_cong [of t u c] by simp
  show "ptable t = ptable s" "nextpid t = nextpid s" "initproc t = initproc s" by (rule vframe_ptab [OF assms(3)])+
qed

lemma sys_frame:
  assumes "sys_inv b s" and "on_cpu c s" and "vframe s t"
  shows "sys_inv b t" "on_cpu c t" "ptable t = ptable s" "cpu_proc (cpus t ! c) = cpu_proc (cpus s ! c)"
proof -
  note r = rest_frame [OF sys_inv_rest [OF assms(1)] assms(2,3)]
  show "sys_inv b t" using assms(1) r by (simp add: sys_inv_def)
  have "map cpu_proc (cpus t) ! c = map cpu_proc (cpus s) ! c" using r(3) by (simp only: running_def)
  then show "cpu_proc (cpus t ! c) = cpu_proc (cpus s ! c)" using r(7) on_cpu_length [OF assms(2)] by simp
  show "on_cpu c t" "ptable t = ptable s" by (fact r)+
qed

lemma on_cpu_upd [simp]: "on_cpu c (upd_proc i f s) = on_cpu c s"
  by (rule on_cpu_cong) simp_all

lemma allocproc_slot:
  assumes "sys_inv b s" and c: "on_cpu c s" and alloc: "allocproc s = Inr (r, t)"
    and i: "find_idx (\<lambda>p. state p = UNUSED) (ptable s) = Some i"
  obtains u k v where "release PtableLock (claim_slot i (hold PtableLock c s)) = Inr u" "kalloc u = Inr (k, v)"
    "t = upd_proc i (\<lambda>p. p\<lparr>state := UNUSED\<rparr>) (upd_proc i (\<lambda>p. p\<lparr>kstack := k\<rparr>) v) \<or>
     t = init_kstack i k (upd_proc i (\<lambda>p. p\<lparr>kstack := k\<rparr>) v)"
proof -
  have "acquire PtableLock s = Inr (hold PtableLock c s)" by (rule sec_enter(1) [OF assms(1) c refl])
  with alloc i have "kbind (release PtableLock (claim_slot i (hold PtableLock c s))) (\<lambda>s.
       kbind (kalloc s) (\<lambda>(k, s).
       let s = upd_proc i (\<lambda>p. p\<lparr>kstack := k\<rparr>) s in
       if k = 0 then Inr (None, upd_proc i (\<lambda>p. p\<lparr>state := UNUSED\<rparr>) s)
       else Inr (Some i, init_kstack i k s))) = Inr (r, t)"
    unfolding allocproc_def by simp
  then show thesis using that unfolding kbind_eq_Inr_iff by (auto simp: Let_def kbind_eq_Inr_iff split: if_splits)
qed

lemma init_kstack_sys:
  assumes "sys_inv b s" and "i < length (ptable s)"
  shows "sys_inv b (init_kstack i k s)"
proof -
  have "sys_inv b (upd_proc i (\<lambda>p. p\<lparr>tf := k + 4020, ctx := k + 3996\<rparr>) s)"
    by (rule sys_inv_upd [OF assms(1)]) (simp_all add: entry_simps)
  then show ?thesis
    using assms(2) sys_inv_cong [of "init_kstack i k s" "upd_proc i (\<lambda>p. p\<lparr>tf := k + 4020, ctx := k + 3996\<rparr>) s" b]
    by (simp add: init_kstack_ptable)
qed

lemma alloc_step_keeps:
  assumes inv: "sys_inv b s" and c: "on_cpu c s" and alloc: "allocproc s = Inr (r, t)"
    and small: "0 < b' \<Longrightarrow> 0 < b \<and> b < 2147483647 \<and> b + 1 \<le> b'"
  shows "sys_inv b' t"
proof (cases "find_idx (\<lambda>p. state p = UNUSED) (ptable s)")
  case None
  note sec = sec_enter [OF inv c refl]
  have rel: "release PtableLock (hold PtableLock c s) = Inr t"
    using alloc sec(1) None by (auto simp: allocproc_def kbind_eq_Inr_iff)
  show ?thesis
    using sec_leave(1) [OF sec(2) sys_inv_rest [OF inv] c sec(3) rel] small by (auto intro: sys_inv_mono)
next
  case (Some i)
  note sec = sec_enter [OF inv c refl]
  from find_idx_SomeD [OF Some] have i: "i < length (ptable s)" "\<not> in_use (ptable s ! i)" by (auto simp: in_use_def)
  let ?h = "hold PtableLock c s"
  let ?p = "(ptable s ! i)\<lparr>state := EMBRYO, pid := nextpid s, priority := 3, ran_ticks := [0, 0, 0, 0], wait_ticks := [0, 0, 0, 0]\<rparr>"
  obtain u k v where u: "release PtableLock (claim_slot i ?h) = Inr u" and k: "kalloc u = Inr (k, v)"
    and t: "t = upd_proc i (\<lambda>p. p\<lparr>state := UNUSED\<rparr>) (upd_proc i (\<lambda>p. p\<lparr>kstack := k\<rparr>) v) \<or>
      t = init_kstack i k (upd_proc i (\<lambda>p. p\<lparr>kstack := k\<rparr>) v)"
    by (rule allocproc_slot [OF inv c alloc Some])
  have tab: "ptable (claim_slot i ?h) = (ptable s)[i := ?p]" using i(1) by (simp add: claim_slot_ptable)
  have "sched_ok ?p" by (simp add: sched_ok_def sched_simps)
  then have "tab_inv b' (int_inc (nextpid s)) ((ptable s)[i := ?p])"
    using inv i small by (intro tab_inv_alloc [of b]) (simp_all add: sys_inv_def)
  moreover have "run_inv (running s) ((ptable s)[i := ?p])"
    by (rule run_inv_same [of _ "ptable s"]) (use inv i in \<open>auto simp: sys_inv_def in_use_def nth_list_update\<close>)
  ultimately have "sec_inv b' c (cpu_proc (cpus s ! c)) s (claim_slot i ?h)"
    using sec(2) tab by (simp add: sec_inv_def running_same)
  note U = sec_leave [OF this sys_inv_rest [OF inv] c _ u] and V = sys_frame [OF _ _ kalloc_frame [OF k]]
  have v: "sys_inv b' v" "ptable v = (ptable s)[i := ?p]"
    using V(1,3) U(1,2) sec(3) tab release_ptab [OF u] by simp_all
  let ?v = "upd_proc i (\<lambda>p. p\<lparr>kstack := k\<rparr>) v"
  have V': "sys_inv b' ?v" by (rule sys_inv_upd [OF v(1)]) (simp_all add: entry_simps)
  have "sys_inv b' (upd_proc i (\<lambda>p. p\<lparr>state := UNUSED\<rparr>) ?v)"
    by (rule sys_inv_upd [OF V']) (use i v(2) in \<open>simp_all add: entry_simps sched_ok_def sched_simps\<close>)
  moreover have "sys_inv b' (init_kstack i k ?v)" by (rule init_kstack_sys [OF V']) (use i v(2) in simp)
  ultimately show ?thesis using t by blast
qed

text \<open>The address spaces of new processes.\<close>

lemma userinit_keeps:
  assumes inv: "sys_inv b s" and c: "on_cpu c s" and ui: "userinit_image init initsz i s = Inr t"
  shows "sys_inv b t"
proof -
  let ?s = "s\<lparr>initproc := Some i\<rparr>"
  from ui obtain pd u v where u: "setupkvm ?s = Inr (pd, u)" and v: "inituvm pd init initsz (upd_proc i (\<lambda>p. p\<lparr>pgdir := pd\<rparr>) u) = Inr v"
    and t: "t = upd_proc i (\<lambda>p. p\<lparr>sz := PGSIZE\<rparr>) v"
    by (auto simp: userinit_image_def Let_def kbind_eq_Inr_iff split: if_splits)
  have "sys_inv b ?s" "on_cpu c ?s" using inv c sys_inv_cong [of ?s s b] on_cpu_cong [of ?s s c] by simp_all
  note U = sys_frame [OF this setupkvm_frame [OF u]]
  have "sys_inv b (upd_proc i (\<lambda>p. p\<lparr>pgdir := pd\<rparr>) u)" by (rule sys_inv_upd [OF U(1)]) (simp_all add: entry_simps)
  note V = sys_frame [OF this _ inituvm_frame [OF v]]
  show ?thesis
    unfolding t by (rule sys_inv_upd [OF V(1)]) (use U(2) in \<open>simp_all add: entry_simps\<close>)
qed

lemma fork_keeps:
  assumes inv: "sys_inv b s" and c: "on_cpu c s" and j: "j < length (ptable s)" "state (ptable s ! j) = EMBRYO"
    and fork: "fork_image i j s = Inr (ok, t)"
  shows "sys_inv b t"
proof -
  from fork obtain pd u where u: "copyuvm (pgdir (ptable s ! i)) (sz (ptable s ! i)) s = Inr (pd, u)"
    by (auto simp: fork_image_def kbind_eq_Inr_iff)
  note U = sys_frame [OF inv c copyuvm_frame [OF u]]
  let ?u = "upd_proc j (\<lambda>p. p\<lparr>pgdir := pd\<rparr>) u"
  have U': "sys_inv b ?u" by (rule sys_inv_upd [OF U(1)]) (simp_all add: entry_simps)
  show ?thesis
  proof (cases "pd = 0")
    case True
    with fork u obtain v where v: "kfree (kstack (ptable ?u ! j)) ?u = Inr v"
      and t: "t = upd_proc j (\<lambda>p. p\<lparr>kstack := 0, state := UNUSED\<rparr>) v"
      by (auto simp: fork_image_def Let_def kbind_eq_Inr_iff)
    note V = sys_frame [OF U' _ kfree_frame [OF v]]
    show ?thesis
      unfolding t by (rule sys_inv_upd [OF V(1)]) (use U(2,3) V(3) j in \<open>simp_all add: entry_simps\<close>)
  next
    case False
    with fork u have "t = upd_proc j (\<lambda>p. p\<lparr>sz := sz (ptable ?u ! i), parent := Some i\<rparr>) ?u"
      by (auto simp: fork_image_def Let_def)
    then show ?thesis using sys_inv_upd [OF U', of j "\<lambda>p. p\<lparr>sz := sz (ptable ?u ! i), parent := Some i\<rparr>"] by (simp add: entry_simps)
  qed
qed

text \<open>\<^verbatim>\<open>growproc\<close>, and \<^verbatim>\<open>switchuvm\<close> outside the critical sections.\<close>

lemma switchuvm_keeps:
  assumes inv: "sys_inv b s" and c: "on_cpu c s" and sw: "switchuvm p s = Inr t"
  shows "sys_inv b t"
proof -
  have len: "c < length (cpus s)" by (rule on_cpu_length [OF c])
  from sw obtain i where i: "p = Some i" by (auto simp: switchuvm_def split: option.splits)
  let ?x = "push_state c s"
  have push: "pushcli s = Inr ?x" by (rule pushcli_eq [OF c])
  have my: "mycpu ?x = Inr c" using c by (intro mycpu_on_cpu) (simp, simp add: push_state_def)
  let ?y = "(upd_cpu c (\<lambda>x. x\<lparr>ts_esp0 := kstack (ptable ?x ! i) + KSTACKSIZE\<rparr>) ?x)"
  let ?z = "?y\<lparr>cr3 := (cr3 ?y)(lapic_id ?y := V2P (pgdir (ptable ?y ! i)))\<rparr>"
  have "popcli ?z = Inr t"
    using sw i push my by (simp add: switchuvm_def Let_def split: if_splits)
  then obtain d where d: "on_cpu d ?z" "t = pop_state d ?z" by (auto dest: popcli_InrD)
  have "on_cpu c ?z = on_cpu c ?x"
    using len by (intro on_cpu_cong) (simp_all add: upd_cpu_def)
  with d(1) c have "d = c" by (auto dest: on_cpu_unique)
  with d(2) have t: "t = pop_state c ?z" by simp
  have rest: "at_rest s" by (rule sys_inv_rest [OF inv])
  have n: "ncli (cpus s ! c) = 0" by (rule at_rest_cpu(3) [OF rest c])
  have "at_rest t" "running t = running s"
    using rest len n unfolding t at_rest_def running_def
    by (auto simp: pop_state_def upd_cpu_def push_state_def map_update map_nth_update
        dest!: set_update_subset_insert [THEN subsetD])
  then show ?thesis
    by (rule sys_inv_mild [OF inv]) (use switchuvm_ptab [OF sw] in simp_all)
qed

lemma grow_keeps:
  assumes inv: "sys_inv b s" and c: "on_cpu c s" "cpu_proc (cpus s ! c) = Some i" and grow: "growproc n s = Inr (r, t)"
  shows "sys_inv b t"
proof -
  note m = myproc_rest [OF sys_inv_rest [OF inv] c]
  let ?s = "cli_mark c s" let ?z = "sz (ptable s ! i)" and ?pd = "pgdir (ptable s ! i)"
  from grow m(1) obtain z u where u: "(if n > 0 then allocuvm ?pd ?z (?z + of_int n) ?s
      else if n < 0 then deallocuvm ?pd ?z (?z + of_int n) ?s else Inr (?z, ?s)) = Inr (z, u)"
    and t: "t = u \<or> switchuvm (Some i) (upd_proc i (\<lambda>p. p\<lparr>sz := z\<rparr>) u) = Inr t"
    by (auto simp: growproc_def deref_def Let_def kbind_eq_Inr_iff simp del: of_int_eq_0_iff split: if_splits)
  have "vframe ?s u" using u allocuvm_frame deallocuvm_frame by (auto split: if_splits)
  note U = sys_frame [OF cli_mark_sys [OF inv c(1)] m(3) this]
  have "sys_inv b (upd_proc i (\<lambda>p. p\<lparr>sz := z\<rparr>) u)" by (rule sys_inv_upd [OF U(1)]) (simp_all add: entry_simps)
  from switchuvm_keeps [OF this, of c] t U(1,2) show ?thesis by auto
qed

lemma policy_keeps:
  assumes inv: "sys_inv b s" and c: "on_cpu c s" and "setSchedPolicy k s = Inr (r, t)"
  shows "sys_inv b t"
proof -
  have "mycpu (cli s) = Inr c" using c by (intro mycpu_on_cpu) (simp_all add: cli_def on_cpu_def)
  with assms(3) have "t = s \<or> t = sti (upd_cpu c (\<lambda>x. x\<lparr>sched_policy := k\<rparr>) (cli s))"
    by (auto simp: setSchedPolicy_def Let_def split: if_splits)
  moreover have "at_rest (sti (upd_cpu c (\<lambda>x. x\<lparr>sched_policy := k\<rparr>) (cli s)))"
    "running (sti (upd_cpu c (\<lambda>x. x\<lparr>sched_policy := k\<rparr>) (cli s))) = running s"
    using sys_inv_rest [OF inv] on_cpu_length [OF c] unfolding at_rest_def running_def
    by (auto simp: sti_def cli_def upd_cpu_def map_update map_nth_update dest!: set_update_subset_insert [THEN subsetD])
  ultimately show ?thesis using inv sys_inv_mild [OF inv, of t] by auto
qed

lemma sys_inv_sti [simp]: "sys_inv b (sti s) = sys_inv b s"
  by (simp add: sys_inv_def)

lemma proc_step_keeps:
  assumes "proc_step c (m, s) (m', t)" and "c < length (cpus s)" and inv: "sys_inv b s"
  shows "sys_inv b t"
proof -
  have on: "on_cpu c (at_cpu c s)" by (rule at_cpu_on [OF sys_inv_rest [OF inv] assms(2)])
  have inv': "sys_inv b (at_cpu c s)" using inv by simp
  have on': "on_cpu c (sti (at_cpu c s))" using on by simp
  have inv'': "sys_inv b (sti (at_cpu c s))" using inv by simp
  from assms(1) show ?thesis
  proof cases
    case (step_userinit i init initsz)
    then show ?thesis by (intro userinit_keeps [OF inv' on])
  next
    case (step_fork i j ok)
    then show ?thesis by (intro fork_keeps [OF inv' on, of j]) simp_all
  next
    case (step_publish i)
    then show ?thesis by (intro publish_keeps [OF inv' on]) simp_all
  next
    case (step_grow i n r)
    then show ?thesis by (intro grow_keeps [OF inv' on, of i]) simp_all
  next
    case (step_wakeup ch)
    then show ?thesis by (intro wakeup_step_keeps [OF inv' on])
  next
    case (step_kill k r)
    then show ?thesis by (intro kill_step_keeps [OF inv' on])
  next
    case (step_wait i r)
    then show ?thesis by (intro wait_step_keeps [OF inv' on, of i]) simp_all
  next
    case (step_policy k r)
    then show ?thesis by (intro policy_keeps [OF inv' on])
  next
    case (step_give_up i u)
    have p: "cpu_proc (cpus (at_cpu c s) ! c) = Some i" using step_give_up by simp
    note off = gives_up_sec [OF step_give_up(3) inv' on p]
    show ?thesis using switch_keeps(2) [OF step_give_up(4) sys_inv_rest [OF inv'] on] off by blast
  next
    case (step_start u i v)
    have none: "cpu_proc (cpus (sti (at_cpu c s)) ! c) = None" using step_start by simp
    note sec = sec_enter [OF inv'' on' none]
    have u: "u = hold PtableLock c (sti (at_cpu c s))" using sec(1) step_start by simp
    note d = dispatch_sec [OF sec(2) [folded u] on' select_runnable [OF step_start(4)] step_start(5)]
    show ?thesis by (rule switch_keeps(1) [OF step_start(6) sys_inv_rest [OF inv''] on' d])
  next
    case (step_idle u)
    have none: "cpu_proc (cpus (sti (at_cpu c s)) ! c) = None" using step_idle by simp
    note sec = sec_enter [OF inv'' on' none]
    show ?thesis
      by (rule sec_leave(1) [OF sec(2) sys_inv_rest [OF inv''] on' sec(3)]) (use sec(1) step_idle in simp)
  next
    case (step_memory x f k)
    then show ?thesis using inv sys_inv_cong [of t s b] by simp
  next
    case (step_embryo i nm d fs)
    then show ?thesis using sys_inv_upd [OF inv, of i "\<lambda>p. p\<lparr>ofile := fs, cwd := d, pname := nm\<rparr>"] by (simp add: entry_simps)
  next
    case (step_current i th us nm d fs a n)
    then show ?thesis
      using sys_inv_upd [OF inv, of i "\<lambda>p. p\<lparr>sz := n, pgdir := a, ofile := fs, cwd := d, pname := nm, uscheduler := us, is_threaded := th\<rparr>"]
      by (simp add: entry_simps)
  qed
qed

lemma proc_inv_boot:
  assumes "boot_ptab s"
  shows "proc_inv s"
proof -
  have "sched_ok zero_proc" by (simp add: sched_ok_def zero_proc_def sched_simps)
  moreover have "\<not> in_use zero_proc" "state zero_proc \<noteq> RUNNING" by (simp_all add: in_use_def zero_proc_def)
  moreover have "running s ! c = None" if "c < length (cpus s)" for c
    using assms that by (simp add: boot_ptab_def running_def)
  ultimately show ?thesis
    using assms by (auto simp: proc_inv_def at_rest_def table_inv_def tab_inv_def run_inv_def boot_ptab_def running_def)
qed

lemma sys_inv_reachable:
  assumes "proc_reachable n x"
  shows "sys_inv (if n < 2147483647 then 1 + int n else 0) (snd x)"
  using assms
proof (induction rule: proc_reachable.induct)
  case (proc_boot s m)
  then show ?case using proc_inv_boot [OF proc_boot] by (simp add: proc_inv_sys boot_ptab_def)
next
  case (proc_alloc n m s c r t)
  let ?b = "if n < 2147483647 then 1 + int n else 0"
  have inv: "sys_inv ?b (at_cpu c s)" using proc_alloc.IH by simp
  have on: "on_cpu c (at_cpu c s)" using at_cpu_on [OF sys_inv_rest proc_alloc.hyps(2)] proc_alloc.IH by auto
  show ?case by (simp only: snd_conv, rule alloc_step_keeps [OF inv on proc_alloc.hyps(3)]) (auto split: if_splits)
next
  case (proc_next n m s c m' t)
  then show ?case using proc_step_keeps [OF proc_next.hyps(3,2)] by simp
qed

text \<open>A machine at boot, with the memory and the single CPU of the examples.\<close>

definition demo_boot :: ptab where
  "demo_boot = (demo_ptab (replicate NPROC zero_proc))\<lparr>nextpid := 1\<rparr>"

lemma demo_boot_ok: "boot_ptab demo_boot"
  by (simp add: boot_ptab_def demo_boot_def demo_ptab_def demo_cpu_def)

end
