(* ===== verification/Procprops.thy ===== *)
theory Procprops
  imports Procsys
begin

section \<open>Sleeping, waking, killing, exiting\<close>

text \<open>
  Properties of single process operations of \<^verbatim>\<open>src/proc.c\<close> and of their combination, on the states of a
  system of CPUs between steps (\<open>proc_inv\<close>).
\<close>

subsection \<open>Sleep and wakeup\<close>

definition sleep_state :: "nat \<Rightarrow> nat \<Rightarrow> chan \<Rightarrow> lockid \<Rightarrow> 'a ptab_scheme \<Rightarrow> 'a ptab_scheme" where
  "sleep_state c i ch l s =
     upd_proc i (\<lambda>p. p\<lparr>state := SLEEPING\<rparr>) (upd_proc i (\<lambda>p. p\<lparr>wchan := Some ch\<rparr>)
       (unhold l c (hold PtableLock c (hold l c s))))"

lemma sleep_eq:
  fixes s :: "'a ptab_scheme"
  assumes "at_rest s" and "on_cpu c s" and "cpu_proc (cpus s ! c) = Some i" and "i < length (ptable s)" and "l \<noteq> PtableLock"
  shows "(sleep ch l (hold l c s) :: 'a ptab_scheme fault + 'b) = Inl (Swtch (sleep_state c i ch l s))"
proof -
  note sec = sleep_section [OF assms(1,2,5)]
  have len: "c < length (cpus s)" by (rule on_cpu_length [OF assms(2)])
  have p: "cpu_proc (cpus (unhold l c (hold PtableLock c (hold l c s))) ! c) = Some i" using assms(3) len by simp
  have "myproc (hold l c s) = Inr (Some i, hold l c s)"
    using myproc_eq [of c "hold l c s"] at_rest_cpu [OF assms(1,2)] len assms(3) by simp
  moreover have "(sched (sleep_state c i ch l s) :: 'a ptab_scheme fault + 'b) = Inl (Swtch (sleep_state c i ch l s))"
    using sec(4) p assms(2,4) by (intro sched_in_section [of c s _ i]) (simp_all add: sleep_state_def)
  ultimately show ?thesis using assms(5) sec(2,3) by (simp add: sleep_code sleep_state_def)
qed

subsection \<open>Sleep among the steps of other CPUs\<close>

text \<open>\<^verbatim>\<open>sched\<close> and the scheduler after it, up to the release of \<^verbatim>\<open>ptable.lock\<close>, for the process \<open>i\<close> on CPU \<open>c\<close>.\<close>

definition leave_acts :: "bool \<Rightarrow> nat \<Rightarrow> nat \<Rightarrow> ('a ptab_scheme \<Rightarrow> 'a ptab_scheme fault + 'a ptab_scheme) list" where
  "leave_acts mlfq c i =
     [\<lambda>s. kbind (sched_out s) (\<lambda>(_, s). Inr s), \<lambda>s. Inr (sched_tail mlfq c i s), release PtableLock]"

text \<open>What wakes the process: a call of \<^verbatim>\<open>wakeup\<close> by code that holds the lock \<open>l\<close> of the condition it has made true.\<close>

definition wake_under :: "lockid \<Rightarrow> chan \<Rightarrow> 'a ptab_scheme \<Rightarrow> 'a ptab_scheme fault + 'a ptab_scheme" where
  "wake_under l ch s = kbind (acquire l s) (\<lambda>s. kbind (wakeup ch s) (release l))"

text \<open>Everything else that may happen meanwhile: it takes no lock away from CPU \<open>c\<close> and leaves the state and the channel of
  process \<open>i\<close> alone.\<close>

definition others_may :: "nat \<Rightarrow> nat \<Rightarrow> 'a ptab_scheme \<Rightarrow> 'a ptab_scheme \<Rightarrow> bool" where
  "others_may c i s t \<longleftrightarrow> map apicid (cpus t) = map apicid (cpus s) \<and> length (ptable t) = length (ptable s) \<and>
     (\<forall>l. lk_cpu (locks s l) = Some c \<longrightarrow> locks t l = locks s l) \<and>
     state (ptable t ! i) = state (ptable s ! i) \<and> wchan (ptable t ! i) = wchan (ptable s ! i)"

text \<open>The actions of CPU \<open>c\<close> in their order, with \<open>n\<close> calls of \<open>wake_under\<close> by any CPUs and other steps at any points between
  them and after them.\<close>

inductive interleaved :: "nat \<Rightarrow> nat \<Rightarrow> chan \<Rightarrow> lockid \<Rightarrow> ('a ptab_scheme \<Rightarrow> 'a ptab_scheme fault + 'a ptab_scheme) list \<Rightarrow> nat \<Rightarrow>
    'a ptab_scheme \<Rightarrow> 'a ptab_scheme \<Rightarrow> bool" for c i ch l where
  il_done: "interleaved c i ch l [] 0 s s"
| il_act: "a (at_cpu c s) = Inr t \<Longrightarrow> interleaved c i ch l as n t u \<Longrightarrow> interleaved c i ch l (a # as) n s u"
| il_wake: "d < length (cpus s) \<Longrightarrow> wake_under l ch (at_cpu d s) = Inr t \<Longrightarrow> interleaved c i ch l as n t u \<Longrightarrow>
    interleaved c i ch l as (Suc n) s u"
| il_other: "others_may c i s t \<Longrightarrow> interleaved c i ch l as n t u \<Longrightarrow> interleaved c i ch l as n s u"

text \<open>CPU \<open>c\<close> holds the lock \<open>k\<close>; \<open>P\<close> is what is known of the process \<open>i\<close>.\<close>

definition holds :: "nat \<Rightarrow> nat \<Rightarrow> lockid \<Rightarrow> (procstate \<Rightarrow> chan option \<Rightarrow> bool) \<Rightarrow> 'a ptab_scheme \<Rightarrow> bool" where
  "holds c i k P s \<longleftrightarrow> distinct (map apicid (cpus s)) \<and> c < length (cpus s) \<and> i < length (ptable s) \<and>
     locks s k = \<lparr>locked = True, lk_cpu = Some c\<rparr> \<and> P (state (ptable s ! i)) (wchan (ptable s ! i))"

lemma holds_others:
  assumes "holds c i k P s" and "others_may c i s t"
  shows "holds c i k P t"
proof -
  have "length (cpus t) = length (cpus s)"
    using assms(2) map_eq_imp_length_eq unfolding others_may_def by blast
  then show ?thesis using assms by (simp add: holds_def others_may_def)
qed

lemma wake_blocked:
  assumes "holds c i k P s" and "k = l \<or> k = PtableLock" and "l \<noteq> PtableLock"
  shows "wake_under l ch (at_cpu d s) \<noteq> Inr t"
  using assms by (auto simp: wake_under_def wakeup_def holds_def kbind_eq_Inr_iff dest!: acquire_InrD)

lemma interleaved_act:
  assumes "interleaved c i ch l (a # as) n s u" and "holds c i k P s" and "k = l \<or> k = PtableLock" and "l \<noteq> PtableLock"
  shows "\<exists>s' t. holds c i k P s' \<and> a (at_cpu c s') = Inr t \<and> interleaved c i ch l as n t u"
  using assms
proof (induction "a # as" n s u rule: interleaved.induct)
  case (il_act s t n u)
  then show ?case by blast
next
  case (il_wake d s t n u)
  then show ?case using wake_blocked by blast
next
  case (il_other s t n u)
  then show ?case using holds_others by blast
qed

lemma holds_this:
  assumes "holds c i k P s" and "on_cpu d (at_cpu c s)"
  shows "d = c"
proof -
  have "on_cpu c (at_cpu c s)" using assms(1) by (intro on_cpu_this) (simp_all add: holds_def at_cpu_def)
  with assms(2) show ?thesis by (metis on_cpu_unique)
qed

lemma holds_acquire:
  assumes "holds c i k P s" and "acquire PtableLock (at_cpu c s) = Inr t"
  shows "holds c i PtableLock P t"
proof -
  from acquire_InrD [OF assms(2)] obtain d where d: "on_cpu d (at_cpu c s)" "t = hold PtableLock d (at_cpu c s)" by blast
  with holds_this [OF assms(1) d(1)] assms(1) show ?thesis by (simp add: holds_def map_update map_nth_update)
qed

lemma holds_release:
  assumes "holds c i PtableLock P s" and "l \<noteq> PtableLock" and "release l (at_cpu c s) = Inr t"
  shows "holds c i PtableLock P t"
proof -
  from release_InrD [OF assms(3)] obtain d where d: "t = unhold l d (at_cpu c s)" by blast
  with assms(1,2) show ?thesis by (simp add: holds_def map_update map_nth_update)
qed

lemma holds_mark:
  assumes "holds c i k P s" and "\<And>st w. P st w \<Longrightarrow> Q (f st) (g w)"
    and "\<And>p. state (h p) = f (state p)" and "\<And>p. wchan (h p) = g (wchan p)"
  shows "holds c i k Q (upd_proc i h (at_cpu c s))"
  using assms by (simp add: holds_def)

lemma push_pop_apicid:
  "map apicid (cpus (push_state c s)) = map apicid (cpus s)" "map apicid (cpus (pop_state c s)) = map apicid (cpus s)"
  "locks (push_state c s) = locks s" "locks (pop_state c s) = locks s"
  by (simp_all add: push_state_def pop_state_def map_update map_nth_update)

lemma myproc_mach:
  assumes "myproc s = Inr (p, t)"
  shows "map apicid (cpus t) = map apicid (cpus s)" "locks t = locks s"
  using assms by (auto simp: myproc_def Let_def kbind_eq_Inr_iff push_pop_apicid dest!: pushcli_InrD popcli_InrD)

lemma holds_sched:
  assumes "holds c i k P s" and "sched_out (at_cpu c s) = Inr (b, t)"
  shows "holds c i k P t"
proof -
  from assms(2) obtain p where p: "myproc (at_cpu c s) = Inr (p, t)"
    by (auto simp: sched_out_def deref_def kbind_eq_Inr_iff split: if_splits option.splits)
  note m = myproc_mach [OF p] myproc_ptab [OF p]
  have "length (cpus t) = length (cpus s)" using map_eq_imp_length_eq [OF m(1)] by simp
  then show ?thesis using assms(1) m by (simp add: holds_def)
qed

lemma sched_tail_nth:
  assumes "i < length (ptable s)"
  shows "state (ptable (sched_tail mlfq c i s) ! i) = state (ptable s ! i)"
    "wchan (ptable (sched_tail mlfq c i s) ! i) = wchan (ptable s ! i)"
    "length (ptable (sched_tail mlfq c i s)) = length (ptable s)"
  using assms mild_butD(1) [OF mild_account [OF mild_refl], of i s]
  by (simp_all add: sched_tail_def Let_def mlfq_account_nth)

lemma holds_tail:
  assumes "holds c i k P s"
  shows "holds c i k P (sched_tail mlfq c i (at_cpu c s))"
proof -
  have "cpus (sched_tail mlfq c i (at_cpu c s)) = (cpus s)[c := (cpus s ! c)\<lparr>cpu_proc := None\<rparr>]"
    "locks (sched_tail mlfq c i (at_cpu c s)) = locks s"
    by (simp_all add: sched_tail_def Let_def upd_cpu_def)
  with assms show ?thesis
    by (simp add: holds_def sched_tail_nth map_update map_nth_update)
qed

text \<open>Once the process sleeps and \<^verbatim>\<open>ptable.lock\<close> is free, the first \<^verbatim>\<open>wakeup\<close> of its channel ends its sleep.\<close>

lemma wake_under_state:
  assumes "wake_under l ch (at_cpu d s) = Inr t" and "i < length (ptable s)" and "wchan (ptable s ! i) = Some ch"
  shows "length (ptable t) = length (ptable s)" "wchan (ptable t ! i) = Some ch"
    "state (ptable t ! i) = (if state (ptable s ! i) = SLEEPING then RUNNABLE else state (ptable s ! i))"
proof -
  from assms(1) obtain u v w where u: "acquire l (at_cpu d s) = Inr u" "acquire PtableLock u = Inr v"
      "release PtableLock (wakeup1 (Some ch) v) = Inr w" "release l w = Inr t"
    by (auto simp: wake_under_def wakeup_def kbind_eq_Inr_iff)
  have "ptable t = ptable (wakeup1 (Some ch) v)" "ptable v = ptable s"
    using acquire_ptab [OF u(1)] acquire_ptab [OF u(2)] release_ptab [OF u(3)] release_ptab [OF u(4)] by simp_all
  then show "length (ptable t) = length (ptable s)" "wchan (ptable t ! i) = Some ch"
    "state (ptable t ! i) = (if state (ptable s ! i) = SLEEPING then RUNNABLE else state (ptable s ! i))"
    using assms(2,3) by (simp_all add: wakeup1_nth)
qed

lemma interleaved_asleep:
  assumes "interleaved c i ch l [] n s u" and "i < length (ptable s)" and "wchan (ptable s ! i) = Some ch"
    and "state (ptable s ! i) \<in> {SLEEPING, RUNNABLE}"
  shows "state (ptable u ! i) = (if n = 0 then state (ptable s ! i) else RUNNABLE)"
  using assms
proof (induction "[] :: ('a ptab_scheme \<Rightarrow> 'a ptab_scheme fault + 'a ptab_scheme) list" n s u rule: interleaved.induct)
  case (il_done s)
  then show ?case by simp
next
  case (il_wake d s t n u)
  note w = wake_under_state [OF il_wake.hyps(2) il_wake.prems(1,2)]
  have "state (ptable t ! i) = RUNNABLE" using w(3) il_wake.prems(3) by auto
  then show ?case using il_wake.hyps(4) w(1,2) il_wake.prems(1) by simp
next
  case (il_other s t n u)
  then show ?case by (simp add: others_may_def)
qed

lemma holds_leave:
  assumes "holds c i PtableLock P s" and "release PtableLock (at_cpu c s) = Inr t"
  shows "i < length (ptable t)" "P (state (ptable t ! i)) (wchan (ptable t ! i))"
  using assms release_ptab [OF assms(2)] by (simp_all add: holds_def)

lemma asleep_leaves:
  assumes "interleaved c i ch l (leave_acts mlfq c i) n s u"
    and "holds c i PtableLock (\<lambda>st w. st = SLEEPING \<and> w = Some ch) s" and "l \<noteq> PtableLock"
  shows "state (ptable u ! i) = (if n = 0 then SLEEPING else RUNNABLE)"
proof -
  let ?slp = "\<lambda>st w. st = SLEEPING \<and> w = Some ch"
  note step = interleaved_act [OF _ _ disjI2 [OF refl] assms(3)]
  from step [OF assms(1) [unfolded leave_acts_def] assms(2)] obtain s0 s1 where s1: "holds c i PtableLock ?slp s0"
    "kbind (sched_out (at_cpu c s0)) (\<lambda>(_, s). Inr s) = Inr s1"
    "interleaved c i ch l [\<lambda>s. Inr (sched_tail mlfq c i s), release PtableLock] n s1 u" by blast
  from s1(2) obtain b where "sched_out (at_cpu c s0) = Inr (b, s1)" by (auto simp: kbind_eq_Inr_iff)
  from step [OF s1(3) holds_sched [OF s1(1) this]] obtain s2 where s2: "holds c i PtableLock ?slp s2"
    "interleaved c i ch l [release PtableLock] n (sched_tail mlfq c i (at_cpu c s2)) u" by blast
  from step [OF s2(2) holds_tail [OF s2(1)]] obtain s3 s4 where s4: "holds c i PtableLock ?slp s3"
    "release PtableLock (at_cpu c s3) = Inr s4" "interleaved c i ch l [] n s4 u" by blast
  note l = holds_leave [OF s4(1,2)]
  show ?thesis using interleaved_asleep [OF s4(3) l(1)] l(2) by simp
qed

subsection \<open>Properties\<close>

text \<open>C26. No lost wakeup. A process that holds the lock \<open>l\<close> calls \<^verbatim>\<open>sleep\<close>; between any two of its actions, and after them,
  other CPUs may make the condition true and call \<^verbatim>\<open>wakeup\<close> under \<open>l\<close>, any number of times, and do anything else that leaves
  this process alone. Then a \<^verbatim>\<open>wakeup\<close> that came through since the process called \<^verbatim>\<open>sleep\<close> has ended its sleep: it is asleep
  exactly if there was none.\<close>

theorem no_lost_wakeup:
  assumes "distinct (map apicid (cpus s))" and "c < length (cpus s)" and "i < length (ptable s)" and "l \<noteq> PtableLock"
    and "locks s l = \<lparr>locked = True, lk_cpu = Some c\<rparr>"
    and "interleaved c i ch l (sleep_acts i ch l @ leave_acts mlfq c i) n s u"
  shows "state (ptable u ! i) = (if n = 0 then SLEEPING else RUNNABLE)"
proof -
  let ?any = "\<lambda>(st :: procstate) (w :: chan option). True" and ?ch = "\<lambda>(st :: procstate) w. w = Some ch"
  let ?slp = "\<lambda>st w. st = SLEEPING \<and> w = Some ch"
  have h: "holds c i l ?any s" using assms(1-3,5) by (simp add: holds_def)
  have "interleaved c i ch l (acquire PtableLock # release l # (\<lambda>s. Inr (upd_proc i (\<lambda>p. p\<lparr>wchan := Some ch\<rparr>) s)) #
      (\<lambda>s. Inr (upd_proc i (\<lambda>p. p\<lparr>state := SLEEPING\<rparr>) s)) # leave_acts mlfq c i) n s u"
    using assms(4,6) by (simp add: sleep_acts_def)
  from interleaved_act [OF this h _ assms(4)] obtain s0 s1 where s1: "holds c i l ?any s0" "acquire PtableLock (at_cpu c s0) = Inr s1"
    "interleaved c i ch l (release l # (\<lambda>s. Inr (upd_proc i (\<lambda>p. p\<lparr>wchan := Some ch\<rparr>) s)) #
      (\<lambda>s. Inr (upd_proc i (\<lambda>p. p\<lparr>state := SLEEPING\<rparr>) s)) # leave_acts mlfq c i) n s1 u" by blast
  note step = interleaved_act [OF _ _ disjI2 [OF refl] assms(4)]
  from step [OF s1(3) holds_acquire [OF s1(1,2)]] obtain s2 s3 where s3: "holds c i PtableLock ?any s2" "release l (at_cpu c s2) = Inr s3"
    "interleaved c i ch l ((\<lambda>s. Inr (upd_proc i (\<lambda>p. p\<lparr>wchan := Some ch\<rparr>) s)) #
      (\<lambda>s. Inr (upd_proc i (\<lambda>p. p\<lparr>state := SLEEPING\<rparr>) s)) # leave_acts mlfq c i) n s3 u" by blast
  from step [OF s3(3) holds_release [OF s3(1) assms(4) s3(2)]] obtain s4 where s4: "holds c i PtableLock ?any s4"
    "interleaved c i ch l ((\<lambda>s. Inr (upd_proc i (\<lambda>p. p\<lparr>state := SLEEPING\<rparr>) s)) # leave_acts mlfq c i) n
      (upd_proc i (\<lambda>p. p\<lparr>wchan := Some ch\<rparr>) (at_cpu c s4)) u" by blast
  have "holds c i PtableLock ?ch (upd_proc i (\<lambda>p. p\<lparr>wchan := Some ch\<rparr>) (at_cpu c s4))"
    by (rule holds_mark [OF s4(1), where f = "\<lambda>x. x" and g = "\<lambda>_. Some ch"]) simp_all
  from step [OF s4(2) this] obtain s5 where s5: "holds c i PtableLock ?ch s5"
    "interleaved c i ch l (leave_acts mlfq c i) n (upd_proc i (\<lambda>p. p\<lparr>state := SLEEPING\<rparr>) (at_cpu c s5)) u" by blast
  have "holds c i PtableLock ?slp (upd_proc i (\<lambda>p. p\<lparr>state := SLEEPING\<rparr>) (at_cpu c s5))"
    by (rule holds_mark [OF s5(1), where f = "\<lambda>_. SLEEPING" and g = "\<lambda>x. x"]) simp_all
  from asleep_leaves [OF s5(2) this assms(4)] show ?thesis .
qed

text \<open>CPU 0 runs process 0, which holds \<^verbatim>\<open>tickslock\<close>; CPU 1 is idle.\<close>

definition demo_sleeper :: ptab where
  "demo_sleeper = hold TicksLock 0 ((demo_ptab [demo_proc 1 RUNNING 3])\<lparr>cpus := [(demo_cpu 0)\<lparr>cpu_proc := Some 0\<rparr>, demo_cpu 1]\<rparr>)"

lemmas demo_run_simps = demo_sleeper_def demo_ptab_def demo_cpu_def demo_proc_def at_cpu_def acquire_def release_def
  pushcli_def popcli_def holding_def mycpu_def readeflags_IF_def cli_def sti_def upd_cpu_def Let_def unlocked_def hold_def push_state_def
  unhold_def pop_state_def cpu_push_def upd_proc_def sched_out_def myproc_def deref_def sched_tail_def switchkvm_def

lemma demo_sleeper_run:
  "\<exists>u. interleaved 0 0 ChanTicks TicksLock (sleep_acts 0 ChanTicks TicksLock @ leave_acts False 0 0) 1 demo_sleeper u"
  unfolding sleep_acts_def leave_acts_def One_nat_def
  by (simp, rule exI, (rule il_act, simp add: demo_run_simps)+, rule il_wake [where d = 1], simp,
      simp add: demo_run_simps wake_under_def wakeup_def wakeup1_def, rule il_done)

theorem no_lost_wakeup_witness:
  "\<exists>u. interleaved 0 0 ChanTicks TicksLock (sleep_acts 0 ChanTicks TicksLock @ leave_acts False 0 0) 1 demo_sleeper u \<and>
     state (ptable u ! 0) = RUNNABLE"
proof -
  from demo_sleeper_run obtain u where u: "interleaved 0 0 ChanTicks TicksLock (sleep_acts 0 ChanTicks TicksLock @ leave_acts False 0 0) 1 demo_sleeper u" ..
  have "state (ptable u ! 0) = RUNNABLE"
    using no_lost_wakeup [OF _ _ _ _ _ u] by (simp add: demo_sleeper_def demo_ptab_def demo_cpu_def)
  with u show ?thesis by blast
qed

definition demo_running :: ptab where
  "demo_running = (demo_ptab [demo_proc 1 RUNNING 3, demo_proc 2 SLEEPING 3])\<lparr>cpus := [(demo_cpu 0)\<lparr>cpu_proc := Some 0\<rparr>]\<rparr>"

lemma demo_running_sel [simp]:
  "cpus demo_running = [(demo_cpu 0)\<lparr>cpu_proc := Some 0\<rparr>]" "length (ptable demo_running) = 2"
  "ptable demo_running = [demo_proc 1 RUNNING 3, demo_proc 2 SLEEPING 3]"
  by (simp_all add: demo_running_def demo_ptab_def)

lemma demo_running_ok: "proc_inv demo_running"
proof -
  have "sched_ok (demo_proc 1 RUNNING 3)" "sched_ok (demo_proc 2 SLEEPING 3)"
    by (simp_all add: sched_ok_def demo_proc_def sched_simps)
  moreover have "pid (demo_proc k st p) = k" "state (demo_proc k st p) = st" for k st p by (simp_all add: demo_proc_def)
  moreover have "nextpid demo_running = 9" "locks demo_running = (\<lambda>_. unlocked)"
    by (simp_all add: demo_running_def demo_ptab_def)
  ultimately show ?thesis
    by (simp add: proc_inv_def at_rest_def table_inv_def tab_inv_def run_inv_def running_def demo_cpu_def in_use_def less_2_cases_iff
        All_less_Suc numeral_2_eq_2)
qed


lemma kill_keeps_inv:
  assumes "proc_inv s" and "on_cpu c s" and "kill k s = Inr (r, t)"
  shows "proc_inv t"
  using kill_step_keeps [OF _ assms(2,3)] assms(1) sys_inv_proc by (auto simp: proc_inv_sys [of s])

lemma kill_rest:
  assumes "proc_inv s" and "c < length (cpus s)"
  shows "\<exists>t. kill k (at_cpu c s) = Inr (case find_idx (\<lambda>p. pid p = k) (ptable s) of Some _ \<Rightarrow> 0 | None \<Rightarrow> -1, t) \<and> proc_inv t \<and>
    ptable t = (case find_idx (\<lambda>p. pid p = k) (ptable s) of
        None \<Rightarrow> ptable s
      | Some i \<Rightarrow> (ptable s)[i := (ptable s ! i)\<lparr>killed := True,
          state := (if state (ptable s ! i) = SLEEPING then RUNNABLE else state (ptable s ! i))\<rparr>])"
proof -
  let ?s = "at_cpu c s"
  have inv: "proc_inv ?s" using assms(1) by simp
  then have rest: "at_rest ?s" unfolding proc_inv_def by blast
  have on: "on_cpu c ?s" using at_cpu_on [OF _ assms(2)] assms(1) by (simp add: proc_inv_def)
  have "cli_ok c ?s" "locks ?s PtableLock = unlocked" using at_rest_cpu [OF rest on] by blast+
  from kill_result [OF this, of k] show ?thesis unfolding at_cpu_sel using kill_keeps_inv [OF inv on] by blast
qed

text \<open>C27. \<^verbatim>\<open>kill\<close> answers \<open>-1\<close> and changes no process when no slot has the pid. Otherwise it answers \<open>0\<close>, marks the
  first slot with that pid as killed, makes its process runnable when it sleeps, and leaves the other slots alone.\<close>

theorem kill_correct:
  assumes "proc_inv s" and "c < length (cpus s)"
  shows "\<exists>r t. kill k (at_cpu c s) = Inr (r, t) \<and> proc_inv t \<and>
    (if \<forall>p \<in> set (ptable s). pid p \<noteq> k then r = -1 \<and> ptable t = ptable s
     else r = 0 \<and> (\<exists>i < length (ptable s). pid (ptable s ! i) = k \<and> (\<forall>j < i. pid (ptable s ! j) \<noteq> k) \<and>
       killed (ptable t ! i) \<and> state (ptable t ! i) = (if state (ptable s ! i) = SLEEPING then RUNNABLE else state (ptable s ! i)) \<and>
       (\<forall>j < length (ptable s). j \<noteq> i \<longrightarrow> ptable t ! j = ptable s ! j)))"
proof (cases "find_idx (\<lambda>p. pid p = k) (ptable s)")
  case None
  then have "\<forall>p \<in> set (ptable s). pid p \<noteq> k" by (simp add: find_idx_None_iff)
  with None kill_rest [OF assms, of k] show ?thesis by auto
next
  case (Some i)
  then have "i < length (ptable s)" "pid (ptable s ! i) = k" "\<forall>j < i. pid (ptable s ! j) \<noteq> k"
    using find_idx_SomeD by fastforce+
  moreover from this have "\<not> (\<forall>p \<in> set (ptable s). pid p \<noteq> k)" using nth_mem by blast
  moreover obtain t where t: "kill k (at_cpu c s) = Inr (0, t)" "proc_inv t" "ptable t = (ptable s)[i := (ptable s ! i)\<lparr>killed := True,
      state := (if state (ptable s ! i) = SLEEPING then RUNNABLE else state (ptable s ! i))\<rparr>]"
    using Some kill_rest [OF assms, of k] by auto
  ultimately show ?thesis by (intro exI [of _ 0] exI [of _ t]) (auto intro!: exI [of _ i])
qed

theorem kill_correct_witness:
  "\<exists>t. kill 2 (at_cpu 0 demo_running) = Inr (0, t) \<and> killed (ptable t ! 1) \<and> state (ptable t ! 1) = RUNNABLE"
proof -
  have p: "pid (demo_proc k st q) = k" "state (demo_proc k st q) = st" for k st q by (simp_all add: demo_proc_def)
  have ex: "\<not> (\<forall>p \<in> set (ptable demo_running). pid p \<noteq> 2)" by (simp add: p)
  obtain t i where t: "kill 2 (at_cpu 0 demo_running) = Inr (0, t)" "i < 2" "pid (ptable demo_running ! i) = 2"
    "killed (ptable t ! i)" "state (ptable t ! i) = (if state (ptable demo_running ! i) = SLEEPING then RUNNABLE else state (ptable demo_running ! i))"
    using kill_correct [OF demo_running_ok, of 0 2] ex
    unfolding demo_running_sel(2) by auto
  from t(2,3) have "i = 1" by (auto simp: p less_2_cases_iff)
  with t show ?thesis by (auto simp: p)
qed

lemma allocproc_killed:
  assumes "allocproc s = Inr (Some i, t)"
  shows "find_idx (\<lambda>p. state p = UNUSED) (ptable s) = Some i \<and> killed (ptable t ! i) = killed (ptable s ! i)"
proof -
  from assms obtain u v w k where u: "acquire PtableLock s = Inr u" "find_idx (\<lambda>p. state p = UNUSED) (ptable u) = Some i"
    "release PtableLock (claim_slot i u) = Inr v" "kalloc v = Inr (k, w)" "t = init_kstack i k (upd_proc i (\<lambda>p. p\<lparr>kstack := k\<rparr>) w)"
    by (auto simp: allocproc_def Let_def kbind_eq_Inr_iff split: option.splits if_splits)
  note pu = acquire_ptab [OF u(1)] and pv = release_ptab [OF u(3)] and pw = vframe_ptab [OF kalloc_frame [OF u(4)]]
  have len: "i < length (ptable s)" using find_idx_length [OF u(2)] pu by simp
  show ?thesis using u(2,5) pu pv pw len by (simp add: claim_slot_ptable init_kstack_ptable)
qed

text \<open>C28. A pid of \<open>0\<close> names no process, but \<^verbatim>\<open>kill\<close> looks at free slots too: when the first free slot has never been
  used or has been reaped, \<^verbatim>\<open>kill(0)\<close> succeeds and marks that slot, and the process that \<^verbatim>\<open>allocproc\<close> puts there next
  is born killed.\<close>

theorem kill_zero_marks_next:
  assumes "proc_inv s" and "c < length (cpus s)" and "find_idx (\<lambda>p. state p = UNUSED) (ptable s) = Some i"
    and "pid (ptable s ! i) = 0"
  shows "\<exists>t. kill 0 (at_cpu c s) = Inr (0, t) \<and>
    (\<forall>j u. allocproc (at_cpu c t) = Inr (Some j, u) \<longrightarrow> j = i \<and> killed (ptable u ! j))"
proof -
  note i = find_idx_SomeD [OF assms(3)]
  have tab: "table_inv s" using assms(1) by (simp add: proc_inv_def)
  have "pid (ptable s ! j) \<noteq> 0" if "j < i" for j
    using tab_invD(3) [of "nextpid s" "nextpid s" "ptable s" j] tab i that by (auto simp: table_inv_def in_use_def)
  then have k: "find_idx (\<lambda>p. pid p = 0) (ptable s) = Some i" using i assms(4) by (simp add: find_idx_Some_iff)
  from kill_rest [OF assms(1,2), of 0] k i obtain t where t: "kill 0 (at_cpu c s) = Inr (0, t)"
    "ptable t = (ptable s)[i := (ptable s ! i)\<lparr>killed := True, state := UNUSED\<rparr>]" by auto
  have "find_idx (\<lambda>p. state p = UNUSED) (ptable t) = Some i" using i t(2) by (auto simp: find_idx_Some_iff)
  then show ?thesis using t i allocproc_killed [of "at_cpu c t"] by fastforce
qed

theorem kill_zero_marks_next_witness:
  "\<exists>t. kill 0 (at_cpu 0 demo_boot) = Inr (0, t) \<and>
     (\<forall>j u. allocproc (at_cpu 0 t) = Inr (Some j, u) \<longrightarrow> j = 0 \<and> killed (ptable u ! j))"
proof -
  have "ptable demo_boot = replicate NPROC zero_proc" "length (cpus demo_boot) = 1"
    by (simp_all add: demo_boot_def demo_ptab_def)
  then show ?thesis
    using kill_zero_marks_next [OF proc_inv_boot [OF demo_boot_ok], of 0 0] by (simp add: zero_proc_def)
qed

end
