(* ===== verification/Atproc.thy ===== *)
theory Atproc
  imports Procprops
begin

section \<open>Kernel code of a process between critical sections\<close>

text \<open>
  \<open>at_proc c i s\<close>: process \<open>i\<close> executes kernel code on CPU \<open>c\<close> and no spin lock is held, by anybody. \<^verbatim>\<open>intena\<close> of the
  CPU is the interrupt flag, as the first \<^verbatim>\<open>pushcli\<close> of a system call leaves it. Such a state, and the states
  \<open>hold l c s\<close> inside a critical section, evaluate the calls of the lock and process layers exactly; the lemmas of
  the collection \<open>at_proc\<close> carry the proofs about the pipes, the sleep locks, the file system and the system calls.
\<close>

named_theorems at_proc

definition at_proc :: "nat \<Rightarrow> nat \<Rightarrow> 'a ptab_scheme \<Rightarrow> bool" where
  "at_proc c i s \<longleftrightarrow> at_rest s \<and> on_cpu c s \<and> cli_mark c s = s \<and> cpu_proc (cpus s ! c) = Some i \<and> i < length (ptable s)"

lemma at_procD:
  assumes "at_proc c i s"
  shows "at_rest s" "on_cpu c s" "cli_mark c s = s" "cpu_proc (cpus s ! c) = Some i" "i < length (ptable s)"
    "cli_ok c s" "locks s l = unlocked" "c < length (cpus s)" "ncli (cpus s ! c) = 0"
  using assms at_rest_cpu [of s c] on_cpu_length [of c s] by (simp_all add: at_proc_def)

lemma cli_mark_id_iff: "cli_mark c s = s \<longleftrightarrow> (cpus s)[c := cpu_mark (FL_IF s (lapic_id s)) (cpus s ! c)] = cpus s"
  by (metis cli_mark_def cli_mark_sel(1) mach.surjective mach.update_convs(1))

lemma at_proc_cong:
  assumes "cpus t = cpus s" and "lapic_id t = lapic_id s" and "FL_IF t = FL_IF s" and "locks t = locks s"
    and "length (ptable t) = length (ptable s)"
  shows "at_proc c i t = at_proc c i s"
  using assms on_cpu_cong [of t s c] at_rest_cong [of t s] by (simp add: at_proc_def cli_mark_id_iff)

lemma at_proc_wakeup1 [simp]: "at_proc c i (wakeup1 ch s) = at_proc c i s"
  by (rule at_proc_cong) simp_all

lemma at_proc_upd_proc [simp]: "at_proc c i (upd_proc j f s) = at_proc c i s"
  by (rule at_proc_cong) simp_all

lemma hold_wakeup1 [simp]: "wakeup1 ch (hold l c s) = hold l c (wakeup1 ch s)"
  by (cases s) (simp add: wakeup1_def hold_def push_state_def)

lemma hold_upd_proc [simp]: "upd_proc j f (hold l c s) = hold l c (upd_proc j f s)"
  by (cases s) (simp add: upd_proc_def hold_def push_state_def)

lemma acquire_at [at_proc]: "at_proc c i s \<Longrightarrow> acquire l s = Inr (hold l c s)"
  by (rule acquire_free) (rule at_procD, assumption)+

lemma release_hold:
  assumes "cli_ok c s" and "locks s l = unlocked"
  shows "release l (hold l c s) = Inr (cli_mark c s)"
  using release_after [OF assms(1), of "hold l c s" l] unhold_hold [OF assms] by simp

lemma release_at [at_proc]: "at_proc c i s \<Longrightarrow> release l (hold l c s) = Inr s"
  using release_hold [of c s l] at_procD [of c i s] by simp

lemma myproc_at [at_proc]: "at_proc c i s \<Longrightarrow> myproc s = Inr (Some i, s)"
  using myproc_eq [of c s] at_procD [of c i s] by simp

lemma myproc_hold [at_proc]: "at_proc c i s \<Longrightarrow> myproc (hold l c s) = Inr (Some i, hold l c s)"
  using myproc_eq [of c "hold l c s"] at_procD [of c i s] by simp

lemma wakeup_hold [at_proc]:
  assumes "at_proc c i s" and "l \<noteq> PtableLock"
  shows "wakeup ch (hold l c s) = Inr (hold l c (wakeup1 (Some ch) s))"
proof -
  note D = at_procD [OF assms(1)]
  let ?t = "hold l c (wakeup1 (Some ch) s)"
  have ok: "cli_ok c (hold l c s)" "cli_ok c ?t" using D(6) by (simp_all add: cli_ok_cong [of "wakeup1 _ s" s])
  have "acquire PtableLock (hold l c s) = Inr (hold PtableLock c (hold l c s))"
    using ok(1) D(7) assms(2) by (intro acquire_free) simp_all
  moreover have "release PtableLock (hold PtableLock c ?t) = Inr ?t"
    using release_hold [OF ok(2), of PtableLock] D(7-9) assms(2) by simp
  ultimately show ?thesis by (simp add: wakeup_def)
qed

lemma sleep_at [at_proc]:
  fixes s :: "'a ptab_scheme"
  shows "at_proc c i s \<Longrightarrow> l \<noteq> PtableLock \<Longrightarrow>
    (sleep ch l (hold l c s) :: 'a ptab_scheme fault + 'b) = Inl (Swtch (sleep_state c i ch l s))"
  by (rule sleep_eq) (rule at_procD, assumption, simp?)+

text \<open>What the process finds when it runs again: the scheduler has left it in the section of \<^verbatim>\<open>ptable.lock\<close>.\<close>

lemma sleep_resume_at [at_proc]:
  assumes "at_proc c i s" and "l \<noteq> PtableLock"
  shows "sleep_resume i l (intena (cpus s ! c)) (hold PtableLock c s) = Inr (hold l c (upd_proc i (\<lambda>p. p\<lparr>wchan := None\<rparr>) s))"
proof -
  note D = at_procD [OF assms(1)]
  let ?h = "hold PtableLock c s"
  have "mycpu ?h = Inr c" using D(2) by (intro mycpu_on_cpu) simp_all
  moreover have "intena (cpus s ! c) = FL_IF s (lapic_id s)"
  proof -
    have "cpus (cli_mark c s) ! c = cpus s ! c" using D(3) by simp
    then have "intena (cpu_mark (FL_IF s (lapic_id s)) (cpus s ! c)) = intena (cpus s ! c)" using D(8) by simp
    then show ?thesis using D(9) by simp
  qed
  then have "(cpus ?h ! c)\<lparr>intena := intena (cpus s ! c)\<rparr> = cpus ?h ! c" using D(8,9) by (simp add: cpu_push_def)
  then have "upd_cpu c (\<lambda>x. x\<lparr>intena := intena (cpus s ! c)\<rparr>) ?h = ?h"
    by (metis upd_cpu_def list_update_id mach.surjective mach.update_convs(1))
  ultimately have "sched_resume (intena (cpus s ! c)) ?h = Inr ?h" by (simp add: sched_resume_def)
  then show ?thesis using assms by (simp add: sleep_resume_def at_proc)
qed

text \<open>Code that wakes up sleepers changes nothing else in the process table.\<close>

definition same_procs :: "'a ptab_scheme \<Rightarrow> 'a ptab_scheme \<Rightarrow> bool" where
  "same_procs s t \<longleftrightarrow> map (state_update (\<lambda>_. UNUSED)) (ptable t) = map (state_update (\<lambda>_. UNUSED)) (ptable s)"

lemma same_procs_refl [simp]: "same_procs s s"
  by (simp add: same_procs_def)

lemma same_procs_trans [trans]: "same_procs s t \<Longrightarrow> same_procs t u \<Longrightarrow> same_procs s u"
  by (simp add: same_procs_def)

lemma same_procs_eq: "ptable t = ptable s \<Longrightarrow> same_procs s t"
  by (simp add: same_procs_def)

lemma same_procs_wakeup1 [simp]: "same_procs s (wakeup1 ch t) = same_procs s t"
  by (simp add: same_procs_def wakeup1_def o_def if_distrib cong: if_cong)

lemma same_procs_wake: "ptable t = ptable (wakeup1 ch s) \<Longrightarrow> same_procs s t"
  using same_procs_wakeup1 [of s ch s] by (simp add: same_procs_def)

lemma same_procs_nth:
  assumes "same_procs s t" and "j < length (ptable s)"
  shows "length (ptable t) = length (ptable s)" "(ptable t ! j)\<lparr>state := UNUSED\<rparr> = (ptable s ! j)\<lparr>state := UNUSED\<rparr>"
proof -
  from assms(1) show len: "length (ptable t) = length (ptable s)" unfolding same_procs_def by (rule map_eq_imp_length_eq)
  have "map (state_update (\<lambda>_. UNUSED)) (ptable t) ! j = map (state_update (\<lambda>_. UNUSED)) (ptable s) ! j"
    using assms(1) by (simp only: same_procs_def)
  with len assms(2) show "(ptable t ! j)\<lparr>state := UNUSED\<rparr> = (ptable s ! j)\<lparr>state := UNUSED\<rparr>" by simp
qed

lemma same_procs_fields:
  assumes "same_procs s t" and "j < length (ptable s)"
  shows "cwd (ptable t ! j) = cwd (ptable s ! j)" "ofile (ptable t ! j) = ofile (ptable s ! j)" "pid (ptable t ! j) = pid (ptable s ! j)"
    "killed (ptable t ! j) = killed (ptable s ! j)" "pgdir (ptable t ! j) = pgdir (ptable s ! j)" "sz (ptable t ! j) = sz (ptable s ! j)"
  using same_procs_nth [OF assms] by (cases "ptable t ! j"; cases "ptable s ! j"; simp)+

subsection \<open>An example state\<close>

definition demo_at :: ptab where
  "demo_at = demo_running\<lparr>cpus := [(demo_cpu 0)\<lparr>cpu_proc := Some 0, intena := True\<rparr>]\<rparr>"

lemma demo_at_ok: "at_proc 0 0 demo_at" "ptable demo_at = [demo_proc 1 RUNNING 3, demo_proc 2 SLEEPING 3]"
  by (simp_all add: demo_at_def demo_running_def demo_ptab_def demo_cpu_def at_proc_def at_rest_def on_cpu_def cli_mark_def
      cpu_mark_def)

lemma at_proc_extend [simp]: "at_proc c i (ptab.extend s x) = at_proc c i s" "ptable (ptab.extend s x) = ptable s"
  by (rule at_proc_cong) (simp_all add: ptab.defs)

end
