(* ===== verification/Pipe.thy ===== *)
theory Pipe
  imports Atproc
begin

section \<open>Pipes\<close>

text \<open>
  \<^verbatim>\<open>src/pipe.c\<close>. A pipe lives in a page of its own; \<open>pipes\<close> gives the fields of the structure in the page at an address.
  The counters \<^verbatim>\<open>nread\<close> and \<^verbatim>\<open>nwrite\<close> are 32-bit words that wrap around; their difference is the number of bytes in the
  buffer. The user buffer of \<^verbatim>\<open>pipewrite\<close> is a function from offsets to bytes; the bytes that \<^verbatim>\<open>piperead\<close> stores at
  \<^verbatim>\<open>addr[0], addr[1], ...\<close> are part of its result. A call that has to wait ends in \<open>Swtch\<close>; the \<open>_resume\<close> definitions
  are the code from there on. \<^verbatim>\<open>pipealloc\<close> needs the file table and is in the theory \<open>File\<close>.
\<close>

abbreviation (input) PIPESIZE :: nat where "PIPESIZE \<equiv> 512"

record pipe =
  pdata :: "u8 list"
  nread :: u32
  nwrite :: u32
  readopen :: bool
  writeopen :: bool

record pipest = ptab +
  pipes :: "u32 \<Rightarrow> pipe"

definition upd_pipe :: "u32 \<Rightarrow> (pipe \<Rightarrow> pipe) \<Rightarrow> 'a pipest_scheme \<Rightarrow> 'a pipest_scheme" where
  "upd_pipe p f s = s\<lparr>pipes := (pipes s)(p := f (pipes s p))\<rparr>"

subsection \<open>Operations\<close>

definition pipeclose :: "u32 \<Rightarrow> bool \<Rightarrow> 'a pipest_scheme \<Rightarrow> 'a pipest_scheme fault + 'a pipest_scheme" where
  "pipeclose p writable s =
     kbind (acquire (PipeLock p) s) (\<lambda>s.
     kbind (if writable then wakeup (ChanPipeR p) (upd_pipe p (\<lambda>q. q\<lparr>writeopen := False\<rparr>) s)
            else wakeup (ChanPipeW p) (upd_pipe p (\<lambda>q. q\<lparr>readopen := False\<rparr>) s)) (\<lambda>s.
     if \<not> readopen (pipes s p) \<and> \<not> writeopen (pipes s p)
     then kbind (release (PipeLock p) s) (\<lambda>s. kfree p s)
     else release (PipeLock p) s))"

text \<open>\<^verbatim>\<open>p->data[p->nwrite++ % PIPESIZE] = b\<close>, and \<^verbatim>\<open>p->data[p->nread++ % PIPESIZE]\<close>.\<close>

definition pipe_put :: "u8 \<Rightarrow> pipe \<Rightarrow> pipe" where
  "pipe_put b q = q\<lparr>pdata := (pdata q)[unat (nwrite q) mod PIPESIZE := b], nwrite := nwrite q + 1\<rparr>"

definition pipe_get :: "pipe \<Rightarrow> u8 \<times> pipe" where
  "pipe_get q = (pdata q ! (unat (nread q) mod PIPESIZE), q\<lparr>nread := nread q + 1\<rparr>)"

text \<open>The loop of \<^verbatim>\<open>pipewrite\<close> with the bytes still to be written.\<close>

fun pipewrite_loop :: "u32 \<Rightarrow> int \<Rightarrow> u8 list \<Rightarrow> 'a pipest_scheme \<Rightarrow> 'a pipest_scheme fault + int \<times> 'a pipest_scheme" where
  "pipewrite_loop p n [] s =
     kbind (wakeup (ChanPipeR p) s) (\<lambda>s.
     kbind (release (PipeLock p) s) (\<lambda>s. Inr (n, s)))"
| "pipewrite_loop p n (b # bs) s =
     (if nwrite (pipes s p) = nread (pipes s p) + of_nat PIPESIZE then
        kbind (if \<not> readopen (pipes s p) then Inr (True, s)
               else kbind (myproc s) (\<lambda>(me, s). deref me (\<lambda>i. Inr (killed (ptable s ! i), s)))) (\<lambda>(stop, s).
        if stop then kbind (release (PipeLock p) s) (\<lambda>s. Inr (-1, s))
        else kbind (wakeup (ChanPipeR p) s) (\<lambda>s. sleep (ChanPipeW p) (PipeLock p) s))
      else pipewrite_loop p n bs (upd_pipe p (pipe_put b) s))"

definition pipewrite :: "u32 \<Rightarrow> (nat \<Rightarrow> u8) \<Rightarrow> int \<Rightarrow> 'a pipest_scheme \<Rightarrow> 'a pipest_scheme fault + int \<times> 'a pipest_scheme" where
  "pipewrite p addr n s =
     kbind (acquire (PipeLock p) s) (\<lambda>s. pipewrite_loop p n (map addr [0..<nat n]) s)"

definition pipewrite_resume ::
  "nat \<Rightarrow> bool \<Rightarrow> u32 \<Rightarrow> int \<Rightarrow> u8 list \<Rightarrow> 'a pipest_scheme \<Rightarrow> 'a pipest_scheme fault + int \<times> 'a pipest_scheme" where
  "pipewrite_resume i intena_saved p n bs s =
     kbind (sleep_resume i (PipeLock p) intena_saved s) (\<lambda>s. pipewrite_loop p n bs s)"

primrec piperead_copy :: "nat \<Rightarrow> pipe \<Rightarrow> u8 list \<times> pipe" where
  "piperead_copy 0 q = ([], q)"
| "piperead_copy (Suc k) q =
     (if nread q = nwrite q then ([], q)
      else let (b, q) = pipe_get q; (bs, q) = piperead_copy k q in (b # bs, q))"

definition piperead_loop :: "u32 \<Rightarrow> int \<Rightarrow> 'a pipest_scheme \<Rightarrow> 'a pipest_scheme fault + (int \<times> u8 list) \<times> 'a pipest_scheme" where
  "piperead_loop p n s =
     (if nread (pipes s p) = nwrite (pipes s p) \<and> writeopen (pipes s p) then
        kbind (myproc s) (\<lambda>(me, s). deref me (\<lambda>i.
        if killed (ptable s ! i) then kbind (release (PipeLock p) s) (\<lambda>s. Inr ((-1, []), s))
        else sleep (ChanPipeR p) (PipeLock p) s))
      else
        let (bs, q) = piperead_copy (nat n) (pipes s p);
            s = upd_pipe p (\<lambda>_. q) s in
        kbind (wakeup (ChanPipeW p) s) (\<lambda>s.
        kbind (release (PipeLock p) s) (\<lambda>s. Inr ((int (length bs), bs), s))))"

definition piperead :: "u32 \<Rightarrow> int \<Rightarrow> 'a pipest_scheme \<Rightarrow> 'a pipest_scheme fault + (int \<times> u8 list) \<times> 'a pipest_scheme" where
  "piperead p n s = kbind (acquire (PipeLock p) s) (\<lambda>s. piperead_loop p n s)"

definition piperead_resume ::
  "nat \<Rightarrow> bool \<Rightarrow> u32 \<Rightarrow> int \<Rightarrow> 'a pipest_scheme \<Rightarrow> 'a pipest_scheme fault + (int \<times> u8 list) \<times> 'a pipest_scheme" where
  "piperead_resume i intena_saved p n s =
     kbind (sleep_resume i (PipeLock p) intena_saved s) (\<lambda>s. piperead_loop p n s)"

subsection \<open>Bounded queues\<close>

text \<open>A bounded queue of bytes: what the users of a pipe rely on. \<open>qabs\<close> is its contents.\<close>

locale bounded_queue =
  fixes qok :: "'q \<Rightarrow> bool" and qabs :: "'q \<Rightarrow> 'b list" and cap :: nat
    and full :: "'q \<Rightarrow> bool" and emp :: "'q \<Rightarrow> bool" and put :: "'b \<Rightarrow> 'q \<Rightarrow> 'q" and get :: "'q \<Rightarrow> 'b \<times> 'q"
  assumes cap_bound: "qok q \<Longrightarrow> length (qabs q) \<le> cap"
    and full_iff: "qok q \<Longrightarrow> full q \<longleftrightarrow> length (qabs q) = cap"
    and emp_iff: "qok q \<Longrightarrow> emp q \<longleftrightarrow> qabs q = []"
    and put_abs: "qok q \<Longrightarrow> \<not> full q \<Longrightarrow> qok (put b q) \<and> qabs (put b q) = qabs q @ [b]"
    and get_abs: "qok q \<Longrightarrow> \<not> emp q \<Longrightarrow> qok (snd (get q)) \<and> qabs q = fst (get q) # qabs (snd (get q))"
begin

text \<open>As many bytes as fit are put in; as many as there are, up to a number, are taken out.\<close>

primrec put_all :: "'b list \<Rightarrow> 'q \<Rightarrow> 'b list \<times> 'q" where
  "put_all [] q = ([], q)"
| "put_all (b # bs) q = (if full q then (b # bs, q) else put_all bs (put b q))"

primrec get_upto :: "nat \<Rightarrow> 'q \<Rightarrow> 'b list \<times> 'q" where
  "get_upto 0 q = ([], q)"
| "get_upto (Suc k) q =
     (if emp q then ([], q) else let (b, q) = get q; (bs, q) = get_upto k q in (b # bs, q))"

lemma put_all_abs:
  "qok q \<Longrightarrow> put_all bs q = (rest, r) \<Longrightarrow>
     qok r \<and> qabs r = qabs q @ take (cap - length (qabs q)) bs \<and> rest = drop (cap - length (qabs q)) bs"
proof (induction bs arbitrary: q)
  case (Cons b bs)
  show ?case
  proof (cases "full q")
    case True
    with Cons.prems full_iff show ?thesis by simp
  next
    case False
    note p = put_abs [OF Cons.prems(1) False, of b]
    have lt: "length (qabs q) < cap" using full_iff cap_bound Cons.prems(1) False by (simp add: le_neq_trans)
    then obtain m where "cap - length (qabs q) = Suc m" using zero_less_diff less_imp_Suc_add by blast
    moreover from this have "cap - length (qabs (put b q)) = m" using p by simp
    ultimately show ?thesis using Cons.IH [of "put b q"] Cons.prems(2) False p by simp
  qed
qed simp

lemma get_upto_abs:
  "qok q \<Longrightarrow> get_upto k q = (bs, r) \<Longrightarrow> qok r \<and> bs = take k (qabs q) \<and> qabs r = drop k (qabs q)"
proof (induction k arbitrary: q bs r)
  case (Suc k)
  show ?case
  proof (cases "emp q")
    case True
    with Suc.prems emp_iff show ?thesis by simp
  next
    case False
    note g = get_abs [OF Suc.prems(1) False]
    obtain cs u where cs: "get_upto k (snd (get q)) = (cs, u)" by fastforce
    then have "bs = fst (get q) # cs \<and> r = u" using Suc.prems(2) False by (simp add: split_beta)
    then show ?thesis using Suc.IH [OF _ cs] g by simp
  qed
qed simp

end

text \<open>The pipe buffer as such a queue.\<close>

definition pipe_len :: "pipe \<Rightarrow> nat" where
  "pipe_len q = unat (nwrite q - nread q)"

definition pipe_ok :: "pipe \<Rightarrow> bool" where
  "pipe_ok q \<longleftrightarrow> length (pdata q) = PIPESIZE \<and> pipe_len q \<le> PIPESIZE"

definition pipe_bytes :: "pipe \<Rightarrow> u8 list" where
  "pipe_bytes q = map (\<lambda>k. pdata q ! (unat (nread q + of_nat k) mod PIPESIZE)) [0..<pipe_len q]"

definition pipe_full :: "pipe \<Rightarrow> bool" where
  "pipe_full q \<longleftrightarrow> nwrite q = nread q + of_nat PIPESIZE"

definition pipe_empty :: "pipe \<Rightarrow> bool" where
  "pipe_empty q \<longleftrightarrow> nread q = nwrite q"

lemma unat_add_mod_dvd:
  assumes "n dvd 2 ^ 32"
  shows "unat (x + of_nat k :: u32) mod n = (unat x + k) mod n"
proof -
  have "unat (x + of_nat k :: u32) = (unat x + k) mod 2 ^ 32"
    by (simp add: unat_word_ariths(1) unat_of_nat mod_add_right_eq)
  then show ?thesis using assms by (simp add: mod_mod_cancel)
qed

lemma unat_add_mod: "unat (x + of_nat k :: u32) mod PIPESIZE = (unat x + k) mod PIPESIZE"
  by (rule unat_add_mod_dvd) simp

text \<open>Counters that wrap around tell the distance between them apart as long as it is below \<open>2\<^sup>32\<close>.\<close>

lemma word_distance:
  fixes r w :: u32
  assumes "n < 2 ^ 32"
  shows "unat (w - r) = n \<longleftrightarrow> w = r + of_nat n"
proof
  assume "unat (w - r) = n"
  then have "of_nat n = w - r" by auto
  then show "w = r + of_nat n" by simp
next
  assume "w = r + of_nat n"
  then show "unat (w - r) = n" using assms by (simp add: unsigned_of_nat take_bit_nat_eq_self)
qed

lemma pipe_len_iff: "n < 2 ^ 32 \<Longrightarrow> pipe_len q = n \<longleftrightarrow> nwrite q = nread q + of_nat n"
  unfolding pipe_len_def by (rule word_distance)

lemma mod_window:
  assumes "k < m" and "m < (n :: nat)"
  shows "(r + k) mod n \<noteq> (r + m) mod n"
proof
  assume "(r + k) mod n = (r + m) mod n"
  then have "n dvd (r + m) - (r + k)" using assms(1) by (intro mod_eq_dvd_iff_nat [THEN iffD1]) simp_all
  then show False using assms by (simp add: nat_dvd_not_less)
qed

lemma pipe_len_put:
  assumes "pipe_len q < PIPESIZE"
  shows "pipe_len (pipe_put b q) = Suc (pipe_len q)"
proof -
  have "nwrite q = nread q + of_nat (pipe_len q)" using pipe_len_iff [of "pipe_len q" q] assms by simp
  then show ?thesis
    using pipe_len_iff [of "Suc (pipe_len q)" "pipe_put b q"] assms by (simp add: pipe_put_def algebra_simps)
qed

interpretation pq: bounded_queue pipe_ok pipe_bytes PIPESIZE pipe_full pipe_empty pipe_put pipe_get
proof
  fix q :: pipe and b assume ok: "pipe_ok q"
  show "length (pipe_bytes q) \<le> PIPESIZE" using ok by (simp add: pipe_ok_def pipe_bytes_def)
  show "pipe_full q \<longleftrightarrow> length (pipe_bytes q) = PIPESIZE"
    using pipe_len_iff [of PIPESIZE q] by (simp add: pipe_full_def pipe_bytes_def)
  show "pipe_empty q \<longleftrightarrow> pipe_bytes q = []"
    using pipe_len_iff [of 0 q] by (auto simp: pipe_empty_def pipe_bytes_def)
  show "pipe_ok (pipe_put b q) \<and> pipe_bytes (pipe_put b q) = pipe_bytes q @ [b]" if nf: "\<not> pipe_full q"
  proof -
    have lt: "pipe_len q < PIPESIZE"
      using nf ok pipe_len_iff [of PIPESIZE q] by (auto simp: pipe_full_def pipe_ok_def le_less)
    have w: "nwrite q = nread q + of_nat (pipe_len q)" using pipe_len_iff [of "pipe_len q" q] lt by simp
    have "(unat (nread q) + pipe_len q) mod PIPESIZE \<noteq> (unat (nread q) + k) mod PIPESIZE" if "k < pipe_len q" for k
      using mod_window [OF that lt] by metis
    then show ?thesis
      using ok pipe_len_put [OF lt, of b] lt w
      by (auto simp: pipe_ok_def pipe_bytes_def pipe_put_def unat_add_mod)
  qed
  show "pipe_ok (snd (pipe_get q)) \<and> pipe_bytes q = fst (pipe_get q) # pipe_bytes (snd (pipe_get q))"
    if ne: "\<not> pipe_empty q"
  proof -
    obtain m where m: "pipe_len q = Suc m" "m < PIPESIZE"
      using ne ok pipe_len_iff [of 0 q] by (cases "pipe_len q") (auto simp: pipe_empty_def pipe_ok_def)
    then have w: "nwrite q = nread q + of_nat (Suc m)" using pipe_len_iff [of "Suc m" q] by simp
    then have len: "pipe_len (snd (pipe_get q)) = m"
      using pipe_len_iff [of m "snd (pipe_get q)"] m(2) w by (simp add: pipe_get_def add.assoc)
    then show ?thesis
      unfolding pipe_bytes_def m(1) len map_upt_Suc
      using ok m(2) len by (simp add: pipe_ok_def pipe_get_def add.assoc)
  qed
qed

subsection \<open>The operations on the queue\<close>

lemma pipes_frame [simp]:
  "pipes (hold l c s) = pipes s" "pipes (unhold l c s) = pipes s" "pipes (wakeup1 ch s) = pipes s"
  "pipes (upd_proc j f s) = pipes s"
  by (simp_all add: hold_def push_state_def unhold_def pop_state_def wakeup1_def upd_proc_def)

lemma pipes_sleep_state [simp]: "pipes (sleep_state c i ch l s) = pipes s"
  by (simp add: sleep_state_def)

lemma upd_pipe_frame [simp]:
  "pipes (upd_pipe p f s) = (pipes s)(p := f (pipes s p))" "ptable (upd_pipe p f s) = ptable s"
  "at_proc c i (upd_pipe p f s) = at_proc c i s"
  by (simp_all add: upd_pipe_def at_proc_cong [of "s\<lparr>pipes := _\<rparr>" s])

lemma upd_pipe_hold [simp]: "upd_pipe p f (hold l c s) = hold l c (upd_pipe p f s)"
  by (cases s) (simp add: upd_pipe_def hold_def push_state_def)

lemma upd_pipe_twice [simp]: "upd_pipe p g (upd_pipe p f s) = upd_pipe p (\<lambda>q. g (f q)) s"
  by (simp add: upd_pipe_def)

lemma upd_pipe_id [simp]: "upd_pipe p (\<lambda>_. pipes s p) s = s"
  by (simp add: upd_pipe_def)

lemma upd_pipe_const: "f (pipes s p) = q \<Longrightarrow> upd_pipe p f s = upd_pipe p (\<lambda>_. q) s"
  by (auto simp: upd_pipe_def)

lemma pipe_full_fold: "nwrite q = nread q + 512 \<longleftrightarrow> pipe_full q"
  by (simp add: pipe_full_def)

lemma pipe_put_open [simp]: "nwrite (pipe_put b q) = nwrite q + 1" "readopen (pipe_put b q) = readopen q" "writeopen (pipe_put b q) = writeopen q"
  by (simp_all add: pipe_put_def)

lemma put_all_open: "readopen (snd (pq.put_all bs q)) = readopen q \<and> writeopen (snd (pq.put_all bs q)) = writeopen q"
  by (induction bs arbitrary: q) simp_all

lemma piperead_copy_eq: "piperead_copy k q = pq.get_upto k q"
  by (induction k arbitrary: q) (simp_all add: pipe_empty_def)

text \<open>\<^verbatim>\<open>pipewrite\<close> puts in what fits. It is done, or fails, or waits with the remaining bytes.\<close>

lemma pipewrite_loop_result:
  fixes s :: "'a pipest_scheme"
  assumes "at_proc c i s"
  shows "pipewrite_loop p n bs (hold (PipeLock p) c s) =
    (let (rest, q) = pq.put_all bs (pipes s p); t = upd_pipe p (\<lambda>_. q) s in
     if rest = [] then Inr (n, wakeup1 (Some (ChanPipeR p)) t)
     else if \<not> readopen (pipes s p) \<or> killed (ptable s ! i) then Inr (-1, t)
     else Inl (Swtch (sleep_state c i (ChanPipeW p) (PipeLock p) (wakeup1 (Some (ChanPipeR p)) t))))"
  using assms
proof (induction bs arbitrary: s)
  case Nil
  then show ?case by (simp add: at_proc [of c i])
next
  case (Cons b bs)
  show ?case
  proof (cases "pipe_full (pipes s p)")
    case True
    then show ?thesis using Cons.prems by (simp add: pipe_full_fold at_proc [of c i] deref_def)
  next
    case False
    then show ?thesis
      using Cons.prems Cons.IH [of "upd_pipe p (pipe_put b) s"]
      by (simp add: pipe_full_fold split_beta Let_def)
  qed
qed

lemma piperead_loop_result:
  fixes s :: "'a pipest_scheme"
  assumes "at_proc c i s"
  shows "piperead_loop p n (hold (PipeLock p) c s) =
    (if pipe_empty (pipes s p) \<and> writeopen (pipes s p) then
       if killed (ptable s ! i) then Inr ((-1, []), s)
       else Inl (Swtch (sleep_state c i (ChanPipeR p) (PipeLock p) s))
     else let (bs, q) = pq.get_upto (nat n) (pipes s p) in
       Inr ((int (length bs), bs), wakeup1 (Some (ChanPipeW p)) (upd_pipe p (\<lambda>_. q) s)))"
  using assms
  by (simp add: piperead_loop_def pipe_empty_def piperead_copy_eq at_proc [of c i] deref_def split_beta Let_def)

lemma pipewrite_eq:
  fixes s :: "'a pipest_scheme"
  assumes "at_proc c i s" and "pq.put_all (map addr [0..<nat n]) (pipes s p) = (rest, q)"
  shows "pipewrite p addr n s = (let t = upd_pipe p (\<lambda>_. q) s in
     if rest = [] then Inr (n, wakeup1 (Some (ChanPipeR p)) t)
     else if \<not> readopen (pipes s p) \<or> killed (ptable s ! i) then Inr (-1, t)
     else Inl (Swtch (sleep_state c i (ChanPipeW p) (PipeLock p) (wakeup1 (Some (ChanPipeR p)) t))))"
  using assms(2) by (simp add: pipewrite_def acquire_at [OF assms(1)] pipewrite_loop_result [OF assms(1)])

lemma sleep_state_asleep:
  assumes "i < length (ptable s)"
  shows "state (ptable (sleep_state c i ch l s) ! i) = SLEEPING" "wchan (ptable (sleep_state c i ch l s) ! i) = Some ch"
  using assms by (simp_all add: sleep_state_def)

lemma pipeclose_data:
  assumes "at_proc c i s" and "pipeclose p w s = Inr t"
  shows "pdata (pipes t p) = pdata (pipes s p) \<and> nread (pipes t p) = nread (pipes s p) \<and> nwrite (pipes t p) = nwrite (pipes s p)"
proof -
  have kf: "pipes v = pipes u" if "kfree p u = Inr v" for u v
    using kfree_frame [OF that] by (cases u; cases v) (simp add: vframe_def)
  show ?thesis
    using assms(2) by (auto simp: pipeclose_def at_proc [of c i] assms(1) kbind_eq_Inr_iff split: if_splits dest!: kf)
qed

subsection \<open>Traffic through a pipe\<close>

text \<open>The bytes that a call of \<^verbatim>\<open>pipewrite\<close> has put into the pipe when it returns or waits, out of those it was to write.\<close>

definition accepted :: "u32 \<Rightarrow> 'a pipest_scheme \<Rightarrow> 'a pipest_scheme \<Rightarrow> u8 list \<Rightarrow> u8 list" where
  "accepted p s t bs = take (unat (nwrite (pipes t p) - nwrite (pipes s p))) bs"

text \<open>What processes on any CPUs do with the pipe \<open>p\<close> in the course of time, each call up to its return or to where it
  waits; \<open>ws\<close> are the bytes that went in and \<open>rs\<close> those that came out. Other code does not touch the buffer.\<close>

inductive pipe_run :: "u32 \<Rightarrow> pipest \<Rightarrow> u8 list \<Rightarrow> u8 list \<Rightarrow> pipest \<Rightarrow> bool" for p where
  run_nil: "pipe_run p s [] [] s"
| run_write: "pipe_run p s ws rs t \<Longrightarrow> at_proc c i t \<Longrightarrow>
    pipewrite p addr n t = Inr (r, u) \<or> pipewrite p addr n t = Inl (Swtch u) \<Longrightarrow>
    pipe_run p s (ws @ accepted p t u (map addr [0..<nat n])) rs u"
| run_write_resume: "pipe_run p s ws rs t \<Longrightarrow> at_proc c i v \<Longrightarrow> t = hold PtableLock c v \<Longrightarrow>
    pipewrite_resume i (intena (cpus v ! c)) p n bs t = Inr (r, u) \<or>
    pipewrite_resume i (intena (cpus v ! c)) p n bs t = Inl (Swtch u) \<Longrightarrow>
    pipe_run p s (ws @ accepted p t u bs) rs u"
| run_read: "pipe_run p s ws rs t \<Longrightarrow> at_proc c i t \<Longrightarrow> piperead p n t = Inr ((r, bs), u) \<Longrightarrow> pipe_run p s ws (rs @ bs) u"
| run_read_wait: "pipe_run p s ws rs t \<Longrightarrow> at_proc c i t \<Longrightarrow> piperead p n t = Inl (Swtch u) \<Longrightarrow> pipe_run p s ws rs u"
| run_read_resume: "pipe_run p s ws rs t \<Longrightarrow> at_proc c i v \<Longrightarrow> t = hold PtableLock c v \<Longrightarrow>
    piperead_resume i (intena (cpus v ! c)) p n t = Inr ((r, bs), u) \<Longrightarrow> pipe_run p s ws (rs @ bs) u"
| run_read_again: "pipe_run p s ws rs t \<Longrightarrow> at_proc c i v \<Longrightarrow> t = hold PtableLock c v \<Longrightarrow>
    piperead_resume i (intena (cpus v ! c)) p n t = Inl (Swtch u) \<Longrightarrow> pipe_run p s ws rs u"
| run_close: "pipe_run p s ws rs t \<Longrightarrow> at_proc c i t \<Longrightarrow> pipeclose p w t = Inr u \<Longrightarrow> pipe_run p s ws rs u"
| run_other: "pipe_run p s ws rs t \<Longrightarrow> pipes u p = pipes t p \<Longrightarrow> pipe_run p s ws rs u"

lemma put_all_nwrite: "nwrite (snd (pq.put_all bs q)) = nwrite q + of_nat (length bs - length (fst (pq.put_all bs q)))
    \<and> length (fst (pq.put_all bs q)) \<le> length bs"
proof (induction bs arbitrary: q)
  case (Cons b bs)
  show ?case using Cons [of "pipe_put b q"] by (auto simp: Suc_diff_le)
qed simp

text \<open>One call, whichever way it ends.\<close>

lemma write_ends:
  assumes "at_proc c i s"
    and "pipewrite_loop p n bs (hold (PipeLock p) c s) = Inr (r, t) \<or> pipewrite_loop p n bs (hold (PipeLock p) c s) = Inl (Swtch t)"
  shows "pipes t p = snd (pq.put_all bs (pipes s p))"
proof -
  obtain rest q where q: "pq.put_all bs (pipes s p) = (rest, q)" by fastforce
  show ?thesis
    using assms(2) unfolding pipewrite_loop_result [OF assms(1)] q Let_def
    by (auto simp: q split: if_splits)
qed

lemma write_accepts:
  assumes "pipe_ok (pipes s p)" and "pipes t p = snd (pq.put_all bs (pipes s p))"
  shows "pipe_ok (pipes t p) \<and> pipe_bytes (pipes t p) = pipe_bytes (pipes s p) @ accepted p s t bs"
proof -
  obtain rest q where q: "pq.put_all bs (pipes s p) = (rest, q)" by fastforce
  let ?k = "PIPESIZE - length (pipe_bytes (pipes s p))"
  note a = pq.put_all_abs [OF assms(1) q]
  have "nwrite q = nwrite (pipes s p) + of_nat (length bs - length rest)" using put_all_nwrite [of bs "pipes s p"] q by simp
  moreover have "length bs - length rest = min (length bs) ?k" using a by auto
  ultimately have "unat (nwrite q - nwrite (pipes s p)) = min (length bs) ?k"
    by (simp add: unsigned_of_nat take_bit_nat_eq_self)
  then have "accepted p s t bs = take ?k bs" using assms(2) q by (simp add: accepted_def min_def)
  then show ?thesis using a assms(2) q by simp
qed

lemma read_ends:
  assumes "at_proc c i s" and "pipe_ok (pipes s p)"
  shows "piperead_loop p n (hold (PipeLock p) c s) = Inr ((r, bs), t) \<Longrightarrow>
      pipe_ok (pipes t p) \<and> pipe_bytes (pipes s p) = bs @ pipe_bytes (pipes t p)"
    and "piperead_loop p n (hold (PipeLock p) c s) = Inl (Swtch t) \<Longrightarrow> pipes t p = pipes s p"
proof -
  obtain cs q where q: "pq.get_upto (nat n) (pipes s p) = (cs, q)" by fastforce
  note g = pq.get_upto_abs [OF assms(2) q]
  show "pipe_ok (pipes t p) \<and> pipe_bytes (pipes s p) = bs @ pipe_bytes (pipes t p)"
    if "piperead_loop p n (hold (PipeLock p) c s) = Inr ((r, bs), t)"
    using that assms(2) g unfolding piperead_loop_result [OF assms(1)] q by (auto simp: q split: if_splits)
  show "pipes t p = pipes s p" if "piperead_loop p n (hold (PipeLock p) c s) = Inl (Swtch t)"
    using that unfolding piperead_loop_result [OF assms(1)] q by (auto split: if_splits)
qed

lemma pipe_bytes_cong:
  assumes "pdata q = pdata r" and "nread q = nread r" and "nwrite q = nwrite r"
  shows "pipe_bytes q = pipe_bytes r" "pipe_ok q = pipe_ok r"
  using assms by (simp_all add: pipe_bytes_def pipe_ok_def pipe_len_def)

lemma pipe_run_bytes:
  assumes "pipe_run p s ws rs t" and "pipe_ok (pipes s p)"
  shows "pipe_ok (pipes t p) \<and> pipe_bytes (pipes s p) @ ws = rs @ pipe_bytes (pipes t p)"
  using assms
proof (induction rule: pipe_run.induct)
  case (run_write s ws rs t c i addr n r u)
  have "pipes u p = snd (pq.put_all (map addr [0..<nat n]) (pipes t p))"
    using run_write(3) unfolding pipewrite_def acquire_at [OF run_write(2)] kbind.simps
    by (rule write_ends [OF run_write(2)])
  then show ?case using write_accepts [of t p u] run_write by simp
next
  case (run_write_resume s ws rs t c i v n bs r u)
  let ?v = "upd_proc i (\<lambda>p. p\<lparr>wchan := None\<rparr>) v"
  have ap: "at_proc c i ?v" using run_write_resume(2) by simp
  have "pipes u p = snd (pq.put_all bs (pipes ?v p))"
    using run_write_resume(4) unfolding run_write_resume(3) pipewrite_resume_def
      sleep_resume_at [OF run_write_resume(2), of "PipeLock p", simplified] kbind.simps
    by (rule write_ends [OF ap])
  then have "pipes u p = snd (pq.put_all bs (pipes t p))" using run_write_resume(3) by simp
  then show ?case using write_accepts [of t p u] run_write_resume by simp
next
  case (run_read s ws rs t c i n r bs u)
  then show ?case using read_ends(1) [of c i t p n r bs u] by (simp add: piperead_def acquire_at [OF run_read(2)])
next
  case (run_read_wait s ws rs t c i n u)
  then show ?case using read_ends(2) [of c i t p n u] by (simp add: piperead_def acquire_at [OF run_read_wait(2)])
next
  case (run_read_resume s ws rs t c i v n r bs u)
  then show ?case
    using read_ends(1) [of c i "upd_proc i (\<lambda>p. p\<lparr>wchan := None\<rparr>) v" p n r bs u]
    by (simp add: piperead_resume_def sleep_resume_at [OF run_read_resume(2)])
next
  case (run_read_again s ws rs t c i v n u)
  then show ?case
    using read_ends(2) [of c i "upd_proc i (\<lambda>p. p\<lparr>wchan := None\<rparr>) v" p n u]
    by (simp add: piperead_resume_def sleep_resume_at [OF run_read_again(2)])
next
  case (run_close s ws rs t c i w u)
  then show ?case using pipeclose_data [OF run_close(2,3)] pipe_bytes_cong [of "pipes u p" "pipes t p"] by simp
qed simp_all

subsection \<open>Properties\<close>

text \<open>C23. A pipe is a first-in first-out channel. However calls of \<^verbatim>\<open>pipewrite\<close>, \<^verbatim>\<open>piperead\<close> and \<^verbatim>\<open>pipeclose\<close> by processes on
  any CPUs follow one another, waiting and resuming included, the bytes taken out followed by those still in the buffer
  are the bytes that were there followed by those put in, and the buffer never holds more than \<^verbatim>\<open>PIPESIZE\<close> bytes. The
  counters may wrap around at any point.\<close>

theorem pipe_fifo:
  assumes "pipe_run p s ws rs t" and "pipe_ok (pipes s p)"
  shows "pipe_bytes (pipes s p) @ ws = rs @ pipe_bytes (pipes t p) \<and> length (pipe_bytes (pipes t p)) \<le> PIPESIZE"
  using pipe_run_bytes [OF assms] pq.cap_bound by simp

text \<open>The counters of the example are about to wrap around; two bytes are in the buffer, at the indices 511 and 0.\<close>

definition demo_pipe :: pipe where
  "demo_pipe = \<lparr>pdata = (replicate 512 0)[511 := 7, 0 := 8], nread = 0xFFFFFFFF, nwrite = 1, readopen = True, writeopen = True\<rparr>"

definition demo_pipest :: pipest where
  "demo_pipest = ptab.extend demo_at (pipest.fields (\<lambda>_. demo_pipe))"

lemma demo_pipest_ok: "at_proc 0 0 demo_pipest" "pipes demo_pipest p = demo_pipe" "pipe_ok demo_pipe"
  "pipe_bytes demo_pipe = [7, 8]" "ptable demo_pipest = ptable demo_at"
proof -
  show "at_proc 0 0 demo_pipest" "ptable demo_pipest = ptable demo_at" using demo_at_ok by (simp_all add: demo_pipest_def)
  show "pipes demo_pipest p = demo_pipe" by (simp add: demo_pipest_def ptab.defs pipest.defs)
  show "pipe_ok demo_pipe" "pipe_bytes demo_pipe = [7, 8]"
    by (simp_all add: pipe_ok_def pipe_bytes_def pipe_len_def demo_pipe_def upt_rec)
qed

lemma at_proc_extend_pipest [simp]: "at_proc c i (pipest.extend s x) = at_proc c i s" "ptable (pipest.extend s x) = ptable s"
  by (rule at_proc_cong) (simp_all add: pipest.defs)

theorem pipe_fifo_witness:
  "\<exists>t u. piperead 5 1 demo_pipest = Inr ((1, [7]), t) \<and> pipewrite 5 (\<lambda>_. 9) 2 t = Inr (2, u) \<and> pipe_bytes (pipes u 5) = [8, 9, 9]"
proof -
  have rd: "pq.get_upto (Suc 0) demo_pipe = ([7], demo_pipe\<lparr>nread := 0\<rparr>)"
    by (simp add: demo_pipe_def pipe_empty_def pipe_get_def)
  define t where "t = wakeup1 (Some (ChanPipeW 5)) (upd_pipe 5 (\<lambda>_. demo_pipe\<lparr>nread := 0\<rparr>) demo_pipest)"
  have r: "piperead 5 1 demo_pipest = Inr ((1, [7]), t)"
    using demo_pipest_ok rd
    by (simp add: piperead_def acquire_at piperead_loop_result t_def) (simp add: demo_pipe_def pipe_empty_def)
  have at: "at_proc 0 0 t" using demo_pipest_ok by (simp add: t_def)
  have pt: "pipes t 5 = demo_pipe\<lparr>nread := 0\<rparr>" by (simp add: t_def)
  have two: "map (\<lambda>_. 9 :: u8) [0..<nat 2] = [9, 9]" by (simp add: numeral_2_eq_2)
  obtain q where q: "pq.put_all (map (\<lambda>_. 9) [0..<nat 2]) (pipes t 5) = ([], q)" "q = snd (pq.put_all [9, 9] (demo_pipe\<lparr>nread := 0\<rparr>))"
    unfolding pt two by (simp add: demo_pipe_def pipe_full_def pipe_put_def)
  obtain u where w: "pipewrite 5 (\<lambda>_. 9) 2 t = Inr (2, u)" "pipes u 5 = q" using pipewrite_eq [OF at q(1)] by auto
  have "accepted 5 t u (map (\<lambda>_. 9) [0..<nat 2]) = [9, 9]"
    unfolding two accepted_def using w(2) pt q(2) by (simp add: demo_pipe_def pipe_full_def pipe_put_def)
  then have "pipe_run 5 demo_pipest [9, 9] [7] u"
    using run_write [OF run_read [OF run_nil demo_pipest_ok(1) r] at, of "\<lambda>_. 9" 2 2 u] w(1) by simp
  from pipe_fifo [OF this] have "pipe_bytes (pipes u 5) = [8, 9, 9]" using demo_pipest_ok by simp
  with r w show ?thesis by blast
qed

text \<open>C24. \<^verbatim>\<open>pipewrite\<close> with room for all its bytes appends them, answers their number and leaves no reader asleep. Without the
  room it appends those that fit; then it fails if the read end is closed or the process has been killed, and otherwise
  waits for a reader.\<close>

theorem pipewrite_outcome:
  assumes "at_proc c i s" and "pipe_ok (pipes s p)" and "0 \<le> n"
  defines "room \<equiv> PIPESIZE - length (pipe_bytes (pipes s p))"
  shows "(nat n \<le> room \<longrightarrow> (\<exists>t. pipewrite p addr n s = Inr (n, t) \<and> at_proc c i t \<and>
       pipe_bytes (pipes t p) = pipe_bytes (pipes s p) @ map addr [0..<nat n] \<and>
       (\<forall>j < length (ptable t). \<not> (state (ptable t ! j) = SLEEPING \<and> wchan (ptable t ! j) = Some (ChanPipeR p))))) \<and>
    (room < nat n \<longrightarrow> (\<exists>t. pipe_bytes (pipes t p) = pipe_bytes (pipes s p) @ map addr [0..<room] \<and>
       (if \<not> readopen (pipes s p) \<or> killed (ptable s ! i) then pipewrite p addr n s = Inr (-1, t)
        else pipewrite p addr n s = Inl (Swtch t) \<and> state (ptable t ! i) = SLEEPING \<and> wchan (ptable t ! i) = Some (ChanPipeW p))))"
proof -
  let ?bs = "map addr [0..<nat n]"
  obtain rest q where q: "pq.put_all ?bs (pipes s p) = (rest, q)" by fastforce
  have a: "pipe_bytes q = pipe_bytes (pipes s p) @ take room ?bs" "rest = drop room ?bs"
    using pq.put_all_abs [OF assms(2) q] by (simp_all add: room_def)
  note eq = pipewrite_eq [OF assms(1) q]
  have i: "i < length (ptable s)" by (rule at_procD [OF assms(1)])
  show ?thesis
  proof (intro conjI impI)
    assume "nat n \<le> room"
    then show "\<exists>t. pipewrite p addr n s = Inr (n, t) \<and> at_proc c i t \<and>
       pipe_bytes (pipes t p) = pipe_bytes (pipes s p) @ ?bs \<and>
       (\<forall>j < length (ptable t). \<not> (state (ptable t ! j) = SLEEPING \<and> wchan (ptable t ! j) = Some (ChanPipeR p)))"
      using a assms(1) by (simp add: eq wakeup1_nth)
  next
    assume "room < nat n"
    then have "rest \<noteq> []" "take room ?bs = map addr [0..<room]" using a(2) by (simp_all add: take_map)
    then show "\<exists>t. pipe_bytes (pipes t p) = pipe_bytes (pipes s p) @ map addr [0..<room] \<and>
       (if \<not> readopen (pipes s p) \<or> killed (ptable s ! i) then pipewrite p addr n s = Inr (-1, t)
        else pipewrite p addr n s = Inl (Swtch t) \<and> state (ptable t ! i) = SLEEPING \<and> wchan (ptable t ! i) = Some (ChanPipeW p))"
      using a(1) i by (cases "\<not> readopen (pipes s p) \<or> killed (ptable s ! i)") (auto simp: eq sleep_state_asleep)
  qed
qed

theorem pipewrite_outcome_witness:
  "\<exists>t. pipewrite 5 (\<lambda>_. 9) 600 demo_pipest = Inl (Swtch t) \<and> length (pipe_bytes (pipes t 5)) = 512"
proof -
  have "length (pipe_bytes (pipes demo_pipest 5)) = 2" "readopen (pipes demo_pipest 5)" "\<not> killed (ptable demo_pipest ! 0)"
    "pipe_ok (pipes demo_pipest 5)"
    using demo_pipest_ok by (simp_all add: demo_at_ok demo_proc_def) (simp add: demo_pipe_def)
  then show ?thesis using pipewrite_outcome [OF demo_pipest_ok(1), of 5 600 "\<lambda>_. 9"] by auto
qed

text \<open>C25. \<^verbatim>\<open>piperead\<close> takes the oldest bytes, as many as asked for and as there are, and leaves no writer asleep. From an empty
  pipe it answers \<open>0\<close> when the write end is closed; otherwise it fails if the process has been killed, and waits if not.\<close>

theorem piperead_outcome:
  assumes "at_proc c i s" and "pipe_ok (pipes s p)"
  shows "if pipe_bytes (pipes s p) = [] \<and> writeopen (pipes s p) then
      if killed (ptable s ! i) then piperead p n s = Inr ((-1, []), s)
      else \<exists>t. piperead p n s = Inl (Swtch t) \<and> state (ptable t ! i) = SLEEPING \<and> wchan (ptable t ! i) = Some (ChanPipeR p)
    else \<exists>t. piperead p n s = Inr ((int (min (nat n) (length (pipe_bytes (pipes s p)))), take (nat n) (pipe_bytes (pipes s p))), t) \<and>
      at_proc c i t \<and> pipe_bytes (pipes t p) = drop (nat n) (pipe_bytes (pipes s p)) \<and>
      (\<forall>j < length (ptable t). \<not> (state (ptable t ! j) = SLEEPING \<and> wchan (ptable t ! j) = Some (ChanPipeW p)))"
proof -
  obtain cs q where q: "pq.get_upto (nat n) (pipes s p) = (cs, q)" by fastforce
  note g = pq.get_upto_abs [OF assms(2) q]
  have eq: "piperead p n s = (if pipe_bytes (pipes s p) = [] \<and> writeopen (pipes s p) then
       if killed (ptable s ! i) then Inr ((-1, []), s)
       else Inl (Swtch (sleep_state c i (ChanPipeR p) (PipeLock p) s))
     else Inr ((int (length cs), cs), wakeup1 (Some (ChanPipeW p)) (upd_pipe p (\<lambda>_. q) s)))"
    using q pq.emp_iff [OF assms(2)]
    by (simp add: piperead_def acquire_at [OF assms(1)] piperead_loop_result [OF assms(1)])
  have i: "i < length (ptable s)" by (rule at_procD [OF assms(1)])
  show ?thesis unfolding eq using g i assms(1) by (simp add: sleep_state_asleep wakeup1_nth min.commute)
qed

theorem piperead_outcome_witness: "\<exists>t. piperead 5 100 demo_pipest = Inr ((2, [7, 8]), t) \<and> pipe_bytes (pipes t 5) = []"
proof -
  have "pipe_bytes (pipes demo_pipest 5) = [7, 8]" "pipe_ok (pipes demo_pipest 5)" using demo_pipest_ok by simp_all
  then show ?thesis using piperead_outcome [OF demo_pipest_ok(1), of 5 100] by auto
qed

end
