(* ===== verification/Sleeplock.thy ===== *)
theory Sleeplock
  imports Pipe
begin

section \<open>Sleep locks\<close>

text \<open>
  \<^verbatim>\<open>src/sleeplock.c\<close>. The sleep locks of the kernel are those of the disk buffers and of the in-memory inodes; \<open>slid\<close>
  names them, and \<open>sl_lk\<close> and \<open>sl_chan\<close> give the spin lock inside and the address that serves as sleep channel.
\<close>

datatype slid = BufSl nat | InodeSl nat

fun sl_lk :: "slid \<Rightarrow> lockid" where
  "sl_lk (BufSl k) = BufLk k"
| "sl_lk (InodeSl k) = InodeLk k"

fun sl_chan :: "slid \<Rightarrow> chan" where
  "sl_chan (BufSl k) = ChanBuf k"
| "sl_chan (InodeSl k) = ChanInode k"

record sleeplock =
  slocked :: bool
  slpid :: int

record sleepst = pipest +
  slocks :: "slid \<Rightarrow> sleeplock"

definition upd_sl :: "slid \<Rightarrow> sleeplock \<Rightarrow> 'a sleepst_scheme \<Rightarrow> 'a sleepst_scheme" where
  "upd_sl l x s = s\<lparr>slocks := (slocks s)(l := x)\<rparr>"

subsection \<open>Operations\<close>

definition initsleeplock :: "slid \<Rightarrow> 'a sleepst_scheme \<Rightarrow> 'a sleepst_scheme" where
  "initsleeplock l s = upd_sl l \<lparr>slocked = False, slpid = 0\<rparr> (initlock (sl_lk l) s)"

text \<open>The loop of \<^verbatim>\<open>acquiresleep\<close> and what follows it, with the spin lock held.\<close>

definition acquiresleep_loop :: "slid \<Rightarrow> 'a sleepst_scheme \<Rightarrow> 'a sleepst_scheme fault + 'a sleepst_scheme" where
  "acquiresleep_loop l s =
     (if slocked (slocks s l) then sleep (sl_chan l) (sl_lk l) s
      else
        let s = upd_sl l ((slocks s l)\<lparr>slocked := True\<rparr>) s in
        kbind (myproc s) (\<lambda>(p, s). deref p (\<lambda>i.
        let s = upd_sl l ((slocks s l)\<lparr>slpid := pid (ptable s ! i)\<rparr>) s in
        release (sl_lk l) s)))"

definition acquiresleep :: "slid \<Rightarrow> 'a sleepst_scheme \<Rightarrow> 'a sleepst_scheme fault + 'a sleepst_scheme" where
  "acquiresleep l s = kbind (acquire (sl_lk l) s) (acquiresleep_loop l)"

definition acquiresleep_resume ::
  "nat \<Rightarrow> bool \<Rightarrow> slid \<Rightarrow> 'a sleepst_scheme \<Rightarrow> 'a sleepst_scheme fault + 'a sleepst_scheme" where
  "acquiresleep_resume i intena_saved l s =
     kbind (sleep_resume i (sl_lk l) intena_saved s) (acquiresleep_loop l)"

definition releasesleep :: "slid \<Rightarrow> 'a sleepst_scheme \<Rightarrow> 'a sleepst_scheme fault + 'a sleepst_scheme" where
  "releasesleep l s =
     kbind (acquire (sl_lk l) s) (\<lambda>s.
     let s = upd_sl l \<lparr>slocked = False, slpid = 0\<rparr> s in
     kbind (wakeup (sl_chan l) s) (release (sl_lk l)))"

definition holdingsleep :: "slid \<Rightarrow> 'a sleepst_scheme \<Rightarrow> 'a sleepst_scheme fault + bool \<times> 'a sleepst_scheme" where
  "holdingsleep l s =
     kbind (acquire (sl_lk l) s) (\<lambda>s.
     let r = slocked (slocks s l) in
     kbind (release (sl_lk l) s) (\<lambda>s. Inr (r, s)))"

subsection \<open>Their results\<close>

lemma slocks_frame [simp]:
  "slocks (hold l c s) = slocks s" "slocks (unhold l c s) = slocks s" "slocks (wakeup1 ch s) = slocks s"
  "slocks (upd_proc j f s) = slocks s" "slocks (upd_pipe p g s) = slocks s"
  by (simp_all add: hold_def push_state_def unhold_def pop_state_def wakeup1_def upd_proc_def upd_pipe_def)

lemma slocks_sleep_state [simp]: "slocks (sleep_state c i ch l s) = slocks s"
  by (simp add: sleep_state_def)

lemma upd_sl_frame [simp]:
  "slocks (upd_sl l x s) = (slocks s)(l := x)" "ptable (upd_sl l x s) = ptable s" "pipes (upd_sl l x s) = pipes s"
  "at_proc c i (upd_sl l x s) = at_proc c i s" "upd_sl l y (upd_sl l x s) = upd_sl l y s"
  by (simp_all add: upd_sl_def at_proc_cong [of "s\<lparr>slocks := _\<rparr>" s])

lemma upd_sl_hold [simp]: "upd_sl l x (hold k c s) = hold k c (upd_sl l x s)"
  by (cases s) (simp add: upd_sl_def hold_def push_state_def)

lemma sl_lk_ptable [simp]: "sl_lk l \<noteq> PtableLock" "PtableLock \<noteq> sl_lk l"
  by (cases l; simp)+

lemma sleeplock_upd [simp]: "(x :: sleeplock)\<lparr>slocked := a, slpid := b\<rparr> = \<lparr>slocked = a, slpid = b\<rparr>"
  by (cases x) simp

lemma acquiresleep_loop_result [at_proc]:
  fixes s :: "'a sleepst_scheme"
  assumes "at_proc c i s"
  shows "acquiresleep_loop l (hold (sl_lk l) c s) =
    (if slocked (slocks s l) then Inl (Swtch (sleep_state c i (sl_chan l) (sl_lk l) s))
     else Inr (upd_sl l \<lparr>slocked = True, slpid = pid (ptable s ! i)\<rparr> s))"
  using assms by (simp add: acquiresleep_loop_def at_proc [of c i] deref_def Let_def)

lemma acquiresleep_at [at_proc]:
  fixes s :: "'a sleepst_scheme"
  assumes "at_proc c i s"
  shows "acquiresleep l s =
    (if slocked (slocks s l) then Inl (Swtch (sleep_state c i (sl_chan l) (sl_lk l) s))
     else Inr (upd_sl l \<lparr>slocked = True, slpid = pid (ptable s ! i)\<rparr> s))"
  using assms by (simp add: acquiresleep_def at_proc [of c i])

lemma releasesleep_at [at_proc]:
  assumes "at_proc c i s"
  shows "releasesleep l s = Inr (wakeup1 (Some (sl_chan l)) (upd_sl l \<lparr>slocked = False, slpid = 0\<rparr> s))"
  using assms by (simp add: releasesleep_def Let_def at_proc [of c i])

lemma holdingsleep_at [at_proc]:
  assumes "at_proc c i s"
  shows "holdingsleep l s = Inr (slocked (slocks s l), s)"
  using assms by (simp add: holdingsleep_def Let_def at_proc [of c i])

subsection \<open>Properties\<close>

text \<open>C22. Hand-over of a sleep lock. A process that asks for a free lock gets it, with its pid recorded; one that asks for a taken
  lock goes to sleep on it without changing it. \<^verbatim>\<open>releasesleep\<close> frees the lock and leaves nobody asleep on it, so that a process
  that runs again then takes the lock, and if another has been faster, waits again.\<close>

theorem sleeplock_handover:
  fixes s :: "'a sleepst_scheme"
  assumes "at_proc c i s"
  shows "(\<not> slocked (slocks s l) \<longrightarrow> (\<exists>t. acquiresleep l s = Inr t \<and> at_proc c i t \<and>
        slocks t = (slocks s)(l := \<lparr>slocked = True, slpid = pid (ptable s ! i)\<rparr>))) \<and>
    (slocked (slocks s l) \<longrightarrow> (\<exists>t. acquiresleep l s = Inl (Swtch t) \<and> slocks t = slocks s \<and>
        state (ptable t ! i) = SLEEPING \<and> wchan (ptable t ! i) = Some (sl_chan l))) \<and>
    (\<exists>t. releasesleep l s = Inr t \<and> at_proc c i t \<and> \<not> slocked (slocks t l) \<and>
        (\<forall>j < length (ptable t). \<not> (state (ptable t ! j) = SLEEPING \<and> wchan (ptable t ! j) = Some (sl_chan l)))) \<and>
    (if slocked (slocks s l) then \<exists>t. acquiresleep_resume i (intena (cpus s ! c)) l (hold PtableLock c s) = Inl (Swtch t)
     else \<exists>t. acquiresleep_resume i (intena (cpus s ! c)) l (hold PtableLock c s) = Inr t \<and> slocked (slocks t l))"
  using assms at_procD(5) [OF assms]
  by (auto simp: at_proc [of c i] sleep_state_asleep wakeup1_nth acquiresleep_resume_def sleep_resume_at [OF assms])

definition demo_sleepst :: sleepst where
  "demo_sleepst = pipest.extend demo_pipest (sleepst.fields (\<lambda>_. \<lparr>slocked = False, slpid = 0\<rparr>))"

lemma demo_sleepst_ok: "at_proc 0 0 demo_sleepst" "slocks demo_sleepst = (\<lambda>_. \<lparr>slocked = False, slpid = 0\<rparr>)"
  "ptable demo_sleepst = ptable demo_at"
  using demo_pipest_ok by (simp_all add: demo_sleepst_def) (simp add: pipest.defs sleepst.defs)

theorem sleeplock_handover_witness:
  "\<exists>t u. acquiresleep (BufSl 3) demo_sleepst = Inr t \<and> slpid (slocks t (BufSl 3)) = 1 \<and> acquiresleep (BufSl 3) t = Inl (Swtch u)"
proof -
  obtain t where t: "acquiresleep (BufSl 3) demo_sleepst = Inr t" "at_proc 0 0 t" "slpid (slocks t (BufSl 3)) = 1"
      "slocked (slocks t (BufSl 3))"
    using sleeplock_handover [OF demo_sleepst_ok(1), of "BufSl 3"] demo_sleepst_ok(2,3) by (auto simp: demo_at_ok demo_proc_def)
  moreover obtain u where "acquiresleep (BufSl 3) t = Inl (Swtch u)"
    using sleeplock_handover [OF t(2), of "BufSl 3"] t(4) by auto
  ultimately show ?thesis by blast
qed

end
