(* ===== verification/Bio.thy ===== *)
theory Bio
  imports Sleeplock
begin

section \<open>The disk and the buffer cache\<close>

text \<open>
  \<^verbatim>\<open>src/bio.c\<close> on the in-memory disk of \<^verbatim>\<open>src/memide.c\<close>, as in the \<^verbatim>\<open>kernelmemfs\<close> build. A buffer is named by its index in
  \<^verbatim>\<open>bcache.buf\<close>, and the sentinel \<^verbatim>\<open>bcache.head\<close> by the index \<open>NBUF\<close>; \<open>bnext\<close> and \<open>bprev\<close> are the \<^verbatim>\<open>next\<close> and \<^verbatim>\<open>prev\<close> pointers
  of the ring. \<open>bvalid\<close> and \<open>bdirty\<close> are the bits \<^verbatim>\<open>B_VALID\<close> and \<^verbatim>\<open>B_DIRTY\<close> of \<^verbatim>\<open>flags\<close>. The disk is an array of blocks;
  \<open>dtrace\<close> is the history of the writes to it, which the code does not see.
\<close>

abbreviation (input) NBUF :: nat where "NBUF \<equiv> 30"
abbreviation (input) BSIZE :: nat where "BSIZE \<equiv> 512"

record buf =
  bvalid :: bool
  bdirty :: bool
  bdev :: u32
  blockno :: u32
  refcnt :: u32
  bdata :: "u8 list"

record bcachest = sleepst +
  bufs :: "buf list"
  bnext :: "nat list"
  bprev :: "nat list"
  disk :: "u32 \<Rightarrow> u8 list"
  disksize :: u32
  dtrace :: "(u32 \<times> u8 list) list"

definition upd_buf :: "nat \<Rightarrow> (buf \<Rightarrow> buf) \<Rightarrow> 'a bcachest_scheme \<Rightarrow> 'a bcachest_scheme" where
  "upd_buf k f s = s\<lparr>bufs := (bufs s)[k := f (bufs s ! k)]\<rparr>"

subsection \<open>The in-memory disk\<close>

definition iderw :: "nat \<Rightarrow> 'a bcachest_scheme \<Rightarrow> 'a bcachest_scheme fault + 'a bcachest_scheme" where
  "iderw b s =
     kbind (holdingsleep (BufSl b) s) (\<lambda>(h, s).
     let x = bufs s ! b in
     if \<not> h then Inl (Panic ''iderw: buf not locked'')
     else if bvalid x \<and> \<not> bdirty x then Inl (Panic ''iderw: nothing to do'')
     else if bdev x \<noteq> 1 then Inl (Panic ''iderw: request not for disk 1'')
     else if blockno x \<ge> disksize s then Inl (Panic ''iderw: block out of range'')
     else
       let s = (if bdirty x
          then (upd_buf b (\<lambda>x. x\<lparr>bdirty := False\<rparr>) s)\<lparr>disk := (disk s)(blockno x := bdata x),
                 dtrace := dtrace s @ [(blockno x, bdata x)]\<rparr>
          else upd_buf b (\<lambda>y. y\<lparr>bdata := disk s (blockno x)\<rparr>) s) in
       Inr (upd_buf b (\<lambda>x. x\<lparr>bvalid := True\<rparr>) s))"

subsection \<open>The cache\<close>

text \<open>Buffer \<open>b\<close> comes right after the head of the ring.\<close>

definition ring_insert :: "nat \<Rightarrow> nat list \<times> nat list \<Rightarrow> nat list \<times> nat list" where
  "ring_insert b = (\<lambda>(nx, pv).
     let nx = nx[b := nx ! NBUF];
         pv = pv[b := NBUF];
         pv = pv[nx ! NBUF := b];
         nx = nx[NBUF := b] in
     (nx, pv))"

definition ring_remove :: "nat \<Rightarrow> nat list \<times> nat list \<Rightarrow> nat list \<times> nat list" where
  "ring_remove b = (\<lambda>(nx, pv).
     let pv = pv[nx ! b := pv ! b];
         nx = nx[pv ! b := nx ! b] in
     (nx, pv))"

definition set_ring :: "nat list \<times> nat list \<Rightarrow> 'a bcachest_scheme \<Rightarrow> 'a bcachest_scheme" where
  "set_ring = (\<lambda>(nx, pv) s. s\<lparr>bnext := nx, bprev := pv\<rparr>)"

primrec binit_loop :: "nat list \<Rightarrow> 'a bcachest_scheme \<Rightarrow> 'a bcachest_scheme" where
  "binit_loop [] s = s"
| "binit_loop (b # bs) s =
     binit_loop bs (initsleeplock (BufSl b) (set_ring (ring_insert b (bnext s, bprev s)) s))"

definition binit :: "'a bcachest_scheme \<Rightarrow> 'a bcachest_scheme" where
  "binit s =
     (let s = initlock BcacheLock s;
          s = set_ring ((bnext s)[NBUF := NBUF], (bprev s)[NBUF := NBUF]) s in
      binit_loop [0..<NBUF] s)"

text \<open>Following the pointers of the ring from \<open>b\<close> to a buffer that satisfies \<open>P\<close> or back to the head; \<open>None\<close> when
  neither is ever reached.\<close>

partial_function (option) bscan :: "(buf \<Rightarrow> bool) \<Rightarrow> buf list \<Rightarrow> nat list \<Rightarrow> nat \<Rightarrow> nat option option" where
  "bscan P bs link b =
     (if b = NBUF then Some None
      else if P (bs ! b) then Some (Some b)
      else bscan P bs link (link ! b))"

definition bget :: "u32 \<Rightarrow> u32 \<Rightarrow> 'a bcachest_scheme \<Rightarrow> 'a bcachest_scheme fault + nat \<times> 'a bcachest_scheme" where
  "bget dev no s =
     kbind (acquire BcacheLock s) (\<lambda>s.
     case bscan (\<lambda>x. bdev x = dev \<and> blockno x = no) (bufs s) (bnext s) (bnext s ! NBUF) of
       None \<Rightarrow> Inl Wrapped
     | Some (Some b) \<Rightarrow>
         let s = upd_buf b (\<lambda>x. x\<lparr>refcnt := refcnt x + 1\<rparr>) s in
         kbind (release BcacheLock s) (\<lambda>s.
         kbind (acquiresleep (BufSl b) s) (\<lambda>s. Inr (b, s)))
     | Some None \<Rightarrow>
         (case bscan (\<lambda>x. refcnt x = 0 \<and> \<not> bdirty x) (bufs s) (bprev s) (bprev s ! NBUF) of
            None \<Rightarrow> Inl Wrapped
          | Some (Some b) \<Rightarrow>
              let s = upd_buf b (\<lambda>x. x\<lparr>bdev := dev, blockno := no, bvalid := False, bdirty := False, refcnt := 1\<rparr>) s in
              kbind (release BcacheLock s) (\<lambda>s.
              kbind (acquiresleep (BufSl b) s) (\<lambda>s. Inr (b, s)))
          | Some None \<Rightarrow> Inl (Panic ''bget: no buffers'')))"

definition bread :: "u32 \<Rightarrow> u32 \<Rightarrow> 'a bcachest_scheme \<Rightarrow> 'a bcachest_scheme fault + nat \<times> 'a bcachest_scheme" where
  "bread dev no s =
     kbind (bget dev no s) (\<lambda>(b, s).
     kbind (if \<not> bvalid (bufs s ! b) then iderw b s else Inr s) (\<lambda>s. Inr (b, s)))"

definition bwrite :: "nat \<Rightarrow> 'a bcachest_scheme \<Rightarrow> 'a bcachest_scheme fault + 'a bcachest_scheme" where
  "bwrite b s =
     kbind (holdingsleep (BufSl b) s) (\<lambda>(h, s).
     if \<not> h then Inl (Panic ''bwrite'')
     else iderw b (upd_buf b (\<lambda>x. x\<lparr>bdirty := True\<rparr>) s))"

definition brelse :: "nat \<Rightarrow> 'a bcachest_scheme \<Rightarrow> 'a bcachest_scheme fault + 'a bcachest_scheme" where
  "brelse b s =
     kbind (holdingsleep (BufSl b) s) (\<lambda>(h, s).
     if \<not> h then Inl (Panic ''brelse'')
     else
       kbind (releasesleep (BufSl b) s) (\<lambda>s.
       kbind (acquire BcacheLock s) (\<lambda>s.
       let s = upd_buf b (\<lambda>x. x\<lparr>refcnt := refcnt x - 1\<rparr>) s;
           s = (if refcnt (bufs s ! b) = 0
                then set_ring (ring_insert b (ring_remove b (bnext s, bprev s))) s else s) in
       release BcacheLock s)))"

subsection \<open>The ring\<close>

text \<open>Consecutive elements of the list are linked both ways.\<close>

fun linked :: "nat list \<Rightarrow> nat list \<Rightarrow> nat list \<Rightarrow> bool" where
  "linked nx pv (a # b # r) \<longleftrightarrow> nx ! a = b \<and> pv ! b = a \<and> linked nx pv (b # r)"
| "linked nx pv _ \<longleftrightarrow> True"

lemma linked_append: "linked nx pv (xs @ a # ys) \<longleftrightarrow> linked nx pv (xs @ [a]) \<and> linked nx pv (a # ys)"
proof (induction xs)
  case (Cons x xs)
  then show ?case by (cases xs; cases ys) auto
qed simp

lemma linked_upd_next: "x \<notin> set (butlast ys) \<Longrightarrow> linked (nx[x := v]) pv ys = linked nx pv ys"
  by (induction "nx[x := v]" pv ys rule: linked.induct) auto

lemma linked_upd_prev: "x \<notin> set (tl ys) \<Longrightarrow> linked nx (pv[x := v]) ys = linked nx pv ys"
  by (induction nx "pv[x := v]" ys rule: linked.induct) auto

text \<open>The list \<open>xs\<close> of the buffers in the order of the \<^verbatim>\<open>next\<close> pointers, from the head on.\<close>

definition ring_ok :: "nat list \<times> nat list \<Rightarrow> nat list \<Rightarrow> bool" where
  "ring_ok r xs \<longleftrightarrow> length (fst r) = Suc NBUF \<and> length (snd r) = Suc NBUF \<and> distinct xs \<and> set xs \<subseteq> {..<NBUF} \<and>
     linked (fst r) (snd r) (NBUF # xs @ [NBUF])"

lemma ring_insert_ok:
  assumes "ring_ok r xs" and "b < NBUF" and "b \<notin> set xs"
  shows "ring_ok (ring_insert b r) (b # xs)"
proof -
  obtain nx pv where r: "r = (nx, pv)" by fastforce
  let ?h = "30 :: nat"
  obtain f ys where f: "xs @ [?h] = f # ys" by (cases xs) auto
  have D: "length nx = 31" "length pv = 31" "distinct xs" "set xs \<subseteq> {..<?h}" "linked nx pv (?h # xs @ [?h])"
    using assms(1) by (simp_all add: ring_ok_def r)
  have nf: "nx ! ?h = f" and lf: "linked nx pv (f # ys)" using D(5) f by simp_all
  have mem: "set (f # ys) = insert ?h (set xs)" unfolding f [symmetric] by auto
  have "b \<notin> insert ?h (set xs)" "\<forall>x \<in> insert ?h (set xs). x < 31" using D(4) assms(2,3) by auto
  then have fr: "f \<noteq> b" "f < 31" "b \<notin> set ys" "b \<noteq> ?h" unfolding mem [symmetric] using assms(2) by auto
  have ft: "f \<notin> set ys"
  proof -
    have "distinct (f # ys)" unfolding f [symmetric] using D(3,4) by auto
    then show ?thesis by simp
  qed
  have hb: "?h \<notin> set (butlast (f # ys))" unfolding f [symmetric] using D(4) by auto
  have bb: "b \<notin> set (butlast (f # ys))" using fr by (auto dest: in_set_butlastD)
  have "ring_insert b r = (nx[b := f, ?h := b], pv[b := ?h, f := b])"
    using fr D(1) nf by (simp add: ring_insert_def r Let_def)
  moreover have "linked (nx[b := f, ?h := b]) (pv[b := ?h, f := b]) (f # ys)"
    using lf hb bb ft fr by (simp add: linked_upd_next linked_upd_prev)
  moreover have "b # xs @ [?h] = b # f # ys" using f by simp
  ultimately show ?thesis
    using D assms(2,3) fr by (simp add: ring_ok_def r)
qed

lemma ring_remove_ok:
  assumes "ring_ok r (xs @ b # ys)"
  shows "ring_ok (ring_remove b r) (xs @ ys)"
proof -
  obtain nx pv where r: "r = (nx, pv)" by fastforce
  let ?h = "30 :: nat"
  obtain ps p where p: "?h # xs = ps @ [p]" by (metis append_butlast_last_id list.distinct(1))
  obtain n ns where n: "ys @ [?h] = n # ns" by (cases ys) auto
  have D: "length nx = 31" "length pv = 31" "distinct (xs @ b # ys)" "set (xs @ b # ys) \<subseteq> {..<?h}"
    using assms by (simp_all add: ring_ok_def r)
  have L: "linked nx pv (ps @ p # b # n # ns)"
  proof -
    have "?h # (xs @ b # ys) @ [?h] = ps @ p # b # n # ns" using p n by simp
    then show ?thesis using assms by (simp add: ring_ok_def r)
  qed
  then have l: "linked nx pv (ps @ [p])" "nx ! p = b" "pv ! b = p" "nx ! b = n" "pv ! n = b" "linked nx pv (n # ns)"
    using linked_append [of nx pv ps p "b # n # ns"] by simp_all
  have pm: "p \<in> insert ?h (set xs)" using p by (metis in_set_conv_decomp list.simps(15))
  have nm: "n \<in> insert ?h (set ys)" using n by (metis Un_insert_right list.set_intros(1) list.simps(15) set_append set_empty sup_bot_right)
  have bp: "b \<noteq> n" "b \<noteq> p" using pm nm D(3,4) by auto
  have "distinct (?h # xs)" "distinct (ys @ [?h])" using D(3,4) by auto
  then have "p \<notin> set ps" "n \<notin> set ns" unfolding p n by simp_all
  moreover have "n \<notin> set (tl (ps @ [p]))" unfolding p [symmetric] using nm D(3,4) by auto
  moreover have "p \<notin> set (butlast (n # ns))" unfolding n [symmetric] using pm D(3,4) by auto
  ultimately have 1: "linked (nx[p := n]) (pv[n := p]) (ps @ [p])" and 2: "linked (nx[p := n]) (pv[n := p]) (n # ns)"
    using l(1,6) by (simp_all add: linked_upd_next linked_upd_prev)
  have "ring_remove b r = (nx[p := n], pv[n := p])" using l bp by (simp add: ring_remove_def r Let_def)
  moreover have "linked (nx[p := n]) (pv[n := p]) (?h # (xs @ ys) @ [?h])"
  proof -
    have "?h # (xs @ ys) @ [?h] = ps @ p # n # ns" using p n by simp
    moreover have "p < 31" "n < 31" using pm nm D(4) by auto
    with 2 D(1,2) have "linked (nx[p := n]) (pv[n := p]) (p # n # ns)" by simp
    ultimately show ?thesis using 1 linked_append [of _ _ ps p "n # ns"] by metis
  qed
  ultimately show ?thesis using D by (auto simp: ring_ok_def r)
qed

lemma linked_rev: "linked pv nx (rev xs) = linked nx pv xs"
proof (induction nx pv xs rule: linked.induct)
  case (1 nx pv a b r)
  then show ?case using linked_append [of pv nx "rev r" b "[a]"] by auto
qed simp_all

lemma bscan_linked:
  assumes "linked nx pv (ys @ [NBUF])" and "NBUF \<notin> set ys"
  shows "bscan P bs nx (hd (ys @ [NBUF])) = Some (find (\<lambda>b. P (bs ! b)) ys)"
  using assms
proof (induction ys)
  case Nil
  then show ?case by (simp add: bscan.simps [of P bs nx NBUF])
next
  case (Cons y ys)
  have "linked nx pv (ys @ [NBUF])" "nx ! y = hd (ys @ [NBUF])" using Cons.prems(1) by (cases ys; simp)+
  with Cons show ?case by (simp add: bscan.simps [of P bs nx y])
qed

lemma bscan_ring:
  assumes "ring_ok (nx, pv) xs"
  shows "bscan P bs nx (nx ! NBUF) = Some (find (\<lambda>b. P (bs ! b)) xs)"
    and "bscan P bs pv (pv ! NBUF) = Some (find (\<lambda>b. P (bs ! b)) (rev xs))"
proof -
  have l: "linked nx pv (30 # xs @ [30])" and h: "30 \<notin> set xs" using assms by (auto simp: ring_ok_def)
  have "linked nx pv (xs @ [30])" "nx ! 30 = hd (xs @ [30])" using l by (cases xs; simp)+
  with bscan_linked [OF _ h] show "bscan P bs nx (nx ! NBUF) = Some (find (\<lambda>b. P (bs ! b)) xs)" by simp
  have "linked pv nx (rev (30 # xs @ [30]))" using l by (simp only: linked_rev)
  then have r: "linked pv nx (30 # rev xs @ [30])" by simp
  have "linked pv nx (rev xs @ [30])" "pv ! 30 = hd (rev xs @ [30])" using r by (cases "rev xs"; simp)+
  with bscan_linked [of pv nx "rev xs"] h show "bscan P bs pv (pv ! NBUF) = Some (find (\<lambda>b. P (bs ! b)) (rev xs))" by simp
qed

subsection \<open>Frames\<close>

lemma bufs_frame [simp]:
  "bufs (hold l c s) = bufs s" "bufs (wakeup1 ch s) = bufs s" "bufs (upd_sl k x s) = bufs s" "bufs (upd_proc j f s) = bufs s"
  "bnext (hold l c s) = bnext s" "bnext (wakeup1 ch s) = bnext s" "bnext (upd_sl k x s) = bnext s" "bnext (upd_proc j f s) = bnext s"
  "bprev (hold l c s) = bprev s" "bprev (wakeup1 ch s) = bprev s" "bprev (upd_sl k x s) = bprev s" "bprev (upd_proc j f s) = bprev s"
  "disk (hold l c s) = disk s" "disk (wakeup1 ch s) = disk s" "disk (upd_sl k x s) = disk s" "disk (upd_proc j f s) = disk s"
  "disksize (hold l c s) = disksize s" "disksize (wakeup1 ch s) = disksize s" "disksize (upd_sl k x s) = disksize s"
  "disksize (upd_proc j f s) = disksize s"
  "dtrace (hold l c s) = dtrace s" "dtrace (wakeup1 ch s) = dtrace s" "dtrace (upd_sl k x s) = dtrace s"
  "dtrace (upd_proc j f s) = dtrace s"
  "bcachest.more (hold l c s) = bcachest.more s" "bcachest.more (wakeup1 ch s) = bcachest.more s"
  "bcachest.more (upd_sl k x s) = bcachest.more s" "bcachest.more (upd_proc j f s) = bcachest.more s"
  by (cases s; simp add: hold_def push_state_def wakeup1_def upd_sl_def upd_proc_def)+

lemma upd_buf_frame [simp]:
  "bufs (upd_buf k f s) = (bufs s)[k := f (bufs s ! k)]" "bnext (upd_buf k f s) = bnext s" "bprev (upd_buf k f s) = bprev s"
  "disk (upd_buf k f s) = disk s" "disksize (upd_buf k f s) = disksize s" "dtrace (upd_buf k f s) = dtrace s"
  "slocks (upd_buf k f s) = slocks s" "ptable (upd_buf k f s) = ptable s" "pipes (upd_buf k f s) = pipes s"
  "bcachest.more (upd_buf k f s) = bcachest.more s" "at_proc c i (upd_buf k f s) = at_proc c i s"
  "upd_buf k f (hold l c s) = hold l c (upd_buf k f s)"
  by (simp_all add: upd_buf_def at_proc_cong [of "s\<lparr>bufs := _\<rparr>" s]) (cases s, simp add: hold_def push_state_def)

lemma set_ring_frame [simp]:
  "bufs (set_ring r s) = bufs s" "bnext (set_ring r s) = fst r" "bprev (set_ring r s) = snd r"
  "disk (set_ring r s) = disk s" "disksize (set_ring r s) = disksize s" "dtrace (set_ring r s) = dtrace s"
  "slocks (set_ring r s) = slocks s" "ptable (set_ring r s) = ptable s" "pipes (set_ring r s) = pipes s"
  "bcachest.more (set_ring r s) = bcachest.more s" "at_proc c i (set_ring r s) = at_proc c i s"
  "set_ring r (hold l c s) = hold l c (set_ring r s)"
  by (simp_all add: set_ring_def split_beta at_proc_cong [of "s\<lparr>bnext := _, bprev := _\<rparr>" s])
     (cases s, simp add: hold_def push_state_def)

lemma disk_upd_frame [simp]:
  "slocks (s\<lparr>disk := d, dtrace := w\<rparr>) = slocks s" "at_proc c i (s\<lparr>disk := d, dtrace := w\<rparr>) = at_proc c i s"
  by (simp_all add: at_proc_cong [of "s\<lparr>disk := _, dtrace := _\<rparr>" s])

subsection \<open>The operations of one process\<close>

text \<open>The cache while one process at a time uses the file system: a buffer is referenced when that process holds it, no block
  is cached twice, and a valid buffer that nobody holds and the log has not pinned agrees with the disk.\<close>

definition held :: "'a bcachest_scheme \<Rightarrow> nat set" where
  "held s = {k. k < NBUF \<and> refcnt (bufs s ! k) \<noteq> 0}"

definition buf_ok :: "'a bcachest_scheme \<Rightarrow> nat \<Rightarrow> bool" where
  "buf_ok s k \<longleftrightarrow> (let x = bufs s ! k in length (bdata x) = BSIZE \<and> (refcnt x = 0 \<or> refcnt x = 1) \<and>
     slocked (slocks s (BufSl k)) = (refcnt x = 1) \<and> (bdirty x \<or> refcnt x = 1 \<longrightarrow> bvalid x) \<and>
     (bvalid x \<longrightarrow> bdev x = 1 \<and> blockno x < disksize s) \<and>
     (bvalid x \<and> \<not> bdirty x \<and> refcnt x = 0 \<longrightarrow> bdata x = disk s (blockno x)))"

definition bcache_ok :: "'a bcachest_scheme \<Rightarrow> bool" where
  "bcache_ok s \<longleftrightarrow> length (bufs s) = NBUF \<and> (\<exists>xs. ring_ok (bnext s, bprev s) xs \<and> set xs = {..<NBUF}) \<and>
     (\<forall>k < NBUF. buf_ok s k) \<and>
     (\<forall>j < NBUF. \<forall>k < NBUF. bdev (bufs s ! j) = 1 \<longrightarrow> bdev (bufs s ! k) = 1 \<longrightarrow> blockno (bufs s ! j) = blockno (bufs s ! k) \<longrightarrow> j = k) \<and>
     (\<forall>b. length (disk s b) = BSIZE)"

text \<open>The contents of a block as the file system sees it: cached, or on the disk.\<close>

definition cached :: "'a bcachest_scheme \<Rightarrow> u32 \<Rightarrow> nat option" where
  "cached s b = find_idx (\<lambda>x. bvalid x \<and> bdev x = 1 \<and> blockno x = b) (bufs s)"

definition bview :: "'a bcachest_scheme \<Rightarrow> u32 \<Rightarrow> u8 list" where
  "bview s b = (case cached s b of Some k \<Rightarrow> bdata (bufs s ! k) | None \<Rightarrow> disk s b)"

definition pinned :: "'a bcachest_scheme \<Rightarrow> u32 set" where
  "pinned s = {blockno (bufs s ! k) | k. k < NBUF \<and> bdirty (bufs s ! k)}"

definition bio :: "nat \<Rightarrow> nat \<Rightarrow> 'a bcachest_scheme \<Rightarrow> bool" where
  "bio c i s \<longleftrightarrow> at_proc c i s \<and> bcache_ok s"

definition bkeep :: "'a bcachest_scheme \<Rightarrow> 'a bcachest_scheme \<Rightarrow> bool" where
  "bkeep s t \<longleftrightarrow> disksize t = disksize s \<and> bcachest.more t = bcachest.more s \<and> same_procs s t \<and> pipes t = pipes s"

lemma bkeep_refl [simp]: "bkeep s s"
  by (simp add: bkeep_def)

lemma bkeep_trans [trans]: "bkeep s t \<Longrightarrow> bkeep t u \<Longrightarrow> bkeep s u"
  using same_procs_trans [of s t u] by (simp add: bkeep_def)

lemma view_cong:
  assumes "bufs t = bufs s" and "disk t = disk s"
  shows "bview t = bview s" "held t = held s" "pinned t = pinned s"
  using assms by (auto simp: bview_def cached_def held_def pinned_def fun_eq_iff split: option.splits)

lemma bcache_ok_cong:
  assumes "bufs t = bufs s" and "disk t = disk s" and "bnext t = bnext s" and "bprev t = bprev s" and "disksize t = disksize s"
    and "slocks t = slocks s"
  shows "bcache_ok t = bcache_ok s"
  using assms by (simp add: bcache_ok_def buf_ok_def)

lemma bcache_okD:
  assumes "bcache_ok s"
  shows "length (bufs s) = NBUF" "\<exists>xs. ring_ok (bnext s, bprev s) xs \<and> set xs = {..<NBUF}" "k < NBUF \<Longrightarrow> buf_ok s k"
    "j < NBUF \<Longrightarrow> k < NBUF \<Longrightarrow> bdev (bufs s ! j) = 1 \<Longrightarrow> bdev (bufs s ! k) = 1 \<Longrightarrow>
      blockno (bufs s ! j) = blockno (bufs s ! k) \<Longrightarrow> j = k"
    "length (disk s b) = BSIZE"
  using assms unfolding bcache_ok_def by blast+

lemma buf_okD:
  assumes "buf_ok s k"
  shows "length (bdata (bufs s ! k)) = BSIZE" "refcnt (bufs s ! k) = 0 \<or> refcnt (bufs s ! k) = 1"
    "slocked (slocks s (BufSl k)) = (refcnt (bufs s ! k) = 1)" "bdirty (bufs s ! k) \<Longrightarrow> bvalid (bufs s ! k)"
    "refcnt (bufs s ! k) = 1 \<Longrightarrow> bvalid (bufs s ! k)"
    "bvalid (bufs s ! k) \<Longrightarrow> bdev (bufs s ! k) = 1" "bvalid (bufs s ! k) \<Longrightarrow> blockno (bufs s ! k) < disksize s"
    "bvalid (bufs s ! k) \<Longrightarrow> \<not> bdirty (bufs s ! k) \<Longrightarrow> refcnt (bufs s ! k) = 0 \<Longrightarrow> bdata (bufs s ! k) = disk s (blockno (bufs s ! k))"
  using assms unfolding buf_ok_def Let_def by blast+

lemma cached_eq:
  assumes "bcache_ok s" and "k < NBUF" and "bvalid (bufs s ! k)" and "blockno (bufs s ! k) = b"
  shows "cached s b = Some k"
proof -
  note D = bcache_okD [OF assms(1)]
  have dev: "bdev (bufs s ! k) = 1" using buf_okD(6) [OF D(3) [OF assms(2)]] assms(3) by blast
  have "\<not> (bvalid (bufs s ! j) \<and> bdev (bufs s ! j) = 1 \<and> blockno (bufs s ! j) = b)" if "j < k" for j
    using D(4) [of j k] that assms dev by auto
  then show ?thesis using assms dev D(1) by (simp add: cached_def find_idx_Some_iff)
qed

lemma cached_SomeD:
  assumes "bcache_ok s" and "cached s b = Some k"
  shows "k < NBUF" "bvalid (bufs s ! k)" "bdev (bufs s ! k) = 1" "blockno (bufs s ! k) = b"
  using find_idx_SomeD [of _ "bufs s" k] assms bcache_okD(1) [OF assms(1)] by (auto simp: cached_def)

lemma bview_buf: "bcache_ok s \<Longrightarrow> k < NBUF \<Longrightarrow> bvalid (bufs s ! k) \<Longrightarrow> bview s (blockno (bufs s ! k)) = bdata (bufs s ! k)"
  by (simp add: bview_def cached_eq)

lemma bview_length: "bcache_ok s \<Longrightarrow> length (bview s b) = BSIZE"
  using cached_SomeD(1) [of s b] buf_okD(1) [OF bcache_okD(3)] bcache_okD(5) [of s b]
  by (auto simp: bview_def split: option.splits)

text \<open>One buffer changes; what keeps the cache in order.\<close>

lemma bcache_ok_upd:
  assumes ok: "bcache_ok s" and k: "k < NBUF"
    and bufs: "bufs t = (bufs s)[k := x]" and sl: "\<forall>j. j \<noteq> k \<longrightarrow> slocks t (BufSl j) = slocks s (BufSl j)"
    and ring: "\<exists>xs. ring_ok (bnext t, bprev t) xs \<and> set xs = {..<NBUF}" and ds: "disksize t = disksize s"
    and disk: "\<forall>b. length (disk t b) = BSIZE"
      "\<forall>j < NBUF. j \<noteq> k \<longrightarrow> bvalid (bufs s ! j) \<longrightarrow> disk t (blockno (bufs s ! j)) = disk s (blockno (bufs s ! j))"
    and this_ok: "buf_ok t k"
    and uniq: "bdev x = 1 \<longrightarrow> (\<forall>j < NBUF. j \<noteq> k \<longrightarrow> bdev (bufs s ! j) = 1 \<longrightarrow> blockno (bufs s ! j) \<noteq> blockno x)"
  shows "bcache_ok t"
proof -
  note D = bcache_okD [OF ok]
  have other: "bufs t ! j = bufs s ! j" if "j \<noteq> k" for j using that bufs by simp
  have at_k: "bufs t ! k = x" using bufs k D(1) by simp
  have "buf_ok t j" if "j < NBUF" for j
  proof (cases "j = k")
    case False
    then show ?thesis
      using D(3) [OF that] sl disk(2) ds that unfolding buf_ok_def Let_def other [OF False] by auto
  qed (use this_ok in simp)
  moreover have "j = l" if "j < NBUF" "l < NBUF" "bdev (bufs t ! j) = 1" "bdev (bufs t ! l) = 1"
      "blockno (bufs t ! j) = blockno (bufs t ! l)" for j l
    using that uniq D(4) [of j l] at_k other by metis
  ultimately show ?thesis using D(1) bufs ring disk(1) unfolding bcache_ok_def by simp
qed

lemma bview_upd:
  assumes "bcache_ok s" and "bcache_ok t" and "k < NBUF" and "bufs t = (bufs s)[k := x]" and "bvalid x"
    and "bvalid (bufs s ! k) \<longrightarrow> blockno (bufs s ! k) = blockno x \<or> bdata (bufs s ! k) = disk t (blockno (bufs s ! k))"
    and "\<forall>b. b \<noteq> blockno x \<longrightarrow> disk t b = disk s b"
  shows "bview t = (bview s)(blockno x := bdata x)"
proof
  fix b
  have at_k: "bufs t ! k = x" using assms(3,4) bcache_okD(1) [OF assms(1)] by simp
  show "bview t b = ((bview s)(blockno x := bdata x)) b"
  proof (cases "b = blockno x")
    case True
    then show ?thesis using bview_buf [OF assms(2,3)] assms(5) at_k by simp
  next
    case ne: False
    show ?thesis
    proof (cases "cached t b")
      case (Some j)
      note J = cached_SomeD [OF assms(2) Some]
      have "j \<noteq> k" using J(4) at_k ne by auto
      then have "bufs t ! j = bufs s ! j" using assms(4) by simp
      then show ?thesis using J bview_buf [OF assms(1) J(1)] Some ne by (simp add: bview_def)
    next
      case None
      show ?thesis
      proof (cases "cached s b")
        case (Some j)
        note J = cached_SomeD [OF assms(1) Some]
        have "j = k"
        proof (rule ccontr)
          assume "j \<noteq> k"
          then have "bufs t ! j = bufs s ! j" using assms(4) by simp
          then have "cached t b = Some j" using cached_eq [OF assms(2) J(1)] J by simp
          with None show False by simp
        qed
        then have "bdata (bufs s ! j) = disk t b" using assms(6) J ne by auto
        then show ?thesis using None Some ne by (simp add: bview_def)
      next
        case None2: None
        then show ?thesis using None assms(7) ne by (simp add: bview_def)
      qed
    qed
  qed
qed

text \<open>\<^verbatim>\<open>bread\<close> of a block that the process does not hold.\<close>

lemma find_free:
  assumes "bcache_ok s" and "card (held s) + card (pinned s) < NBUF"
  shows "\<exists>k < NBUF. refcnt (bufs s ! k) = 0 \<and> \<not> bdirty (bufs s ! k)"
proof (rule ccontr)
  assume no: "\<not> ?thesis"
  let ?D = "{k. k < NBUF \<and> bdirty (bufs s ! k)}"
  have "{..<NBUF} \<subseteq> held s \<union> ?D" using no by (auto simp: held_def)
  then have "NBUF \<le> card (held s \<union> ?D)" using card_mono [of "held s \<union> ?D" "{..<NBUF}"] by (simp add: held_def)
  also have "\<dots> \<le> card (held s) + card ?D" by (rule card_Un_le)
  also have "card ?D = card (pinned s)"
  proof -
    have "inj_on (\<lambda>k. blockno (bufs s ! k)) ?D"
      using bcache_okD(4) [OF assms(1)] buf_okD(4,6) [OF bcache_okD(3) [OF assms(1)]] by (auto intro!: inj_onI)
    moreover have "pinned s = (\<lambda>k. blockno (bufs s ! k)) ` ?D" by (auto simp: pinned_def)
    ultimately show ?thesis by (simp add: card_image)
  qed
  finally show False using assms(2) by simp
qed

lemma bget_at:
  assumes io: "bio c i s" and free: "\<forall>k \<in> held s. blockno (bufs s ! k) \<noteq> b"
    and room: "b \<in> pinned s \<or> card (held s) + card (pinned s) < NBUF"
  shows "\<exists>k x. k < NBUF \<and> refcnt (bufs s ! k) = 0 \<and> (bdirty (bufs s ! k) \<longrightarrow> blockno (bufs s ! k) = b \<and> bdev (bufs s ! k) = 1) \<and>
    (x = (bufs s ! k)\<lparr>refcnt := 1\<rparr> \<and> blockno x = b \<and> bdev x = 1 \<or>
     x = (bufs s ! k)\<lparr>bdev := 1, blockno := b, bvalid := False, bdirty := False, refcnt := 1\<rparr> \<and> \<not> bdirty (bufs s ! k) \<and>
       (\<forall>j < NBUF. bdev (bufs s ! j) = 1 \<longrightarrow> blockno (bufs s ! j) \<noteq> b)) \<and>
    bget 1 b s = Inr (k, upd_sl (BufSl k) \<lparr>slocked = True, slpid = pid (ptable s ! i)\<rparr> (upd_buf k (\<lambda>_. x) s))"
proof -
  have ok: "bcache_ok s" and ap: "at_proc c i s" using io by (simp_all add: bio_def)
  note D = bcache_okD [OF ok]
  obtain xs where xs: "ring_ok (bnext s, bprev s) xs" "set xs = {..<NBUF}" using D(2) by blast
  note scan = bscan_ring [OF xs(1)]
  show ?thesis
  proof (cases "find (\<lambda>k. bdev (bufs s ! k) = 1 \<and> blockno (bufs s ! k) = b) xs")
    case (Some k)
    then have "k \<in> set xs" "bdev (bufs s ! k) = 1" "blockno (bufs s ! k) = b" by (auto simp: find_Some_iff)
    then have k: "k < NBUF" "bdev (bufs s ! k) = 1" "blockno (bufs s ! k) = b" using xs(2) by auto
    have r: "refcnt (bufs s ! k) = 0" using free k by (auto simp: held_def)
    then have "\<not> slocked (slocks s (BufSl k))" using buf_okD(3) [OF D(3) [OF k(1)]] by simp
    moreover have "upd_buf k (\<lambda>x. x\<lparr>refcnt := refcnt x + 1\<rparr>) s = upd_buf k (\<lambda>_. (bufs s ! k)\<lparr>refcnt := 1\<rparr>) s"
      using r by (simp add: upd_buf_def)
    ultimately have "bget 1 b s = Inr (k, upd_sl (BufSl k) \<lparr>slocked = True, slpid = pid (ptable s ! i)\<rparr>
        (upd_buf k (\<lambda>_. (bufs s ! k)\<lparr>refcnt := 1\<rparr>) s))"
      using ap Some by (simp add: bget_def at_proc [of c i] scan)
    then show ?thesis using k r by (intro exI [of _ k] exI [of _ "(bufs s ! k)\<lparr>refcnt := 1\<rparr>"]) simp
  next
    case None
    then have no: "\<forall>j < NBUF. bdev (bufs s ! j) = 1 \<longrightarrow> blockno (bufs s ! j) \<noteq> b" using xs(2) by (auto simp: find_None_iff)
    let ?P = "\<lambda>k. refcnt (bufs s ! k) = 0 \<and> \<not> bdirty (bufs s ! k)"
    have "b \<notin> pinned s"
    proof
      assume "b \<in> pinned s"
      then obtain j where "j < NBUF" "bdirty (bufs s ! j)" "blockno (bufs s ! j) = b" by (auto simp: pinned_def)
      then show False using no buf_okD(4,6) [OF D(3)] by blast
    qed
    then obtain k where k: "find ?P (rev xs) = Some k"
      using find_free [OF ok] room xs(2) by (cases "find ?P (rev xs)") (auto simp: find_None_iff)
    then have "k \<in> set (rev xs)" "?P k" by (auto simp: find_Some_iff simp del: set_rev)
    then have k': "k < NBUF" "?P k" using xs(2) by simp_all
    then have "\<not> slocked (slocks s (BufSl k))" using buf_okD(3) [OF D(3) [OF k'(1)]] by simp
    moreover have "upd_buf k (\<lambda>x. x\<lparr>bdev := 1, blockno := b, bvalid := False, bdirty := False, refcnt := 1\<rparr>) s =
        upd_buf k (\<lambda>_. (bufs s ! k)\<lparr>bdev := 1, blockno := b, bvalid := False, bdirty := False, refcnt := 1\<rparr>) s"
      by (simp add: upd_buf_def)
    ultimately have "bget 1 b s = Inr (k, upd_sl (BufSl k) \<lparr>slocked = True, slpid = pid (ptable s ! i)\<rparr>
        (upd_buf k (\<lambda>_. (bufs s ! k)\<lparr>bdev := 1, blockno := b, bvalid := False, bdirty := False, refcnt := 1\<rparr>) s))"
      using ap None k by (simp add: bget_def at_proc [of c i] scan)
    then show ?thesis using k' no
      by (intro exI [of _ k] exI [of _ "(bufs s ! k)\<lparr>bdev := 1, blockno := b, bvalid := False, bdirty := False, refcnt := 1\<rparr>"]) simp
  qed
qed

lemma pinned_upd:
  assumes "bufs t = (bufs s)[k := x]" and "bdirty x = bdirty (bufs s ! k)" and "bdirty x \<longrightarrow> blockno x = blockno (bufs s ! k)"
    and "k < length (bufs s)"
  shows "pinned t = pinned s"
  using assms unfolding pinned_def by (intro Collect_cong) (metis nth_list_update)

lemma pinnedI: "k < NBUF \<Longrightarrow> bdirty (bufs s ! k) \<Longrightarrow> blockno (bufs s ! k) \<in> pinned s"
  unfolding pinned_def by blast

lemma held_upd:
  assumes "bufs t = (bufs s)[k := x]" and "k < NBUF" and "length (bufs s) = NBUF"
  shows "held t = (if refcnt x \<noteq> 0 then insert k (held s) else held s - {k})"
  using assms by (auto simp: held_def nth_list_update)

lemma bread_ok:
  assumes io: "bio c i s" and b: "b < disksize s" and free: "\<forall>k \<in> held s. blockno (bufs s ! k) \<noteq> b"
    and room: "b \<in> pinned s \<or> card (held s) + card (pinned s) < NBUF"
  shows "\<exists>k t. bread 1 b s = Inr (k, t) \<and> bio c i t \<and> bkeep s t \<and> k \<notin> held s \<and> held t = insert k (held s) \<and>
    blockno (bufs t ! k) = b \<and> bview t = bview s \<and> pinned t = pinned s \<and> disk t = disk s \<and> dtrace t = dtrace s \<and>
    (bdirty (bufs t ! k) \<longrightarrow> b \<in> pinned s) \<and> (\<forall>j \<in> held s. bufs t ! j = bufs s ! j)"
proof -
  have ok: "bcache_ok s" and ap: "at_proc c i s" using io by (simp_all add: bio_def)
  note D = bcache_okD [OF ok]
  from bget_at [OF io free room] obtain k x where k: "k < NBUF" "refcnt (bufs s ! k) = 0"
    and x: "x = (bufs s ! k)\<lparr>refcnt := 1\<rparr> \<and> blockno x = b \<and> bdev x = 1 \<or>
       x = (bufs s ! k)\<lparr>bdev := 1, blockno := b, bvalid := False, bdirty := False, refcnt := 1\<rparr> \<and> \<not> bdirty (bufs s ! k) \<and>
         (\<forall>j < NBUF. bdev (bufs s ! j) = 1 \<longrightarrow> blockno (bufs s ! j) \<noteq> b)"
    and get: "bget 1 b s = Inr (k, upd_sl (BufSl k) \<lparr>slocked = True, slpid = pid (ptable s ! i)\<rparr> (upd_buf k (\<lambda>_. x) s))"
    by blast
  note K = buf_okD [OF D(3) [OF k(1)]]
  define y where "y = (if bvalid x then x else x\<lparr>bdata := disk s b, bvalid := True\<rparr>)"
  define t where "t = upd_sl (BufSl k) \<lparr>slocked = True, slpid = pid (ptable s ! i)\<rparr> (upd_buf k (\<lambda>_. y) s)"
  have X: "blockno x = b" "bdev x = 1" "refcnt x = 1" "bdirty x = bdirty (bufs s ! k)" "bdirty x \<longrightarrow> bvalid x"
    "length (bdata x) = BSIZE" using x K by auto
  have Y: "blockno y = b" "bdev y = 1" "refcnt y = 1" "bdirty y = bdirty (bufs s ! k)" "bvalid y" "length (bdata y) = BSIZE"
    using X D(5) by (simp_all add: y_def)
  have rd: "bread 1 b s = Inr (k, t)"
  proof (cases "bvalid x")
    case True
    then show ?thesis using get k D(1) by (simp add: bread_def t_def y_def)
  next
    case False
    let ?u = "upd_sl (BufSl k) \<lparr>slocked = True, slpid = pid (ptable s ! i)\<rparr> (upd_buf k (\<lambda>_. x) s)"
    have "\<not> bdirty x" using X(5) False by blast
    moreover have "bufs ?u ! k = x" using k D(1) by simp
    moreover have "at_proc c i ?u" using ap by simp
    moreover have "upd_buf k (\<lambda>x. x\<lparr>bvalid := True\<rparr>) (upd_buf k (\<lambda>y. y\<lparr>bdata := disk s b\<rparr>) ?u) = t"
      using False k D(1) by (cases s) (simp add: t_def y_def upd_buf_def upd_sl_def)
    ultimately have "iderw k ?u = Inr t" using False X b by (simp add: iderw_def at_proc [of c i] Let_def)
    with get False k D(1) show ?thesis by (simp add: bread_def)
  qed
  have bt: "bufs t = (bufs s)[k := y]" "disk t = disk s" "disksize t = disksize s" "dtrace t = dtrace s"
    "slocks t = (slocks s)(BufSl k := \<lparr>slocked = True, slpid = pid (ptable s ! i)\<rparr>)" "ptable t = ptable s"
    "at_proc c i t" "bkeep s t"
    using ap by (simp_all add: t_def bkeep_def same_procs_eq)
  have uniq: "blockno (bufs s ! j) \<noteq> b" if "j < NBUF" "j \<noteq> k" "bdev (bufs s ! j) = 1" for j
    using x D(4) [of j k] that k by auto
  have okt: "bcache_ok t"
    using k(1) bt D Y b uniq
    by (intro bcache_ok_upd [OF ok, of k t y]) (auto simp: buf_ok_def t_def)
  have vb: "bdata y = bview s b"
  proof (cases "bvalid x")
    case True
    then have "bdata y = bdata (bufs s ! k)" "bvalid (bufs s ! k)" "blockno (bufs s ! k) = b" using x by (auto simp: y_def)
    then show ?thesis using bview_buf [OF ok k(1)] by simp
  next
    case False
    have "cached s b = None"
    proof (cases "cached s b")
      case (Some j)
      note J = cached_SomeD [OF ok Some]
      then show ?thesis using uniq [of j] False x by (cases "j = k") auto
    qed
    then show ?thesis using False by (simp add: bview_def y_def)
  qed
  have "bview t = (bview s)(blockno y := bdata y)"
    using x K k bt by (intro bview_upd [OF ok okt k(1) bt(1) Y(5)]) (auto simp: Y(1))
  then have "bview t = bview s" using Y vb by simp
  moreover have "pinned t = pinned s" using x Y k D(1) by (intro pinned_upd [OF bt(1)]) auto
  moreover have "held t = insert k (held s)" using held_upd [OF bt(1) k(1) D(1)] Y by simp
  moreover have "k \<notin> held s" using k by (simp add: held_def)
  moreover have "bufs t ! k = y" using bt k D(1) by simp
  moreover have "b \<in> pinned s" if "bdirty y" using pinnedI [OF k(1), of s] x Y that by auto
  moreover have "\<forall>j \<in> held s. bufs t ! j = bufs s ! j" using bt(1) \<open>k \<notin> held s\<close> by (metis nth_list_update_neq)
  ultimately show ?thesis using rd okt bt(2-) Y by (auto simp: bio_def)
qed

text \<open>A held buffer: its contents, a change of them, its write-back and its release.\<close>

lemma held_buf:
  assumes "bio c i s" and "k \<in> held s"
  shows "bdata (bufs s ! k) = bview s (blockno (bufs s ! k))" "length (bdata (bufs s ! k)) = BSIZE" "k < NBUF"
    "bvalid (bufs s ! k)" "bdev (bufs s ! k) = 1" "blockno (bufs s ! k) < disksize s" "slocked (slocks s (BufSl k))"
    "refcnt (bufs s ! k) = 1"
proof -
  have ok: "bcache_ok s" and k: "k < NBUF" "refcnt (bufs s ! k) \<noteq> 0" using assms by (simp_all add: bio_def held_def)
  note K = buf_okD [OF bcache_okD(3) [OF ok k(1)]]
  show "k < NBUF" by (rule k)
  show r: "refcnt (bufs s ! k) = 1" using K(2) k(2) by simp
  show v: "bvalid (bufs s ! k)" using K(5) r by simp
  show "bdata (bufs s ! k) = bview s (blockno (bufs s ! k))" using bview_buf [OF ok k(1) v] by simp
  show "length (bdata (bufs s ! k)) = BSIZE" "bdev (bufs s ! k) = 1" "blockno (bufs s ! k) < disksize s" "slocked (slocks s (BufSl k))"
    using K v r by simp_all
qed

lemma pinned_iff:
  assumes "bio c i s" and "k \<in> held s"
  shows "blockno (bufs s ! k) \<in> pinned s \<longleftrightarrow> bdirty (bufs s ! k)"
proof
  have ok: "bcache_ok s" using assms(1) by (simp add: bio_def)
  note H = held_buf [OF assms]
  assume "blockno (bufs s ! k) \<in> pinned s"
  then obtain j where j: "j < NBUF" "bdirty (bufs s ! j)" "blockno (bufs s ! j) = blockno (bufs s ! k)"
    unfolding pinned_def by fastforce
  then have "bdev (bufs s ! j) = 1" using buf_okD(4,6) [OF bcache_okD(3) [OF ok j(1)]] by blast
  then have "j = k" using bcache_okD(4) [OF ok j(1) H(3)] j(3) H(5) by blast
  with j show "bdirty (bufs s ! k)" by simp
qed (rule pinnedI [OF held_buf(3) [OF assms]])

lemma held_distinct:
  assumes "bio c i s" and "j \<in> held s" and "k \<in> held s" and "blockno (bufs s ! j) = blockno (bufs s ! k)"
  shows "j = k"
  using bcache_okD(4) [of s j k] held_buf [OF assms(1,2)] held_buf [OF assms(1,3)] assms by (simp add: bio_def)

text \<open>What a change to one held buffer leaves as it was.\<close>

lemma held_upd_ok:
  assumes io: "bio c i s" and k: "k \<in> held s" and bt: "bufs t = (bufs s)[k := x]" and sl: "slocks t = slocks s"
    and fr: "at_proc c i t" "bnext t = bnext s" "bprev t = bprev s" "disksize t = disksize s"
    and dk: "disk t = disk s \<or> disk t = (disk s)(blockno x := bdata x)"
    and x: "blockno x = blockno (bufs s ! k)" "bdev x = 1" "refcnt x = 1" "bvalid x" "length (bdata x) = BSIZE"
  shows "bio c i t" "held t = held s" "bview t = (bview s)(blockno x := bdata x)" "\<forall>j. j \<noteq> k \<longrightarrow> bufs t ! j = bufs s ! j"
    "bufs t ! k = x"
proof -
  have ok: "bcache_ok s" using io by (simp add: bio_def)
  note D = bcache_okD [OF ok] and H = held_buf [OF io k]
  show at_k: "bufs t ! k = x" "\<forall>j. j \<noteq> k \<longrightarrow> bufs t ! j = bufs s ! j" using bt H(3) D(1) by simp_all
  have uniq: "blockno (bufs s ! j) \<noteq> blockno x" if "j < NBUF" "j \<noteq> k" "bdev (bufs s ! j) = 1" for j
    using D(4) [OF that(1) H(3)] that H(5) x(1) by auto
  have dev: "bdev (bufs s ! j) = 1" if "j < NBUF" "bvalid (bufs s ! j)" for j
    using buf_okD(6) [OF D(3) [OF that(1)]] that(2) by blast
  have okt: "bcache_ok t"
    using H x D fr sl at_k(1) dk uniq dev
    by (intro bcache_ok_upd [OF ok H(3) bt]) (auto simp: buf_ok_def)
  then show "bio c i t" using fr by (simp add: bio_def)
  show "held t = held s" using held_upd [OF bt H(3) D(1)] k x by auto
  show "bview t = (bview s)(blockno x := bdata x)"
    using H x dk by (intro bview_upd [OF ok okt H(3) bt x(4)]) auto
qed

lemma buf_write:
  assumes "bio c i s" and "k \<in> held s" and "length d = BSIZE"
  defines "t \<equiv> upd_buf k (\<lambda>x. x\<lparr>bdata := d\<rparr>) s"
  shows "bio c i t" "held t = held s" "bview t = (bview s)(blockno (bufs s ! k) := d)" "pinned t = pinned s" "disk t = disk s"
    "dtrace t = dtrace s" "bkeep s t" "blockno (bufs t ! k) = blockno (bufs s ! k)" "\<forall>j. j \<noteq> k \<longrightarrow> bufs t ! j = bufs s ! j"
proof -
  note H = held_buf [OF assms(1,2)]
  have len: "length (bufs s) = NBUF" using assms(1) bcache_okD(1) [of s] by (simp add: bio_def)
  note U = held_upd_ok [OF assms(1,2), of t "(bufs s ! k)\<lparr>bdata := d\<rparr>"]
  have ap: "at_proc c i t" using assms(1) by (simp add: t_def bio_def)
  show "bio c i t" "held t = held s" "bview t = (bview s)(blockno (bufs s ! k) := d)" "\<forall>j. j \<noteq> k \<longrightarrow> bufs t ! j = bufs s ! j"
    using U H assms(3) ap by (simp_all add: t_def)
  show "pinned t = pinned s" by (rule pinned_upd [of _ _ k "(bufs s ! k)\<lparr>bdata := d\<rparr>"]) (use H len in \<open>simp_all add: t_def\<close>)
  show "disk t = disk s" "dtrace t = dtrace s" "bkeep s t" "blockno (bufs t ! k) = blockno (bufs s ! k)"
    using H len by (simp_all add: t_def bkeep_def same_procs_eq)
qed

lemma buf_dirty:
  assumes "bio c i s" and "k \<in> held s"
  defines "t \<equiv> upd_buf k (\<lambda>x. x\<lparr>bdirty := True\<rparr>) s"
  shows "bio c i t" "held t = held s" "bview t = bview s" "pinned t = insert (blockno (bufs s ! k)) (pinned s)" "disk t = disk s"
    "dtrace t = dtrace s" "bkeep s t" "blockno (bufs t ! k) = blockno (bufs s ! k)" "\<forall>j. j \<noteq> k \<longrightarrow> bufs t ! j = bufs s ! j"
    "bufs t ! k = (bufs s ! k)\<lparr>bdirty := True\<rparr>"
proof -
  note H = held_buf [OF assms(1,2)]
  have len: "length (bufs s) = NBUF" using assms(1) bcache_okD(1) [of s] by (simp add: bio_def)
  note U = held_upd_ok [OF assms(1,2), of t "(bufs s ! k)\<lparr>bdirty := True\<rparr>"]
  have ap: "at_proc c i t" using assms(1) by (simp add: t_def bio_def)
  show "bio c i t" "held t = held s" "bview t = bview s" "\<forall>j. j \<noteq> k \<longrightarrow> bufs t ! j = bufs s ! j"
    "bufs t ! k = (bufs s ! k)\<lparr>bdirty := True\<rparr>"
    using U H ap by (simp_all add: t_def)
  show "pinned t = insert (blockno (bufs s ! k)) (pinned s)"
  proof
    show "pinned t \<subseteq> insert (blockno (bufs s ! k)) (pinned s)"
      using H(3) len by (auto simp: pinned_def t_def nth_list_update split: if_splits)
    have "blockno (bufs s ! j) \<in> pinned t" if "j < NBUF" "bdirty (bufs s ! j)" for j
      using pinnedI [of j t] that H(3) len by (cases "j = k") (simp_all add: t_def)
    moreover have "blockno (bufs s ! k) \<in> pinned t" using pinnedI [of k t] H(3) len by (simp add: t_def)
    ultimately show "insert (blockno (bufs s ! k)) (pinned s) \<subseteq> pinned t" by (auto simp: pinned_def [of s])
  qed
  show "disk t = disk s" "dtrace t = dtrace s" "bkeep s t" "blockno (bufs t ! k) = blockno (bufs s ! k)"
    using H len by (simp_all add: t_def bkeep_def same_procs_eq)
qed

lemma bwrite_ok:
  assumes io: "bio c i s" and k: "k \<in> held s"
  defines "b \<equiv> blockno (bufs s ! k)"
  shows "\<exists>t. bwrite k s = Inr t \<and> bio c i t \<and> bkeep s t \<and> held t = held s \<and> bview t = bview s \<and>
    disk t = (disk s)(b := bview s b) \<and> dtrace t = dtrace s @ [(b, bview s b)] \<and> pinned t = pinned s - {b} \<and>
    blockno (bufs t ! k) = b \<and> \<not> bdirty (bufs t ! k) \<and> (\<forall>j. j \<noteq> k \<longrightarrow> bufs t ! j = bufs s ! j)"
proof -
  note H = held_buf [OF io k]
  have ap: "at_proc c i s" and ok: "bcache_ok s" using io by (simp_all add: bio_def)
  note D = bcache_okD [OF ok]
  define x where "x = (bufs s ! k)\<lparr>bdirty := False\<rparr>"
  define t where "t = (upd_buf k (\<lambda>_. x) s)\<lparr>disk := (disk s)(b := bview s b), dtrace := dtrace s @ [(b, bview s b)]\<rparr>"
  have w: "bwrite k s = Inr t"
  proof -
    let ?u = "upd_buf k (\<lambda>x. x\<lparr>bdirty := True\<rparr>) s"
    have "(bufs s ! k)\<lparr>bdirty := False, bvalid := True\<rparr> = x" using H(4) by (cases "bufs s ! k") (simp add: x_def)
    then have "upd_buf k (\<lambda>x. x\<lparr>bvalid := True\<rparr>) ((upd_buf k (\<lambda>x. x\<lparr>bdirty := False\<rparr>) ?u)\<lparr>disk := (disk s)(b := bview s b),
        dtrace := dtrace s @ [(b, bview s b)]\<rparr>) = t"
      using H(3) D(1) by (cases s) (simp add: upd_buf_def t_def)
    moreover have "at_proc c i ?u" using ap by simp
    ultimately have "iderw k ?u = Inr t"
      using H D(1) by (simp add: iderw_def Let_def at_proc [of c i] b_def)
    then show ?thesis using ap H by (simp add: bwrite_def at_proc [of c i])
  qed
  have bt: "bufs t = (bufs s)[k := x]" "slocks t = slocks s" "at_proc c i t" "bnext t = bnext s" "bprev t = bprev s"
    "disksize t = disksize s" "disk t = (disk s)(b := bview s b)" "dtrace t = dtrace s @ [(b, bview s b)]" "bkeep s t"
    using ap by (simp_all add: t_def bkeep_def same_procs_eq)
  have X: "blockno x = b" "bdata x = bview s b" "bdev x = 1" "refcnt x = 1" "bvalid x" "length (bdata x) = BSIZE" "\<not> bdirty x"
    using H by (simp_all add: x_def b_def)
  note U = held_upd_ok [OF io k bt(1-6)]
  have dk: "disk t = disk s \<or> disk t = (disk s)(blockno x := bdata x)" using bt(7) X by simp
  have U': "bio c i t" "held t = held s" "bview t = (bview s)(b := bview s b)" "\<forall>j. j \<noteq> k \<longrightarrow> bufs t ! j = bufs s ! j" "bufs t ! k = x"
    using U [OF dk] X unfolding b_def by auto
  have "pinned t = pinned s - {b}"
  proof
    show "pinned t \<subseteq> pinned s - {b}"
    proof
      fix a assume "a \<in> pinned t"
      then obtain j where j: "j < NBUF" "bdirty (bufs t ! j)" "a = blockno (bufs t ! j)" by (auto simp: pinned_def)
      then have "j \<noteq> k" using U'(5) X(7) by auto
      with j U'(4) have j': "bdirty (bufs s ! j)" "a = blockno (bufs s ! j)" by simp_all
      have "a \<noteq> b"
        using D(4) [OF j(1) H(3)] j' \<open>j \<noteq> k\<close> H(5) buf_okD(4,6) [OF D(3) [OF j(1)]] by (auto simp: b_def)
      then show "a \<in> pinned s - {b}" using pinnedI [OF j(1) j'(1)] j'(2) by simp
    qed
    show "pinned s - {b} \<subseteq> pinned t"
    proof
      fix a assume "a \<in> pinned s - {b}"
      then obtain j where j: "j < NBUF" "bdirty (bufs s ! j)" "a = blockno (bufs s ! j)" "a \<noteq> b" by (auto simp: pinned_def)
      then have "j \<noteq> k" by (auto simp: b_def)
      then show "a \<in> pinned t" using pinnedI [OF j(1), of t] j U'(4) by simp
    qed
  qed
  then show ?thesis using w U' bt X by simp
qed

lemma brelse_ok:
  assumes io: "bio c i s" and k: "k \<in> held s" and clean: "bdirty (bufs s ! k) \<or> bdata (bufs s ! k) = disk s (blockno (bufs s ! k))"
  shows "\<exists>t. brelse k s = Inr t \<and> bio c i t \<and> bkeep s t \<and> held t = held s - {k} \<and> bview t = bview s \<and> disk t = disk s \<and>
    dtrace t = dtrace s \<and> pinned t = pinned s \<and> (\<forall>j. j \<noteq> k \<longrightarrow> bufs t ! j = bufs s ! j)"
proof -
  note H = held_buf [OF io k]
  have ap: "at_proc c i s" and ok: "bcache_ok s" using io by (simp_all add: bio_def)
  note D = bcache_okD [OF ok]
  obtain xs where xs: "ring_ok (bnext s, bprev s) xs" "set xs = {..<NBUF}" using D(2) by blast
  obtain as bs where ab: "xs = as @ k # bs" using H(3) xs(2) split_list [of k xs] by auto
  have "ring_ok (ring_insert k (ring_remove k (bnext s, bprev s))) (k # as @ bs)"
    using ring_insert_ok [OF ring_remove_ok [OF xs(1) [unfolded ab]] H(3)] xs(1) ab by (simp add: ring_ok_def)
  moreover have "set (k # as @ bs) = {..<NBUF}" using xs(2) ab by auto
  ultimately have ring: "\<exists>ys. ring_ok (ring_insert k (ring_remove k (bnext s, bprev s))) ys \<and> set ys = {..<NBUF}" by blast
  let ?x = "(bufs s ! k)\<lparr>refcnt := 0\<rparr>"
  define t where "t = set_ring (ring_insert k (ring_remove k (bnext s, bprev s)))
     (upd_buf k (\<lambda>x. x\<lparr>refcnt := refcnt x - 1\<rparr>) (wakeup1 (Some (ChanBuf k)) (upd_sl (BufSl k) \<lparr>slocked = False, slpid = 0\<rparr> s)))"
  have rel: "brelse k s = Inr t"
    using ap H D(1) by (simp add: brelse_def at_proc [of c i] t_def Let_def)
  have "ptable t = ptable (wakeup1 (Some (ChanBuf k)) s)" by (simp add: t_def) (simp add: wakeup1_def)
  note same = same_procs_wake [OF this]
  have bt: "bufs t = (bufs s)[k := ?x]" "disk t = disk s" "disksize t = disksize s" "dtrace t = dtrace s"
    "slocks t = (slocks s)(BufSl k := \<lparr>slocked = False, slpid = 0\<rparr>)" "at_proc c i t" "bkeep s t"
    "(bnext t, bprev t) = ring_insert k (ring_remove k (bnext s, bprev s))"
    using ap H same by (simp_all add: t_def bkeep_def)
  have okt: "bcache_ok t"
    using H D(5) bt ring clean D(4)
    by (intro bcache_ok_upd [OF ok H(3) bt(1)]) (auto simp: buf_ok_def bt D(1))
  have "bview t = (bview s)(blockno ?x := bdata ?x)"
    using H bt by (intro bview_upd [OF ok okt H(3) bt(1)]) auto
  then have "bview t = bview s" using H(1) by simp
  moreover have "pinned t = pinned s" using H D(1) by (intro pinned_upd [OF bt(1)]) auto
  moreover have "held t = held s - {k}" using held_upd [OF bt(1) H(3) D(1)] by simp
  ultimately show ?thesis using rel okt bt by (simp add: bio_def)
qed

subsection \<open>Boot\<close>

lemma initsleeplock_frame [simp]:
  "bufs (initsleeplock l s) = bufs s" "bnext (initsleeplock l s) = bnext s" "bprev (initsleeplock l s) = bprev s"
  "disk (initsleeplock l s) = disk s" "disksize (initsleeplock l s) = disksize s"
  "slocks (initsleeplock l s) = (slocks s)(l := \<lparr>slocked = False, slpid = 0\<rparr>)"
  by (simp_all add: initsleeplock_def initlock_def upd_sl_def)

lemma binit_loop_ring:
  assumes "ring_ok (bnext s, bprev s) xs" and "distinct bs" and "set bs \<subseteq> {..<NBUF}" and "set bs \<inter> set xs = {}"
  shows "ring_ok (bnext (binit_loop bs s), bprev (binit_loop bs s)) (rev bs @ xs) \<and> bufs (binit_loop bs s) = bufs s \<and>
    disk (binit_loop bs s) = disk s \<and> disksize (binit_loop bs s) = disksize s \<and>
    (\<forall>k. slocked (slocks (binit_loop bs s) (BufSl k)) = (k \<notin> set bs \<and> slocked (slocks s (BufSl k))))"
  using assms
proof (induction bs arbitrary: s xs)
  case (Cons b bs)
  let ?t = "initsleeplock (BufSl b) (set_ring (ring_insert b (bnext s, bprev s)) s)"
  have "ring_ok (bnext ?t, bprev ?t) (b # xs)" using ring_insert_ok [OF Cons.prems(1), of b] Cons.prems by simp
  from Cons.IH [OF this] Cons.prems show ?case by auto
qed simp

lemma binit_result:
  assumes "bufs s = replicate NBUF \<lparr>bvalid = False, bdirty = False, bdev = 0, blockno = 0, refcnt = 0, bdata = replicate BSIZE 0\<rparr>"
    and "length (bnext s) = NBUF + 1" and "length (bprev s) = NBUF + 1" and "\<forall>b. length (disk s b) = BSIZE"
  shows "ring_ok (bnext (binit s), bprev (binit s)) (rev [0..<NBUF]) \<and> bcache_ok (binit s) \<and> held (binit s) = {} \<and>
    pinned (binit s) = {} \<and> bview (binit s) = disk s"
proof -
  define u where "u = set_ring ((bnext s)[NBUF := NBUF], (bprev s)[NBUF := NBUF]) (initlock BcacheLock s)"
  have u: "bufs u = bufs s" "disk u = disk s" "disksize u = disksize s"
    by (simp_all add: u_def) (simp_all add: initlock_def)
  have "ring_ok (bnext u, bprev u) []" using assms(2,3) by (simp add: ring_ok_def u_def initlock_def)
  from binit_loop_ring [OF this, of "[0..<NBUF]"] have
    b: "ring_ok (bnext (binit s), bprev (binit s)) (rev [0..<NBUF])" "bufs (binit s) = bufs s" "disk (binit s) = disk s"
      "disksize (binit s) = disksize s" "\<forall>k < NBUF. \<not> slocked (slocks (binit s) (BufSl k))"
    using u by (auto simp: binit_def u_def Let_def initlock_def atLeast0LessThan simp del: upt_rec_numeral)
  have "set (rev [0..<NBUF]) = {..<NBUF}" by (simp add: atLeast0LessThan del: upt_rec_numeral)
  then have "bcache_ok (binit s)" using b assms(1,4) by (auto simp: bcache_ok_def buf_ok_def simp del: upt_rec_numeral)
  moreover have "held (binit s) = {}" "pinned (binit s) = {}" using b(2) assms(1) by (auto simp: held_def pinned_def)
  moreover have "bview (binit s) = disk s" using b(2,3) assms(1) by (auto simp: bview_def cached_def)
  ultimately show ?thesis using b(1) by simp
qed

subsection \<open>Properties\<close>

text \<open>C21. At boot \<^verbatim>\<open>binit\<close> links all buffers into the ring, the last one first, and leaves a cache in order: nothing cached, nothing
  held, nothing pinned.\<close>

theorem binit_establishes:
  assumes "bufs s = replicate NBUF \<lparr>bvalid = False, bdirty = False, bdev = 0, blockno = 0, refcnt = 0, bdata = replicate BSIZE 0\<rparr>"
    and "length (bnext s) = NBUF + 1" and "length (bprev s) = NBUF + 1" and "\<forall>b. length (disk s b) = BSIZE"
  shows "ring_ok (bnext (binit s), bprev (binit s)) (rev [0..<NBUF]) \<and> bcache_ok (binit s) \<and> held (binit s) = {} \<and>
    pinned (binit s) = {} \<and> bview (binit s) = disk s"
  using binit_result [OF assms] .

definition demo_raw :: bcachest where
  "demo_raw = sleepst.extend demo_sleepst (bcachest.fields
     (replicate NBUF \<lparr>bvalid = False, bdirty = False, bdev = 0, blockno = 0, refcnt = 0, bdata = replicate BSIZE 0\<rparr>)
     (replicate 31 0) (replicate 31 0) (\<lambda>b. if b = 40 then replicate BSIZE 7 else replicate BSIZE 0) 1000 [])"

lemma demo_raw_sel:
  "bufs demo_raw = replicate NBUF \<lparr>bvalid = False, bdirty = False, bdev = 0, blockno = 0, refcnt = 0, bdata = replicate BSIZE 0\<rparr>"
  "bnext demo_raw = replicate 31 0" "bprev demo_raw = replicate 31 0" "disksize demo_raw = 1000"
  "disk demo_raw = (\<lambda>b. if b = 40 then replicate BSIZE 7 else replicate BSIZE 0)"
  by (simp_all add: demo_raw_def sleepst.defs bcachest.defs)

lemma at_proc_extend_sleepst [simp]: "at_proc c i (sleepst.extend s x) = at_proc c i s" "ptable (sleepst.extend s x) = ptable s"
  by (rule at_proc_cong) (simp_all add: sleepst.defs)

theorem binit_establishes_witness: "bcache_ok (binit demo_raw) \<and> bview (binit demo_raw) 40 = replicate BSIZE 7"
  using binit_establishes [of demo_raw] by (simp add: demo_raw_sel)

lemma at_proc_initlock:
  assumes "at_proc c i s"
  shows "at_proc c i (initlock l s)"
proof -
  have "locks s l = unlocked" by (rule at_procD [OF assms])
  then have "(locks s)(l := unlocked) = locks s" by auto
  then show ?thesis using assms at_proc_cong [of "initlock l s" s c i] by (simp add: initlock_def unlocked_def)
qed

lemma at_proc_binit: "at_proc c i s \<Longrightarrow> at_proc c i (binit s)"
proof -
  have "at_proc c i s \<Longrightarrow> at_proc c i (binit_loop bs s)" for bs and s :: "'a bcachest_scheme"
    by (induction bs arbitrary: s) (simp_all add: initsleeplock_def at_proc_initlock)
  then show "at_proc c i s \<Longrightarrow> at_proc c i (binit s)" by (simp add: binit_def Let_def at_proc_initlock)
qed

lemma demo_bio: "bio 0 0 (binit demo_raw)" "held (binit demo_raw) = {}" "pinned (binit demo_raw) = {}"
    "disksize (binit demo_raw) = 1000" "bview (binit demo_raw) = disk demo_raw"
proof -
  have "at_proc 0 0 demo_raw" using demo_sleepst_ok by (simp add: demo_raw_def)
  then have "at_proc 0 0 (binit demo_raw)" by (rule at_proc_binit)
  moreover have "bcache_ok (binit demo_raw)" "held (binit demo_raw) = {}" "pinned (binit demo_raw) = {}" "bview (binit demo_raw) = disk demo_raw"
    using binit_result [of demo_raw] by (simp_all add: demo_raw_sel)
  ultimately show "bio 0 0 (binit demo_raw)" "held (binit demo_raw) = {}" "pinned (binit demo_raw) = {}" "bview (binit demo_raw) = disk demo_raw"
    by (simp_all add: bio_def)
  have "disksize (binit_loop bs t) = disksize t" for bs and t :: bcachest by (induction bs arbitrary: t) simp_all
  then show "disksize (binit demo_raw) = 1000" by (simp add: binit_def Let_def initlock_def demo_raw_sel)
qed

text \<open>C18. \<^verbatim>\<open>bread\<close> of a block that the process does not hold gives a locked, valid buffer with the current contents of the block:
  those in the cache if it is cached, those on the disk if not. No other block changes in anybody's view, nothing is written
  to the disk, and the buffer recycled for it was neither held nor pinned by the log. A free buffer is needed only for
  a block that the log has not pinned.\<close>

theorem bread_contents:
  assumes "bio c i s" and "b < disksize s" and "\<forall>k \<in> held s. blockno (bufs s ! k) \<noteq> b"
    and "b \<in> pinned s \<or> card (held s) + card (pinned s) < NBUF"
  shows "\<exists>k t. bread 1 b s = Inr (k, t) \<and> bio c i t \<and> held t = insert k (held s) \<and> k \<notin> held s \<and> blockno (bufs t ! k) = b \<and>
    bdata (bufs t ! k) = bview s b \<and> slocked (slocks t (BufSl k)) \<and> bview t = bview s \<and> disk t = disk s \<and> pinned t = pinned s"
proof -
  obtain k t where t: "bread 1 b s = Inr (k, t)" "bio c i t" "k \<notin> held s" "held t = insert k (held s)" "blockno (bufs t ! k) = b"
    "bview t = bview s" "disk t = disk s" "pinned t = pinned s" using bread_ok [OF assms] by blast
  moreover have "bdata (bufs t ! k) = bview s b" "slocked (slocks t (BufSl k))" using held_buf [OF t(2), of k] t by simp_all
  ultimately show ?thesis by blast
qed

theorem bread_contents_witness: "\<exists>k t. bread 1 40 (binit demo_raw) = Inr (k, t) \<and> bdata (bufs t ! k) = replicate BSIZE 7"
  using bread_contents [OF demo_bio(1), of 40] demo_bio by (auto simp: demo_raw_sel)

text \<open>C19. A block that is read, changed, written with \<^verbatim>\<open>bwrite\<close> and released has its new contents on the disk, as the only write
  to the disk, and a later \<^verbatim>\<open>bread\<close> of it gives them back.\<close>

theorem bwrite_bread:
  assumes "bio c i s" and "b < disksize s" and "held s = {}" and "card (pinned s) < NBUF" and "length d = BSIZE"
  shows "\<exists>k t u v j w. bread 1 b s = Inr (k, t) \<and> bwrite k (upd_buf k (\<lambda>x. x\<lparr>bdata := d\<rparr>) t) = Inr u \<and> brelse k u = Inr v \<and>
    disk v = (disk s)(b := d) \<and> dtrace v = dtrace s @ [(b, d)] \<and> bview v = (bview s)(b := d) \<and> held v = {} \<and>
    bread 1 b v = Inr (j, w) \<and> bdata (bufs w ! j) = d"
proof -
  obtain k t where t: "bread 1 b s = Inr (k, t)" "bio c i t" "held t = {k}" "blockno (bufs t ! k) = b"
    "bview t = bview s" "disk t = disk s" "pinned t = pinned s" "dtrace t = dtrace s" "bkeep s t"
    using bread_ok [OF assms(1,2)] assms(3,4) by auto
  let ?t = "upd_buf k (\<lambda>x. x\<lparr>bdata := d\<rparr>) t"
  have "k \<in> held t" using t(3) by simp
  note T = buf_write [OF t(2) this assms(5)]
  have kT: "k \<in> held ?t" using T(2) t(3) by simp
  obtain u where u: "bwrite k ?t = Inr u" "bio c i u" "bkeep ?t u" "held u = {k}" "bview u = (bview s)(b := d)"
    "disk u = (disk s)(b := d)" "dtrace u = dtrace s @ [(b, d)]" "pinned u = pinned s - {b}" "blockno (bufs u ! k) = b"
    using bwrite_ok [OF T(1) kT] T t by auto
  have "bdata (bufs u ! k) = disk u (blockno (bufs u ! k))" using held_buf(1) [OF u(2), of k] u by simp
  then obtain v where v: "brelse k u = Inr v" "bio c i v" "bkeep u v" "held v = {}" "bview v = (bview s)(b := d)"
    "disk v = (disk s)(b := d)" "dtrace v = dtrace s @ [(b, d)]" "pinned v = pinned s - {b}"
    using brelse_ok [OF u(2), of k] u by auto
  have "disksize v = disksize s" using t(9) T(7) u(3) v(3) by (simp add: bkeep_def)
  moreover have "card (pinned s - {b}) < NBUF" using assms(4) card_Diff1_le [of "pinned s" b] by linarith
  ultimately obtain j w where w: "bread 1 b v = Inr (j, w)" "bio c i w" "held w = {j}" "blockno (bufs w ! j) = b" "bview w = bview v"
    using bread_ok [OF v(2), of b] assms(2) v by auto
  moreover have "bdata (bufs w ! j) = d" using held_buf(1) [OF w(2), of j] w v by simp
  ultimately show ?thesis using t u v by blast
qed

theorem bwrite_bread_witness:
  "\<exists>k t u v. bread 1 41 (binit demo_raw) = Inr (k, t) \<and> bwrite k (upd_buf k (\<lambda>x. x\<lparr>bdata := replicate BSIZE 9\<rparr>) t) = Inr u \<and>
     brelse k u = Inr v \<and> disk v 41 = replicate BSIZE 9"
  using bwrite_bread [OF demo_bio(1), of 41 "replicate BSIZE 9"] demo_bio by fastforce

text \<open>C20. When every buffer is held or pinned, a \<^verbatim>\<open>bread\<close> of a block that is not cached panics. With as many buffers as the log may
  pin (\<^verbatim>\<open>NBUF\<close> equals \<^verbatim>\<open>LOGSIZE\<close>) nothing in the buffer cache itself rules this out.\<close>

theorem bread_exhausted:
  assumes "bio c i s" and "\<forall>k < NBUF. refcnt (bufs s ! k) \<noteq> 0 \<or> bdirty (bufs s ! k)"
    and "\<forall>k < NBUF. \<not> (bdev (bufs s ! k) = 1 \<and> blockno (bufs s ! k) = b)"
  shows "bread 1 b s = Inl (Panic ''bget: no buffers'')"
proof -
  have ok: "bcache_ok s" and ap: "at_proc c i s" using assms(1) by (simp_all add: bio_def)
  obtain xs where xs: "ring_ok (bnext s, bprev s) xs" "set xs = {..<NBUF}" using bcache_okD(2) [OF ok] by blast
  have "find (\<lambda>k. bdev (bufs s ! k) = 1 \<and> blockno (bufs s ! k) = b) xs = None"
    "find (\<lambda>k. refcnt (bufs s ! k) = 0 \<and> \<not> bdirty (bufs s ! k)) (rev xs) = None"
    using assms(2,3) xs(2) by (auto simp: find_None_iff)
  then show ?thesis using ap by (simp add: bread_def bget_def at_proc [of c i] bscan_ring [OF xs(1)])
qed

definition demo_full :: bcachest where
  "demo_full = (binit demo_raw)\<lparr>bufs := map (\<lambda>k. \<lparr>bvalid = True, bdirty = True, bdev = 1, blockno = of_nat k, refcnt = 0,
     bdata = replicate BSIZE 0\<rparr>) [0..<NBUF]\<rparr>"

theorem bread_exhausted_witness: "bread 1 40 demo_full = Inl (Panic ''bget: no buffers'')"
proof -
  let ?s = "binit demo_raw"
  have ok: "bcache_ok ?s" "at_proc 0 0 ?s" using demo_bio(1) by (simp_all add: bio_def)
  have inj: "(of_nat j :: u32) = of_nat k \<longleftrightarrow> j = k" if "j < 41" "k < 41" for j k
    using that by (auto simp: word_of_nat_eq_iff take_bit_nat_eq_self)
  have small: "(of_nat k :: u32) < 1000" if "k < 30" for k
    using that by (simp add: word_less_nat_alt unsigned_of_nat take_bit_nat_eq_self)
  have sl: "\<not> slocked (slocks ?s (BufSl k))" if "k < 30" for k
    using buf_okD(3) [OF bcache_okD(3) [OF ok(1) that]] demo_bio(2) that by (auto simp: held_def)
  have "buf_ok demo_full k" if "k < 30" for k
    using that small [OF that] sl [OF that] demo_bio(4) by (simp add: buf_ok_def demo_full_def del: upt_rec_numeral)
  moreover have "j = k" if "j < 30" "k < 30" "blockno (bufs demo_full ! j) = blockno (bufs demo_full ! k)" for j k
    using that inj [of j k] by (simp add: demo_full_def del: upt_rec_numeral)
  moreover have "length (bufs demo_full) = 30" "bnext demo_full = bnext ?s" "bprev demo_full = bprev ?s" "disk demo_full = disk ?s"
    by (simp_all add: demo_full_def)
  ultimately have "bcache_ok demo_full" using bcache_okD(2,5) [OF ok(1)] by (auto simp: bcache_ok_def)
  moreover have "at_proc 0 0 demo_full"
    using ok(2) at_proc_cong [of demo_full ?s 0 0] by (simp add: demo_full_def)
  ultimately have "bio 0 0 demo_full" by (simp add: bio_def)
  moreover have "bdirty (bufs demo_full ! k)" "blockno (bufs demo_full ! k) \<noteq> 40" if "k < 30" for k
    using that inj [of k 40] by (simp_all add: demo_full_def del: upt_rec_numeral)
  ultimately show ?thesis using bread_exhausted [of 0 0 demo_full 40] by simp
qed

end
