(* ===== verification/Block.thy ===== *)
theory Block
  imports Prelude
begin

section \<open>Integers and structures in disk blocks\<close>

text \<open>
  A disk block, or a structure in it, is a list of bytes; integers are little-endian. \<open>get16\<close>, \<open>put16\<close>, \<open>get32\<close> and \<open>put32\<close> are
  the accesses through a pointer of type \<^verbatim>\<open>ushort*\<close> or \<^verbatim>\<open>uint*\<close> into the bytes at an offset, and \<open>splice\<close> is the
  \<^verbatim>\<open>memmove\<close> of some bytes to an offset.
\<close>

definition get16 :: "u8 list \<Rightarrow> nat \<Rightarrow> u16" where
  "get16 d k = ucast (d ! k) OR push_bit 8 (ucast (d ! (k + 1)))"

definition put16 :: "nat \<Rightarrow> u16 \<Rightarrow> u8 list \<Rightarrow> u8 list" where
  "put16 k v d = d[k := ucast v, k + 1 := ucast (drop_bit 8 v)]"

definition get32 :: "u8 list \<Rightarrow> nat \<Rightarrow> u32" where
  "get32 d k = ucast (d ! k) OR push_bit 8 (ucast (d ! (k + 1))) OR push_bit 16 (ucast (d ! (k + 2)))
     OR push_bit 24 (ucast (d ! (k + 3)))"

definition put32 :: "nat \<Rightarrow> u32 \<Rightarrow> u8 list \<Rightarrow> u8 list" where
  "put32 k v d = d[k := ucast v, k + 1 := ucast (drop_bit 8 v), k + 2 := ucast (drop_bit 16 v), k + 3 := ucast (drop_bit 24 v)]"

text \<open>Consecutive integers from an offset on.\<close>

primrec put32s :: "nat \<Rightarrow> u32 list \<Rightarrow> u8 list \<Rightarrow> u8 list" where
  "put32s k [] d = d"
| "put32s k (v # vs) d = put32s (k + 4) vs (put32 k v d)"

definition get32s :: "nat \<Rightarrow> nat \<Rightarrow> u8 list \<Rightarrow> u32 list" where
  "get32s k n d = map (\<lambda>i. get32 d (k + 4 * i)) [0..<n]"

definition splice :: "nat \<Rightarrow> u8 list \<Rightarrow> u8 list \<Rightarrow> u8 list" where
  "splice k xs d = take k d @ xs @ drop (k + length xs) d"

lemma put_length [simp]: "length (put16 k v d) = length d" "length (put32 k w d) = length d"
  by (simp_all add: put16_def put32_def)

lemma put32s_length [simp]: "length (put32s k vs d) = length d"
  by (induction vs arbitrary: k d) simp_all

lemma splice_length: "k + length xs \<le> length d \<Longrightarrow> length (splice k xs d) = length d"
  by (simp add: splice_def)

lemma get16_put16 [simp]:
  assumes "k + 1 < length d"
  shows "get16 (put16 k v d) k = v"
proof (rule bit_word_eqI)
  fix n assume "n < LENGTH(16)"
  then consider "n < 8" | "8 \<le> n" "n < 16" by fastforce
  then show "bit (get16 (put16 k v d) k) n = bit v n"
    by cases (use assms in \<open>auto simp: get16_def put16_def bit_simps\<close>)
qed

lemma get32_put32 [simp]:
  assumes "k + 3 < length d"
  shows "get32 (put32 k v d) k = v"
proof (rule bit_word_eqI)
  fix n assume "n < LENGTH(32)"
  then consider "n < 8" | "8 \<le> n" "n < 16" | "16 \<le> n" "n < 24" | "24 \<le> n" "n < 32" by fastforce
  then show "bit (get32 (put32 k v d) k) n = bit v n"
    by cases (use assms in \<open>auto simp: get32_def put32_def bit_simps\<close>)
qed

lemma get16_put_other:
  "j + 2 \<le> k \<or> k + 2 \<le> j \<Longrightarrow> get16 (put16 k v d) j = get16 d j"
  "j + 2 \<le> k \<or> k + 4 \<le> j \<Longrightarrow> get16 (put32 k w d) j = get16 d j"
  by (auto simp: get16_def put16_def put32_def)

lemma get32_put_other:
  "j + 4 \<le> k \<or> k + 4 \<le> j \<Longrightarrow> get32 (put32 k w d) j = get32 d j"
  "j + 4 \<le> k \<or> k + 2 \<le> j \<Longrightarrow> get32 (put16 k v d) j = get32 d j"
  by (auto simp: get32_def put16_def put32_def)

lemma get32_put32s_before: "j + 4 \<le> k \<Longrightarrow> get32 (put32s k vs d) j = get32 d j"
  by (induction vs arbitrary: k d) (simp_all add: get32_put_other)

lemma get32s_put32s:
  "k + 4 * length vs \<le> length d \<Longrightarrow> n = length vs \<Longrightarrow> get32s k n (put32s k vs d) = vs"
proof (induction vs arbitrary: k d n)
  case (Cons v vs)
  have "get32s k n (put32s k (v # vs) d) =
      get32 (put32s (k + 4) vs (put32 k v d)) k # get32s (k + 4) (length vs) (put32s (k + 4) vs (put32 k v d))"
    using Cons.prems by (simp add: get32s_def map_upt_Suc algebra_simps del: upt_Suc)
  with Cons show ?case by (simp add: get32_put32s_before)
qed (simp add: get32s_def)

lemma nth_splice:
  assumes "k + length xs \<le> length d" and "j < length d"
  shows "splice k xs d ! j = (if k \<le> j \<and> j < k + length xs then xs ! (j - k) else d ! j)"
  using assms by (auto simp: splice_def nth_append)

end
