(* ===== verification/Log.thy ===== *)
theory Log
  imports Bio Block
begin

section \<open>The log\<close>

text \<open>
  \<^verbatim>\<open>src/log.c\<close>, with \<^verbatim>\<open>readsb\<close> of \<^verbatim>\<open>src/fs.c\<close>. Block numbers in the header keep their 32 bits, so that the conversions between
  \<^verbatim>\<open>int\<close> and \<^verbatim>\<open>uint\<close> do not show. An access to \<^verbatim>\<open>log.lh.block\<close> outside its \<^verbatim>\<open>LOGSIZE\<close> entries is the fault \<open>NullPtr\<close>.
\<close>

abbreviation (input) LOGSIZE :: nat where "LOGSIZE \<equiv> 30"
abbreviation (input) MAXOPBLOCKS :: int where "MAXOPBLOCKS \<equiv> 10"

record superblock =
  sb_size :: u32
  sb_nblocks :: u32
  sb_ninodes :: u32
  sb_nlog :: u32
  sb_logstart :: u32
  sb_inodestart :: u32
  sb_bmapstart :: u32

record logst = bcachest +
  log_start :: int
  log_size :: int
  outstanding :: int
  committing :: bool
  log_dev :: u32
  lh_n :: int
  lh_block :: "u32 list"

definition decode_sb :: "u8 list \<Rightarrow> superblock" where
  "decode_sb d = \<lparr>sb_size = get32 d 0, sb_nblocks = get32 d 4, sb_ninodes = get32 d 8, sb_nlog = get32 d 12,
     sb_logstart = get32 d 16, sb_inodestart = get32 d 20, sb_bmapstart = get32 d 24\<rparr>"

definition readsb :: "u32 \<Rightarrow> 'a bcachest_scheme \<Rightarrow> 'a bcachest_scheme fault + superblock \<times> 'a bcachest_scheme" where
  "readsb dev s =
     kbind (bread dev 1 s) (\<lambda>(bp, s).
     let sb = decode_sb (bdata (bufs s ! bp)) in
     kbind (brelse bp s) (\<lambda>s. Inr (sb, s)))"

subsection \<open>Operations\<close>

definition log_block :: "nat \<Rightarrow> 'a logst_scheme \<Rightarrow> u32" where
  "log_block tail s = of_int (log_start s + int tail + 1)"

text \<open>The loop of \<^verbatim>\<open>install_trans\<close> from iteration \<open>tail\<close> on, \<open>k\<close> iterations.\<close>

primrec install_trans_loop :: "nat \<Rightarrow> nat \<Rightarrow> 'a logst_scheme \<Rightarrow> 'a logst_scheme fault + 'a logst_scheme" where
  "install_trans_loop 0 tail s = Inr s"
| "install_trans_loop (Suc k) tail s =
     kbind (bread (log_dev s) (log_block tail s) s) (\<lambda>(lbuf, s).
     if tail \<ge> LOGSIZE then Inl NullPtr
     else
       kbind (bread (log_dev s) (lh_block s ! tail) s) (\<lambda>(dbuf, s).
       let s = upd_buf dbuf (\<lambda>x. x\<lparr>bdata := bdata (bufs s ! lbuf)\<rparr>) s in
       kbind (bwrite dbuf s) (\<lambda>s.
       kbind (brelse lbuf s) (\<lambda>s.
       kbind (brelse dbuf s) (\<lambda>s. install_trans_loop k (Suc tail) s)))))"

definition install_trans :: "'a logst_scheme \<Rightarrow> 'a logst_scheme fault + 'a logst_scheme" where
  "install_trans s = install_trans_loop (nat (lh_n s)) 0 s"

definition read_head :: "'a logst_scheme \<Rightarrow> 'a logst_scheme fault + 'a logst_scheme" where
  "read_head s =
     kbind (bread (log_dev s) (of_int (log_start s)) s) (\<lambda>(buf, s).
     let d = bdata (bufs s ! buf);
         s = s\<lparr>lh_n := sint (get32 d 0)\<rparr> in
     if lh_n s > int LOGSIZE then Inl NullPtr
     else
       let s = s\<lparr>lh_block := get32s 4 (nat (lh_n s)) d @ drop (nat (lh_n s)) (lh_block s)\<rparr> in
       brelse buf s)"

definition write_head :: "'a logst_scheme \<Rightarrow> 'a logst_scheme fault + 'a logst_scheme" where
  "write_head s =
     kbind (bread (log_dev s) (of_int (log_start s)) s) (\<lambda>(buf, s).
     if lh_n s > int LOGSIZE then Inl NullPtr
     else
       let s = upd_buf buf (\<lambda>x. x\<lparr>bdata := put32s 4 (take (nat (lh_n s)) (lh_block s)) (put32 0 (of_int (lh_n s)) (bdata x))\<rparr>) s in
       kbind (bwrite buf s) (brelse buf))"

definition recover_from_log :: "'a logst_scheme \<Rightarrow> 'a logst_scheme fault + 'a logst_scheme" where
  "recover_from_log s =
     kbind (read_head s) (\<lambda>s.
     kbind (install_trans s) (\<lambda>s.
     write_head (s\<lparr>lh_n := 0\<rparr>)))"

text \<open>\<^verbatim>\<open>sizeof(struct logheader)\<close> is 124, so the panic of \<^verbatim>\<open>initlog\<close> never happens.\<close>

definition initlog :: "u32 \<Rightarrow> 'a logst_scheme \<Rightarrow> 'a logst_scheme fault + 'a logst_scheme" where
  "initlog dev s =
     (let s = initlock LogLock s in
      kbind (readsb dev s) (\<lambda>(sb, s).
      recover_from_log (s\<lparr>log_start := sint (sb_logstart sb), log_size := sint (sb_nlog sb), log_dev := dev\<rparr>)))"

definition begin_op_loop :: "'a logst_scheme \<Rightarrow> 'a logst_scheme fault + 'a logst_scheme" where
  "begin_op_loop s =
     (if committing s then sleep ChanLog LogLock s
      else if lh_n s + (outstanding s + 1) * MAXOPBLOCKS > int LOGSIZE then sleep ChanLog LogLock s
      else release LogLock (s\<lparr>outstanding := outstanding s + 1\<rparr>))"

definition begin_op :: "'a logst_scheme \<Rightarrow> 'a logst_scheme fault + 'a logst_scheme" where
  "begin_op s = kbind (acquire LogLock s) begin_op_loop"

definition begin_op_resume :: "nat \<Rightarrow> bool \<Rightarrow> 'a logst_scheme \<Rightarrow> 'a logst_scheme fault + 'a logst_scheme" where
  "begin_op_resume i intena_saved s = kbind (sleep_resume i LogLock intena_saved s) begin_op_loop"

primrec write_log_loop :: "nat \<Rightarrow> nat \<Rightarrow> 'a logst_scheme \<Rightarrow> 'a logst_scheme fault + 'a logst_scheme" where
  "write_log_loop 0 tail s = Inr s"
| "write_log_loop (Suc k) tail s =
     kbind (bread (log_dev s) (log_block tail s) s) (\<lambda>(t, s).
     if tail \<ge> LOGSIZE then Inl NullPtr
     else
       kbind (bread (log_dev s) (lh_block s ! tail) s) (\<lambda>(from, s).
       let s = upd_buf t (\<lambda>x. x\<lparr>bdata := bdata (bufs s ! from)\<rparr>) s in
       kbind (bwrite t s) (\<lambda>s.
       kbind (brelse from s) (\<lambda>s.
       kbind (brelse t s) (\<lambda>s. write_log_loop k (Suc tail) s)))))"

definition write_log :: "'a logst_scheme \<Rightarrow> 'a logst_scheme fault + 'a logst_scheme" where
  "write_log s = write_log_loop (nat (lh_n s)) 0 s"

definition commit :: "'a logst_scheme \<Rightarrow> 'a logst_scheme fault + 'a logst_scheme" where
  "commit s =
     (if lh_n s > 0 then
        kbind (write_log s) (\<lambda>s.
        kbind (write_head s) (\<lambda>s.
        kbind (install_trans s) (\<lambda>s.
        write_head (s\<lparr>lh_n := 0\<rparr>))))
      else Inr s)"

definition end_op :: "'a logst_scheme \<Rightarrow> 'a logst_scheme fault + 'a logst_scheme" where
  "end_op s =
     kbind (acquire LogLock s) (\<lambda>s.
     let s = s\<lparr>outstanding := outstanding s - 1\<rparr> in
     if committing s then Inl (Panic ''log.committing'')
     else
       let do_commit = (outstanding s = 0) in
       kbind (if do_commit then Inr (s\<lparr>committing := True\<rparr>) else wakeup ChanLog s) (\<lambda>s.
       kbind (release LogLock s) (\<lambda>s.
       if do_commit then
         kbind (commit s) (\<lambda>s.
         kbind (acquire LogLock s) (\<lambda>s.
         kbind (wakeup ChanLog (s\<lparr>committing := False\<rparr>)) (release LogLock)))
       else Inr s)))"

definition log_write :: "nat \<Rightarrow> 'a logst_scheme \<Rightarrow> 'a logst_scheme fault + 'a logst_scheme" where
  "log_write b s =
     (if lh_n s \<ge> int LOGSIZE \<or> lh_n s \<ge> log_size s - 1 then Inl (Panic ''too big a transaction'')
      else if outstanding s < 1 then Inl (Panic ''log_write outside of trans'')
      else
        kbind (acquire LogLock s) (\<lambda>s.
        let n = nat (lh_n s);
            i = (case find_idx (\<lambda>x. x = blockno (bufs s ! b)) (take n (lh_block s)) of Some i \<Rightarrow> i | None \<Rightarrow> n);
            s = s\<lparr>lh_block := (lh_block s)[i := blockno (bufs s ! b)]\<rparr>;
            s = (if i = n then s\<lparr>lh_n := lh_n s + 1\<rparr> else s) in
        release LogLock (upd_buf b (\<lambda>x. x\<lparr>bdirty := True\<rparr>) s)))"

subsection \<open>Copying a block\<close>

text \<open>Both loops copy the block \<open>a\<close> to the block \<open>b\<close> and write \<open>b\<close> to the disk, with both buffers held.\<close>

lemma copy_ok:
  assumes io: "bio c i s" and held: "held s = {p, q}" "p \<noteq> q" and blk: "blockno (bufs s ! p) = a" "blockno (bufs s ! q) = b"
    and clean: "bdirty (bufs s ! p) \<or> bview s a = disk s a"
  shows "\<exists>t. bwrite q (upd_buf q (\<lambda>x. x\<lparr>bdata := bdata (bufs s ! p)\<rparr>) s) = Inr t \<and> bio c i t \<and> bkeep s t \<and> held t = {p, q} \<and>
    bview t = (bview s)(b := bview s a) \<and> disk t = (disk s)(b := bview s a) \<and> pinned t = pinned s - {b} \<and>
    dtrace t = dtrace s @ [(b, bview s a)] \<and> blockno (bufs t ! q) = b \<and> bufs t ! p = bufs s ! p"
proof -
  have p: "p \<in> held s" and q: "q \<in> held s" using held by auto
  let ?t = "upd_buf q (\<lambda>x. x\<lparr>bdata := bdata (bufs s ! p)\<rparr>) s"
  note P = held_buf [OF io p]
  note T = buf_write [OF io q P(2)]
  have "q \<in> held ?t" using T(2) q by simp
  from bwrite_ok [OF T(1) this] obtain t where t: "bwrite q ?t = Inr t" "bio c i t" "bkeep ?t t" "held t = held ?t" "bview t = bview ?t"
    "disk t = (disk ?t)(blockno (bufs ?t ! q) := bview ?t (blockno (bufs ?t ! q)))"
    "dtrace t = dtrace ?t @ [(blockno (bufs ?t ! q), bview ?t (blockno (bufs ?t ! q)))]" "pinned t = pinned ?t - {blockno (bufs ?t ! q)}"
    "blockno (bufs t ! q) = blockno (bufs ?t ! q)" "\<forall>j. j \<noteq> q \<longrightarrow> bufs t ! j = bufs ?t ! j" by blast
  have "bkeep s t" using bkeep_trans [OF T(7) t(3)] .
  then show ?thesis using t T blk P(1) held by auto
qed

text \<open>Releasing the two buffers, in either order.\<close>

lemma brelse2_ok:
  assumes io: "bio c i s" and held: "held s = {p, q}" "p \<noteq> q"
    and clean: "bdirty (bufs s ! p) \<or> bview s (blockno (bufs s ! p)) = disk s (blockno (bufs s ! p))"
      "bdirty (bufs s ! q) \<or> bview s (blockno (bufs s ! q)) = disk s (blockno (bufs s ! q))"
  shows "\<exists>t u. brelse p s = Inr t \<and> brelse q t = Inr u \<and> bio c i u \<and> bkeep s u \<and> held u = {} \<and> bview u = bview s \<and>
    disk u = disk s \<and> pinned u = pinned s \<and> dtrace u = dtrace s"
proof -
  have p: "p \<in> held s" and q: "q \<in> held s" using held by auto
  note P = held_buf [OF io p] and Q = held_buf [OF io q]
  obtain t where t: "brelse p s = Inr t" "bio c i t" "bkeep s t" "held t = held s - {p}" "bview t = bview s" "disk t = disk s"
    "dtrace t = dtrace s" "pinned t = pinned s" "bufs t ! q = bufs s ! q"
    using brelse_ok [OF io p] clean(1) P(1) held(2) by auto
  have q': "q \<in> held t" using q t(4) held(2) by simp
  obtain u where u: "brelse q t = Inr u" "bio c i u" "bkeep t u" "held u = held t - {q}" "bview u = bview t" "disk u = disk t"
    "dtrace u = dtrace t" "pinned u = pinned t"
    using brelse_ok [OF t(2) q'] clean(2) Q(1) t(6,9) by auto
  have "held u = {}" using u(4) t(4) held by auto
  moreover have "bkeep s u" using bkeep_trans [OF t(3) u(3)] .
  ultimately show ?thesis using t u by auto
qed

lemma bview_clean:
  assumes "bio c i s" and "held s = {}" and "b \<notin> pinned s"
  shows "bview s b = disk s b"
proof (cases "cached s b")
  case (Some k)
  have ok: "bcache_ok s" using assms(1) by (simp add: bio_def)
  note K = cached_SomeD [OF ok Some]
  have "\<not> bdirty (bufs s ! k)" "refcnt (bufs s ! k) = 0" using assms(2,3) K pinnedI [OF K(1), of s] by (auto simp: held_def)
  then show ?thesis using buf_okD(8) [OF bcache_okD(3) [OF ok K(1)]] K Some by (simp add: bview_def)
qed (simp add: bview_def)

lemma bread2_ok:
  assumes io: "bio c i s" and held: "held s = {}" and ab: "a \<noteq> b" "a < disksize s" "b < disksize s"
    and room: "card (pinned s) < NBUF" "b \<in> pinned s \<or> card (pinned s) + 1 < NBUF"
  shows "\<exists>p t q u. bread 1 a s = Inr (p, t) \<and> bkeep s t \<and> bread 1 b t = Inr (q, u) \<and> bio c i u \<and> bkeep s u \<and> held u = {p, q} \<and> p \<noteq> q \<and>
    blockno (bufs u ! p) = a \<and> blockno (bufs u ! q) = b \<and> bview u = bview s \<and> disk u = disk s \<and> pinned u = pinned s \<and> dtrace u = dtrace s"
proof -
  obtain p t where t: "bread 1 a s = Inr (p, t)" "bio c i t" "bkeep s t" "held t = {p}" "blockno (bufs t ! p) = a" "bview t = bview s"
    "disk t = disk s" "pinned t = pinned s" "dtrace t = dtrace s"
    using bread_ok [OF io ab(2)] held room(1) by auto
  have ds: "disksize t = disksize s" using t(3) by (simp add: bkeep_def)
  obtain q u where u: "bread 1 b t = Inr (q, u)" "bio c i u" "bkeep t u" "q \<notin> held t" "held u = insert q (held t)" "blockno (bufs u ! q) = b"
    "bview u = bview t" "disk u = disk t" "pinned u = pinned t" "dtrace u = dtrace t" "bufs u ! p = bufs t ! p"
    using bread_ok [OF t(2), of b] ab ds t room(2) by auto
  have "bkeep s u" using bkeep_trans [OF t(3) u(3)] .
  moreover have "held u = {p, q}" "p \<noteq> q" using t(4) u(4,5) by auto
  ultimately show ?thesis using t u by auto
qed

text \<open>One iteration of \<^verbatim>\<open>install_trans\<close> (from \<open>a\<close> to \<open>b\<close>) and of \<^verbatim>\<open>write_log\<close> (from \<open>b\<close> to \<open>a\<close>).\<close>

definition copy_second where
  "copy_second a b s =
     kbind (bread 1 a s) (\<lambda>(p, s). kbind (bread 1 b s) (\<lambda>(q, s).
     kbind (bwrite q (upd_buf q (\<lambda>x. x\<lparr>bdata := bdata (bufs s ! p)\<rparr>) s)) (\<lambda>s.
     kbind (brelse p s) (\<lambda>s. brelse q s))))"

definition copy_first where
  "copy_first a b s =
     kbind (bread 1 a s) (\<lambda>(p, s). kbind (bread 1 b s) (\<lambda>(q, s).
     kbind (bwrite p (upd_buf p (\<lambda>x. x\<lparr>bdata := bdata (bufs s ! q)\<rparr>) s)) (\<lambda>s.
     kbind (brelse q s) (\<lambda>s. brelse p s))))"

lemma copy_second_ok:
  assumes io: "bio c i s" and held: "held s = {}" and ab: "a \<noteq> b" "a < disksize s" "b < disksize s"
    and room: "card (pinned s) < NBUF" "b \<in> pinned s \<or> card (pinned s) + 1 < NBUF"
  shows "\<exists>t. copy_second a b s = Inr t \<and> bio c i t \<and> bkeep s t \<and> held t = {} \<and> bview t = (bview s)(b := bview s a) \<and>
    disk t = (disk s)(b := bview s a) \<and> pinned t = pinned s - {b} \<and> dtrace t = dtrace s @ [(b, bview s a)]"
proof -
  obtain p t q u where u: "bread 1 a s = Inr (p, t)" "bread 1 b t = Inr (q, u)" "bio c i u" "bkeep s u" "held u = {p, q}" "p \<noteq> q"
    "blockno (bufs u ! p) = a" "blockno (bufs u ! q) = b" "bview u = bview s" "disk u = disk s" "pinned u = pinned s" "dtrace u = dtrace s"
    using bread2_ok [OF assms] by blast
  have p: "p \<in> held u" and q: "q \<in> held u" using u(5) by auto
  have clean: "bdirty (bufs u ! p) \<or> bview u a = disk u a"
    using pinned_iff [OF u(3) p] u bview_clean [OF io held, of a] by auto
  obtain v where v: "bwrite q (upd_buf q (\<lambda>x. x\<lparr>bdata := bdata (bufs u ! p)\<rparr>) u) = Inr v" "bio c i v" "bkeep u v" "held v = {p, q}"
    "bview v = (bview u)(b := bview u a)" "disk v = (disk u)(b := bview u a)" "pinned v = pinned u - {b}"
    "dtrace v = dtrace u @ [(b, bview u a)]" "blockno (bufs v ! q) = b" "bufs v ! p = bufs u ! p"
    using copy_ok [OF u(3,5-8) clean] by blast
  have c1: "bdirty (bufs v ! p) \<or> bview v (blockno (bufs v ! p)) = disk v (blockno (bufs v ! p))" using clean u(7) v(5,6,10) ab(1) by simp
  have c2: "bdirty (bufs v ! q) \<or> bview v (blockno (bufs v ! q)) = disk v (blockno (bufs v ! q))" using v(5,6,9) by simp
  obtain w x where w: "brelse p v = Inr w" "brelse q w = Inr x" "bio c i x" "bkeep v x" "held x = {}" "bview x = bview v"
    "disk x = disk v" "pinned x = pinned v" "dtrace x = dtrace v"
    using brelse2_ok [OF v(2,4) u(6) c1 c2] by blast
  have "bkeep s x" using bkeep_trans [OF bkeep_trans [OF u(4) v(3)] w(4)] .
  then show ?thesis using u v w by (simp add: copy_second_def)
qed

lemma copy_first_ok:
  assumes io: "bio c i s" and held: "held s = {}" and ab: "a \<noteq> b" "a < disksize s" "b < disksize s"
    and room: "card (pinned s) < NBUF" "b \<in> pinned s \<or> card (pinned s) + 1 < NBUF"
  shows "\<exists>t. copy_first a b s = Inr t \<and> bio c i t \<and> bkeep s t \<and> held t = {} \<and> bview t = (bview s)(a := bview s b) \<and>
    disk t = (disk s)(a := bview s b) \<and> pinned t = pinned s - {a} \<and> dtrace t = dtrace s @ [(a, bview s b)]"
proof -
  obtain p t q u where u: "bread 1 a s = Inr (p, t)" "bread 1 b t = Inr (q, u)" "bio c i u" "bkeep s u" "held u = {p, q}" "p \<noteq> q"
    "blockno (bufs u ! p) = a" "blockno (bufs u ! q) = b" "bview u = bview s" "disk u = disk s" "pinned u = pinned s" "dtrace u = dtrace s"
    using bread2_ok [OF assms] by blast
  have q: "q \<in> held u" using u(5) by auto
  have held': "held u = {q, p}" "q \<noteq> p" using u(5,6) by auto
  have clean: "bdirty (bufs u ! q) \<or> bview u b = disk u b"
    using pinned_iff [OF u(3) q] u bview_clean [OF io held, of b] by auto
  obtain v where v: "bwrite p (upd_buf p (\<lambda>x. x\<lparr>bdata := bdata (bufs u ! q)\<rparr>) u) = Inr v" "bio c i v" "bkeep u v" "held v = {q, p}"
    "bview v = (bview u)(a := bview u b)" "disk v = (disk u)(a := bview u b)" "pinned v = pinned u - {a}"
    "dtrace v = dtrace u @ [(a, bview u b)]" "blockno (bufs v ! p) = a" "bufs v ! q = bufs u ! q"
    using copy_ok [OF u(3) held' u(8,7) clean] by blast
  have c1: "bdirty (bufs v ! q) \<or> bview v (blockno (bufs v ! q)) = disk v (blockno (bufs v ! q))" using clean u(8) v(5,6,10) ab(1) by simp
  have c2: "bdirty (bufs v ! p) \<or> bview v (blockno (bufs v ! p)) = disk v (blockno (bufs v ! p))" using v(5,6,9) by simp
  obtain w x where w: "brelse q v = Inr w" "brelse p w = Inr x" "bio c i x" "bkeep v x" "held x = {}" "bview x = bview v"
    "disk x = disk v" "pinned x = pinned v" "dtrace x = dtrace v"
    using brelse2_ok [OF v(2,4) held'(2) c1 c2] by blast
  have "bkeep s x" using bkeep_trans [OF bkeep_trans [OF u(4) v(3)] w(4)] .
  then show ?thesis using u v w by (simp add: copy_first_def)
qed

subsection \<open>The loops\<close>

lemma log_more:
  assumes "bkeep s t"
  shows "log_start t = log_start s" "log_size t = log_size s" "outstanding t = outstanding s" "committing t = committing s"
    "log_dev t = log_dev s" "lh_n t = lh_n s" "lh_block t = lh_block s" "log_block k t = log_block k s" "disksize t = disksize s"
    "logst.more t = logst.more s"
  using assms by (cases s; cases t; simp add: bkeep_def log_block_def)+

lemma install_Suc:
  assumes "bio c i s" and "held s = {}" and "log_block tail s < disksize s" and "card (pinned s) < NBUF" and "log_dev s = 1" and "tail < LOGSIZE"
  shows "install_trans_loop (Suc k) tail s = kbind (copy_second (log_block tail s) (lh_block s ! tail) s) (install_trans_loop k (Suc tail))"
proof -
  obtain p t where t: "bread 1 (log_block tail s) s = Inr (p, t)" "bkeep s t" using bread_ok [OF assms(1,3)] assms(2,4) by auto
  note L = log_more [OF t(2)]
  show ?thesis
    using t(1) assms(5,6) L(5,7)
    by (cases "bread 1 (lh_block s ! tail) t") (simp_all add: copy_second_def kbind_assoc Let_def split_beta)
qed

lemma write_log_Suc:
  assumes "bio c i s" and "held s = {}" and "log_block tail s < disksize s" and "card (pinned s) < NBUF" and "log_dev s = 1" and "tail < LOGSIZE"
  shows "write_log_loop (Suc k) tail s = kbind (copy_first (log_block tail s) (lh_block s ! tail) s) (write_log_loop k (Suc tail))"
proof -
  obtain p t where t: "bread 1 (log_block tail s) s = Inr (p, t)" "bkeep s t" using bread_ok [OF assms(1,3)] assms(2,4) by auto
  note L = log_more [OF t(2)]
  show ?thesis
    using t(1) assms(5,6) L(5,7)
    by (cases "bread 1 (lh_block s ! tail) t") (simp_all add: copy_first_def kbind_assoc Let_def split_beta)
qed

text \<open>Where the log is, and the blocks \<open>lh_block s ! 0, ..., lh_block s ! (n - 1)\<close> that it holds.\<close>

definition in_log :: "'a logst_scheme \<Rightarrow> u32 \<Rightarrow> bool" where
  "in_log s b \<longleftrightarrow> log_start s \<le> uint b \<and> uint b < log_start s + log_size s"

definition log_ok :: "nat \<Rightarrow> 'a logst_scheme \<Rightarrow> bool" where
  "log_ok n s \<longleftrightarrow> log_dev s = 1 \<and> 0 \<le> log_start s \<and> log_start s + log_size s \<le> uint (disksize s) \<and> int n < log_size s \<and> n < LOGSIZE \<and>
     length (lh_block s) = LOGSIZE \<and> distinct (take n (lh_block s)) \<and>
     (\<forall>k < n. lh_block s ! k < disksize s \<and> \<not> in_log s (lh_block s ! k))"

lemma log_okD:
  assumes "log_ok n s"
  shows "log_dev s = 1" "0 \<le> log_start s" "log_start s + log_size s \<le> uint (disksize s)" "int n < log_size s" "n < LOGSIZE"
    "length (lh_block s) = LOGSIZE" "distinct (take n (lh_block s))"
    "k < n \<Longrightarrow> lh_block s ! k < disksize s" "k < n \<Longrightarrow> \<not> in_log s (lh_block s ! k)"
  using assms unfolding log_ok_def by blast+

lemma log_ok_keep: "bkeep s t \<Longrightarrow> log_ok n t = log_ok n s" "bkeep s t \<Longrightarrow> in_log t b = in_log s b"
  using log_more [of s t] by (simp_all add: log_ok_def in_log_def)

lemma uint_of_int32: "0 \<le> x \<Longrightarrow> x < 2 ^ 32 \<Longrightarrow> uint (of_int x :: u32) = x"
  by (simp add: unsigned_of_int take_bit_int_eq_self)

lemma uint_log_block:
  assumes "log_ok n s" and "k < n"
  shows "uint (log_block k s) = log_start s + int k + 1"
proof -
  have "0 \<le> log_start s + int k + 1" "log_start s + int k + 1 < 2 ^ 32"
    using log_okD [OF assms(1)] assms(2) uint_lt2p [of "disksize s"] by simp_all
  then show ?thesis unfolding log_block_def by (rule uint_of_int32)
qed

lemma log_block_facts:
  assumes "log_ok n s" and "k < n"
  shows "log_block k s < disksize s" "in_log s (log_block k s)" "j < n \<Longrightarrow> log_block j s = log_block k s \<longleftrightarrow> j = k"
    "j < n \<Longrightarrow> lh_block s ! j \<noteq> log_block k s" "of_int (log_start s) \<noteq> log_block k s"
proof -
  note U = uint_log_block [OF assms] and D = log_okD [OF assms(1)]
  show lt: "log_block k s < disksize s" using U D(3,4) assms(2) by (simp add: word_less_def)
  show il: "in_log s (log_block k s)" using U D(4) assms(2) by (simp add: in_log_def)
  show "log_block j s = log_block k s \<longleftrightarrow> j = k" if "j < n"
    using U uint_log_block [OF assms(1) that] by (metis add_diff_cancel_right' add_left_cancel of_nat_eq_iff)
  show "lh_block s ! j \<noteq> log_block k s" if "j < n" using D(9) [OF that] il by metis
  have "uint (of_int (log_start s) :: u32) = log_start s"
    using D(2,3,4) uint_lt2p [of "disksize s"] by (simp add: unsigned_of_int take_bit_int_eq_self)
  then show "of_int (log_start s) \<noteq> log_block k s" using U by auto
qed

lemma head_facts:
  assumes "log_ok n s"
  shows "in_log s (of_int (log_start s))" "(of_int (log_start s) :: u32) < disksize s"
    "j < n \<Longrightarrow> lh_block s ! j \<noteq> of_int (log_start s)"
proof -
  note D = log_okD [OF assms]
  have U: "uint (of_int (log_start s) :: u32) = log_start s"
    using D(2,3,4) uint_lt2p [of "disksize s"] by (simp add: unsigned_of_int take_bit_int_eq_self)
  show il: "in_log s (of_int (log_start s))" using U D(4) by (simp add: in_log_def)
  show "(of_int (log_start s) :: u32) < disksize s" using U D(3,4) by (simp add: word_less_def)
  show "lh_block s ! j \<noteq> of_int (log_start s)" if "j < n" using D(9) [OF that] il by metis
qed

text \<open>A list of block writes, in order.\<close>

definition apply_writes :: "('b \<times> 'd) list \<Rightarrow> ('b \<Rightarrow> 'd) \<Rightarrow> 'b \<Rightarrow> 'd" where
  "apply_writes w f = fold (\<lambda>(b, d) f. f(b := d)) w f"

lemma apply_writes_simps [simp]:
  "apply_writes [] f = f" "apply_writes ((b, d) # w) f = apply_writes w (f(b := d))"
  "apply_writes (w @ v) f = apply_writes v (apply_writes w f)"
  by (simp_all add: apply_writes_def)

lemma apply_writes_other: "b \<notin> fst ` set w \<Longrightarrow> apply_writes w f b = f b"
  by (induction w arbitrary: f) auto

lemma apply_writes_map:
  assumes "distinct (map g ks)" and "k \<in> set ks"
  shows "apply_writes (map (\<lambda>k. (g k, h k)) ks) f (g k) = h k"
  using assms
proof (induction ks arbitrary: f)
  case (Cons j ks)
  show ?case
  proof (cases "k \<in> set ks")
    case True
    with Cons show ?thesis by simp
  next
    case False
    with Cons have "k = j" "g k \<notin> fst ` set (map (\<lambda>k. (g k, h k)) ks)" by auto
    then show ?thesis by (simp add: apply_writes_other)
  qed
qed simp

definition log_writes where
  "log_writes s V j n = map (\<lambda>k. (log_block k s, V (lh_block s ! k) :: u8 list)) [j..<n]"

definition home_writes where
  "home_writes s V j n = map (\<lambda>k. (lh_block s ! k, V (log_block k s) :: u8 list)) [j..<n]"

lemma write_log_loop_ok:
  assumes "bio c i s" and "held s = {}" and "log_ok n s" and "card (pinned s) < NBUF" and "\<forall>k < n. lh_block s ! k \<in> pinned s"
    and "\<forall>k < n. log_block k s \<notin> pinned s" and "j \<le> n"
  shows "\<exists>t. write_log_loop (n - j) j s = Inr t \<and> bio c i t \<and> bkeep s t \<and> held t = {} \<and> pinned t = pinned s \<and>
    bview t = apply_writes (log_writes s (bview s) j n) (bview s) \<and> disk t = apply_writes (log_writes s (bview s) j n) (disk s) \<and>
    dtrace t = dtrace s @ log_writes s (bview s) j n"
  using assms
proof (induction "n - j" arbitrary: j s)
  case 0
  then show ?case by (simp add: log_writes_def)
next
  case (Suc m)
  have j: "j < n" and m: "m = n - Suc j" "n - j = Suc m" using Suc.hyps(2) by simp_all
  note D = log_okD [OF Suc.prems(3)] and B = log_block_facts [OF Suc.prems(3) j]
  have "card (pinned s) < 30" "lh_block s ! j \<in> pinned s" "log_block j s \<noteq> lh_block s ! j"
    using Suc.prems(4,5) B(4) [OF j] j by auto
  from copy_first_ok [OF Suc.prems(1,2) this(3) B(1) D(8) [OF j]] this obtain t where t:
    "copy_first (log_block j s) (lh_block s ! j) s = Inr t" "bio c i t" "bkeep s t" "held t = {}"
    "bview t = (bview s)(log_block j s := bview s (lh_block s ! j))" "disk t = (disk s)(log_block j s := bview s (lh_block s ! j))"
    "pinned t = pinned s - {log_block j s}" "dtrace t = dtrace s @ [(log_block j s, bview s (lh_block s ! j))]" by blast
  note K = log_more [OF t(3)]
  have pin: "pinned t = pinned s" using t(7) Suc.prems(6) j by auto
  have "\<exists>u. write_log_loop (n - Suc j) (Suc j) t = Inr u \<and> bio c i u \<and> bkeep t u \<and> held u = {} \<and> pinned u = pinned t \<and>
    bview u = apply_writes (log_writes t (bview t) (Suc j) n) (bview t) \<and> disk u = apply_writes (log_writes t (bview t) (Suc j) n) (disk t) \<and>
    dtrace u = dtrace t @ log_writes t (bview t) (Suc j) n"
    using Suc.prems(3-6) j pin K log_ok_keep(1) [OF t(3)] by (intro Suc.hyps(1) [OF m(1) t(2,4)]) simp_all
  moreover have "log_writes t (bview t) (Suc j) n = log_writes s (bview s) (Suc j) n"
    using B(4) K by (auto simp: log_writes_def t(5))
  ultimately obtain u where u: "write_log_loop (n - Suc j) (Suc j) t = Inr u" "bio c i u" "bkeep t u" "held u = {}" "pinned u = pinned t"
    "bview u = apply_writes (log_writes s (bview s) (Suc j) n) (bview t)" "disk u = apply_writes (log_writes s (bview s) (Suc j) n) (disk t)"
    "dtrace u = dtrace t @ log_writes s (bview s) (Suc j) n" by auto
  have lw: "log_writes s (bview s) j n = (log_block j s, bview s (lh_block s ! j)) # log_writes s (bview s) (Suc j) n"
    using j by (simp add: log_writes_def upt_conv_Cons)
  have "write_log_loop (n - j) j s = Inr u"
    unfolding m(2) using write_log_Suc [OF Suc.prems(1,2) B(1) _ D(1), of m] Suc.prems(4) j D(5) t(1) u(1) m(1) by simp
  moreover have "bkeep s u" using bkeep_trans [OF t(3) u(3)] .
  ultimately show ?case using u t pin lw by simp
qed

lemma finite_pinned [simp]: "finite (pinned s)"
  by (simp add: pinned_def)

lemma install_loop_ok:
  assumes "bio c i s" and "held s = {}" and "log_ok n s" and "card (pinned s) < NBUF"
    and "\<forall>k < n. j \<le> k \<longrightarrow> lh_block s ! k \<in> pinned s \<or> card (pinned s) + 1 < NBUF" and "j \<le> n"
  shows "\<exists>t. install_trans_loop (n - j) j s = Inr t \<and> bio c i t \<and> bkeep s t \<and> held t = {} \<and>
    pinned t = pinned s - (\<lambda>k. lh_block s ! k) ` {j..<n} \<and>
    bview t = apply_writes (home_writes s (bview s) j n) (bview s) \<and> disk t = apply_writes (home_writes s (bview s) j n) (disk s) \<and>
    dtrace t = dtrace s @ home_writes s (bview s) j n"
  using assms
proof (induction "n - j" arbitrary: j s)
  case 0
  then show ?case by (simp add: home_writes_def)
next
  case (Suc m)
  have j: "j < n" and m: "m = n - Suc j" "n - j = Suc m" using Suc.hyps(2) by simp_all
  note D = log_okD [OF Suc.prems(3)] and B = log_block_facts [OF Suc.prems(3) j]
  have "card (pinned s) < 30" "lh_block s ! j \<in> pinned s \<or> card (pinned s) + 1 < 30" "log_block j s \<noteq> lh_block s ! j"
    using Suc.prems(4,5) B(4) [OF j] j by auto
  from copy_second_ok [OF Suc.prems(1,2) this(3) B(1) D(8) [OF j] this(1,2)] obtain t where t:
    "copy_second (log_block j s) (lh_block s ! j) s = Inr t" "bio c i t" "bkeep s t" "held t = {}"
    "bview t = (bview s)(lh_block s ! j := bview s (log_block j s))" "disk t = (disk s)(lh_block s ! j := bview s (log_block j s))"
    "pinned t = pinned s - {lh_block s ! j}" "dtrace t = dtrace s @ [(lh_block s ! j, bview s (log_block j s))]" by blast
  note K = log_more [OF t(3)]
  have ne: "lh_block s ! k \<noteq> lh_block s ! j" if "k < n" "k \<noteq> j" for k
  proof -
    have "take n (lh_block s) ! k \<noteq> take n (lh_block s) ! j"
      using nth_eq_iff_index_eq [OF D(7), of k j] that j D(5,6) by simp
    then show ?thesis using that j by simp
  qed
  have card: "card (pinned t) \<le> card (pinned s)" unfolding t(7) by (rule card_mono) auto
  have "\<exists>u. install_trans_loop (n - Suc j) (Suc j) t = Inr u \<and> bio c i u \<and> bkeep t u \<and> held u = {} \<and>
    pinned u = pinned t - (\<lambda>k. lh_block t ! k) ` {Suc j..<n} \<and>
    bview u = apply_writes (home_writes t (bview t) (Suc j) n) (bview t) \<and> disk u = apply_writes (home_writes t (bview t) (Suc j) n) (disk t) \<and>
    dtrace u = dtrace t @ home_writes t (bview t) (Suc j) n"
  proof (rule Suc.hyps(1) [OF m(1) t(2,4)])
    show "log_ok n t" using log_ok_keep(1) [OF t(3)] Suc.prems(3) by simp
    show "card (pinned t) < NBUF" using card Suc.prems(4) by simp
    show "\<forall>k < n. Suc j \<le> k \<longrightarrow> lh_block t ! k \<in> pinned t \<or> card (pinned t) + 1 < NBUF"
    proof (intro allI impI)
      fix k assume k: "k < n" "Suc j \<le> k"
      then have "lh_block s ! k \<in> pinned s \<or> card (pinned s) + 1 < NBUF" using Suc.prems(5) by simp
      moreover have "lh_block t ! k \<in> pinned t" if "lh_block s ! k \<in> pinned s" using that ne [of k] k unfolding K(7) t(7) by simp
      moreover have "card (pinned t) + 1 < NBUF" if "card (pinned s) + 1 < NBUF" using that card by linarith
      ultimately show "lh_block t ! k \<in> pinned t \<or> card (pinned t) + 1 < NBUF" by blast
    qed
    show "Suc j \<le> n" using j by simp
  qed
  moreover have "home_writes t (bview t) (Suc j) n = home_writes s (bview s) (Suc j) n"
  proof -
    have "bview t (log_block k t) = bview s (log_block k s)" if "k < n" for k
      using log_block_facts(4) [OF Suc.prems(3) that j] K(8) by (simp add: t(5))
    then show ?thesis using K(7) by (simp add: home_writes_def)
  qed
  ultimately obtain u where u: "install_trans_loop (n - Suc j) (Suc j) t = Inr u" "bio c i u" "bkeep t u" "held u = {}"
    "pinned u = pinned t - (\<lambda>k. lh_block t ! k) ` {Suc j..<n}"
    "bview u = apply_writes (home_writes s (bview s) (Suc j) n) (bview t)" "disk u = apply_writes (home_writes s (bview s) (Suc j) n) (disk t)"
    "dtrace u = dtrace t @ home_writes s (bview s) (Suc j) n" by auto
  have hw: "home_writes s (bview s) j n = (lh_block s ! j, bview s (log_block j s)) # home_writes s (bview s) (Suc j) n"
    using j by (simp add: home_writes_def upt_conv_Cons)
  have "install_trans_loop (n - j) j s = Inr u"
    unfolding m(2) using install_Suc [OF Suc.prems(1,2) B(1) _ D(1), of m] Suc.prems(4) j D(5) t(1) u(1) m(1) by simp
  moreover have "bkeep s u" using bkeep_trans [OF t(3) u(3)] .
  moreover have "pinned u = pinned s - (\<lambda>k. lh_block s ! k) ` {j..<n}"
  proof -
    have "{j..<n} = insert j {Suc j..<n}" using j by auto
    then show ?thesis using u(5) t(7) K(7) by auto
  qed
  ultimately show ?case using u t hw by simp
qed

subsection \<open>The header\<close>

lemma logst_upd [simp]:
  "bio c i (s\<lparr>lh_n := x\<rparr>) = bio c i s" "held (s\<lparr>lh_n := x\<rparr>) = held s" "pinned (s\<lparr>lh_n := x\<rparr>) = pinned s" "bview (s\<lparr>lh_n := x\<rparr>) = bview s"
  "bio c i (s\<lparr>lh_block := y\<rparr>) = bio c i s" "held (s\<lparr>lh_block := y\<rparr>) = held s" "pinned (s\<lparr>lh_block := y\<rparr>) = pinned s"
  "bview (s\<lparr>lh_block := y\<rparr>) = bview s"
  "bio c i (s\<lparr>outstanding := z\<rparr>) = bio c i s" "held (s\<lparr>outstanding := z\<rparr>) = held s" "pinned (s\<lparr>outstanding := z\<rparr>) = pinned s"
  "bview (s\<lparr>outstanding := z\<rparr>) = bview s"
  "bio c i (s\<lparr>committing := w\<rparr>) = bio c i s" "held (s\<lparr>committing := w\<rparr>) = held s" "pinned (s\<lparr>committing := w\<rparr>) = pinned s"
  "bview (s\<lparr>committing := w\<rparr>) = bview s"
  by (simp_all add: bio_def view_cong [of "s\<lparr>lh_n := _\<rparr>" s] view_cong [of "s\<lparr>lh_block := _\<rparr>" s]
      view_cong [of "s\<lparr>outstanding := _\<rparr>" s] view_cong [of "s\<lparr>committing := _\<rparr>" s]
      bcache_ok_cong [of "s\<lparr>lh_n := _\<rparr>" s] bcache_ok_cong [of "s\<lparr>lh_block := _\<rparr>" s]
      bcache_ok_cong [of "s\<lparr>outstanding := _\<rparr>" s] bcache_ok_cong [of "s\<lparr>committing := _\<rparr>" s]
      at_proc_cong [of "s\<lparr>lh_n := _\<rparr>" s] at_proc_cong [of "s\<lparr>lh_block := _\<rparr>" s] at_proc_cong [of "s\<lparr>outstanding := _\<rparr>" s]
      at_proc_cong [of "s\<lparr>committing := _\<rparr>" s])

definition head_bytes :: "u32 list \<Rightarrow> u8 list \<Rightarrow> u8 list" where
  "head_bytes bs d = put32s 4 bs (put32 0 (of_nat (length bs)) d)"

lemma head_bytes_facts:
  assumes "length d = BSIZE" and "length bs \<le> LOGSIZE"
  shows "length (head_bytes bs d) = BSIZE" "sint (get32 (head_bytes bs d) 0) = int (length bs)" "get32s 4 (length bs) (head_bytes bs d) = bs"
proof -
  show "length (head_bytes bs d) = BSIZE" using assms by (simp add: head_bytes_def)
  have "get32 (head_bytes bs d) 0 = of_nat (length bs)" using assms by (simp add: head_bytes_def get32_put32s_before)
  then show "sint (get32 (head_bytes bs d) 0) = int (length bs)"
    using assms(2) by (simp add: signed_of_nat signed_take_bit_int_eq_self)
  show "get32s 4 (length bs) (head_bytes bs d) = bs" using assms by (simp add: head_bytes_def get32s_put32s)
qed

lemma write_head_ok:
  assumes io: "bio c i s" and held: "held s = {}" and log: "log_ok n s" and n: "lh_n s = int n" and room: "card (pinned s) < NBUF"
  defines "hb \<equiv> of_int (log_start s)"
  defines "H \<equiv> head_bytes (take n (lh_block s)) (bview s hb)"
  shows "\<exists>t. write_head s = Inr t \<and> bio c i t \<and> bkeep s t \<and> held t = {} \<and> pinned t = pinned s - {hb} \<and> bview t = (bview s)(hb := H) \<and>
    disk t = (disk s)(hb := H) \<and> dtrace t = dtrace s @ [(hb, H)]"
proof -
  note L = log_okD [OF log]
  have hb: "hb < disksize s" unfolding hb_def by (rule head_facts [OF log])
  obtain k t where t: "bread 1 hb s = Inr (k, t)" "bio c i t" "bkeep s t" "held t = {k}" "blockno (bufs t ! k) = hb" "bview t = bview s"
    "disk t = disk s" "pinned t = pinned s" "dtrace t = dtrace s"
    using bread_ok [OF io hb] held room by auto
  note K = log_more [OF t(3)]
  have k: "k \<in> held t" using t(4) by simp
  have data: "bdata (bufs t ! k) = bview s hb" using held_buf(1) [OF t(2) k] t by simp
  have len: "length (bview s hb) = BSIZE" using bview_length [of s hb] io by (simp add: bio_def)
  have tk: "length (take n (lh_block s)) = n" using L(5,6) by simp
  have H: "length H = BSIZE" unfolding H_def using head_bytes_facts(1) [OF len] L(5) by simp
  let ?t = "upd_buf k (\<lambda>x. x\<lparr>bdata := put32s 4 (take (nat (lh_n t)) (lh_block t)) (put32 0 (of_int (lh_n t)) (bdata x))\<rparr>) t"
  have e: "?t = upd_buf k (\<lambda>x. x\<lparr>bdata := H\<rparr>) t"
    using data n tk K by (simp add: upd_buf_def H_def head_bytes_def)
  note T = buf_write [OF t(2) k H]
  have "k \<in> held (upd_buf k (\<lambda>x. x\<lparr>bdata := H\<rparr>) t)" using T(2) k by simp
  from bwrite_ok [OF T(1) this] T t obtain u where u: "bwrite k ?t = Inr u" "bio c i u" "bkeep t u" "held u = {k}" "bview u = (bview s)(hb := H)"
    "disk u = (disk s)(hb := H)" "dtrace u = dtrace s @ [(hb, H)]" "pinned u = pinned s - {hb}" "blockno (bufs u ! k) = hb"
    unfolding e using bkeep_trans [OF T(7)] by auto
  have "bdata (bufs u ! k) = disk u (blockno (bufs u ! k))" using held_buf(1) [OF u(2), of k] u by simp
  then obtain v where v: "brelse k u = Inr v" "bio c i v" "bkeep u v" "held v = {}" "bview v = bview u" "disk v = disk u" "dtrace v = dtrace u"
    "pinned v = pinned u" using brelse_ok [OF u(2), of k] u(4) by auto
  have "write_head s = Inr v"
    using t(1) K u(1) v(1) L(1,5) n unfolding write_head_def hb_def by (simp add: Let_def)
  moreover have "bkeep s v" using bkeep_trans [OF bkeep_trans [OF t(3) u(3)] v(3)] .
  ultimately show ?thesis using u v by simp
qed

lemma write_head_empty:
  assumes "bio c i s" and "held s = {}" and "log_ok n s" and "card (pinned s) < NBUF"
  defines "hb \<equiv> of_int (log_start s)"
  shows "\<exists>t. write_head (s\<lparr>lh_n := 0\<rparr>) = Inr t \<and> bio c i t \<and> bkeep (s\<lparr>lh_n := 0\<rparr>) t \<and> held t = {} \<and> pinned t = pinned s - {hb} \<and>
    bview t = (bview s)(hb := head_bytes [] (bview s hb)) \<and> disk t = (disk s)(hb := head_bytes [] (bview s hb)) \<and>
    dtrace t = dtrace s @ [(hb, head_bytes [] (bview s hb))]"
proof -
  let ?s = "s\<lparr>lh_n := 0\<rparr>"
  have "bio c i ?s" "held ?s = {}" "lh_n ?s = int 0" "card (pinned ?s) < NBUF" using assms by simp_all
  moreover have "log_ok 0 ?s" using assms(3) by (simp add: log_ok_def in_log_def)
  ultimately show ?thesis using write_head_ok [of c i ?s 0] unfolding hb_def by simp
qed

subsection \<open>Commit and recovery\<close>

text \<open>The state in which \<^verbatim>\<open>commit\<close> is called: \<open>n\<close> blocks are in the transaction and pinned in the cache, and the header on the disk
  is empty.\<close>

definition commit_ready :: "nat \<Rightarrow> nat \<Rightarrow> nat \<Rightarrow> 'a logst_scheme \<Rightarrow> bool" where
  "commit_ready c i n s \<longleftrightarrow> bio c i s \<and> held s = {} \<and> log_ok n s \<and> lh_n s = int n \<and> pinned s = set (take n (lh_block s)) \<and>
     get32 (disk s (of_int (log_start s))) 0 = 0"

text \<open>The writes of \<^verbatim>\<open>commit\<close>: the blocks to the log, the header, the blocks to their homes, the header.\<close>

definition full_head :: "nat \<Rightarrow> 'a logst_scheme \<Rightarrow> u8 list" where
  "full_head n s = head_bytes (take n (lh_block s)) (bview s (of_int (log_start s)))"

definition commit_writes :: "nat \<Rightarrow> 'a logst_scheme \<Rightarrow> (u32 \<times> u8 list) list" where
  "commit_writes n s = log_writes s (bview s) 0 n @ [(of_int (log_start s), full_head n s)] @
     map (\<lambda>k. (lh_block s ! k, bview s (lh_block s ! k))) [0..<n] @ [(of_int (log_start s), head_bytes [] (full_head n s))]"

lemma pinned_nth:
  assumes "log_ok n s" and "pinned s = set (take n (lh_block s))"
  shows "pinned s = (\<lambda>k. lh_block s ! k) ` {0..<n}" "card (pinned s) = n"
proof -
  note L = log_okD [OF assms(1)]
  have "take n (lh_block s) = map (\<lambda>k. lh_block s ! k) [0..<n]" using L(5,6) by (intro nth_equalityI) simp_all
  then show "pinned s = (\<lambda>k. lh_block s ! k) ` {0..<n}" using assms(2) by simp
  show "card (pinned s) = n" using assms(2) distinct_card [OF L(7)] L(5,6) by simp
qed

lemma apply_log_writes:
  assumes "log_ok n s"
  shows "k < n \<Longrightarrow> apply_writes (log_writes s V 0 n) f (log_block k s) = V (lh_block s ! k)"
    and "\<not> in_log s b \<Longrightarrow> apply_writes (log_writes s V 0 n) f b = f b"
    and "apply_writes (log_writes s V 0 n) f (of_int (log_start s)) = f (of_int (log_start s))"
proof -
  note B = log_block_facts [OF assms]
  show "apply_writes (log_writes s V 0 n) f (log_block k s) = V (lh_block s ! k)" if "k < n"
    using that B(3) unfolding log_writes_def by (intro apply_writes_map) (auto simp: distinct_map inj_on_def)
  show "apply_writes (log_writes s V 0 n) f b = f b" if "\<not> in_log s b"
    using that B(2) by (intro apply_writes_other) (auto simp: log_writes_def)
  show "apply_writes (log_writes s V 0 n) f (of_int (log_start s)) = f (of_int (log_start s))"
  proof (rule apply_writes_other)
    show "of_int (log_start s) \<notin> fst ` set (log_writes s V 0 n)"
    proof
      assume "of_int (log_start s) \<in> fst ` set (log_writes s V 0 n)"
      then obtain k where "k < n" "of_int (log_start s) = log_block k s" by (auto simp: log_writes_def)
      then show False using B(5) by blast
    qed
  qed
qed

lemma commit_ok:
  assumes ready: "commit_ready c i n s" and n: "0 < n"
  shows "\<exists>t. commit s = Inr t \<and> bio c i t \<and> bkeep (s\<lparr>lh_n := 0\<rparr>) t \<and> held t = {} \<and> pinned t = {} \<and>
    disk t = apply_writes (commit_writes n s) (disk s) \<and> bview t = apply_writes (commit_writes n s) (bview s) \<and>
    dtrace t = dtrace s @ commit_writes n s"
proof -
  let ?V = "bview s" and ?hb = "of_int (log_start s) :: u32"
  have io: "bio c i s" and hd: "held s = {}" and log: "log_ok n s" and ln: "lh_n s = int n" and pin: "pinned s = set (take n (lh_block s))"
    using ready by (simp_all add: commit_ready_def)
  note L = log_okD [OF log] and B = log_block_facts [OF log] and P = pinned_nth [OF log pin] and A = apply_log_writes [OF log]
  let ?LW = "log_writes s ?V 0 n"
  obtain t1 where t1: "write_log s = Inr t1" "bio c i t1" "bkeep s t1" "held t1 = {}" "pinned t1 = pinned s"
    "bview t1 = apply_writes ?LW ?V" "disk t1 = apply_writes ?LW (disk s)" "dtrace t1 = dtrace s @ ?LW"
  proof -
    have pins: "\<forall>k < n. lh_block s ! k \<in> pinned s" "\<forall>k < n. log_block k s \<notin> pinned s"
      unfolding P(1) using B(4) by (auto simp: image_iff) metis
    have room: "card (pinned s) < NBUF" using P(2) L(5) by simp
    show ?thesis using write_log_loop_ok [OF io hd log room pins, of 0] that by (auto simp: write_log_def ln)
  qed
  note K1 = log_more [OF t1(3)]
  have log1: "log_ok n t1" using log_ok_keep(1) [OF t1(3)] log by simp
  have hb: "?hb \<notin> pinned s" unfolding P(1) using head_facts(3) [OF log] by (auto simp: image_iff) metis
  have "bview t1 ?hb = ?V ?hb" using A(3) t1(6) by simp
  then obtain t2 where t2: "write_head t1 = Inr t2" "bio c i t2" "bkeep t1 t2" "held t2 = {}" "pinned t2 = pinned s"
    "bview t2 = (apply_writes ?LW ?V)(?hb := full_head n s)" "disk t2 = (apply_writes ?LW (disk s))(?hb := full_head n s)"
    "dtrace t2 = dtrace s @ ?LW @ [(?hb, full_head n s)]"
    using write_head_ok [OF t1(2,4) log1] ln P(2) L(5) K1 t1 hb by (auto simp: full_head_def)
  note K2 = log_more [OF t2(3)]
  have log2: "log_ok n t2" using log_ok_keep(1) [OF t2(3)] log1 by simp
  let ?HW = "map (\<lambda>k. (lh_block s ! k, ?V (lh_block s ! k))) [0..<n]"
  have hw: "home_writes t2 (bview t2) 0 n = ?HW"
  proof -
    have "bview t2 (log_block k t2) = ?V (lh_block s ! k)" if "k < n" for k
      using K1(8) K2(8) A(1) [OF that] B(5) [OF that] by (simp add: t2(6))
    then show ?thesis using K1(7) K2(7) by (simp add: home_writes_def)
  qed
  obtain t3 where t3: "install_trans t2 = Inr t3" "bio c i t3" "bkeep t2 t3" "held t3 = {}" "pinned t3 = {}"
    "bview t3 = apply_writes ?HW (bview t2)" "disk t3 = apply_writes ?HW (disk t2)" "dtrace t3 = dtrace t2 @ ?HW"
  proof -
    have room: "card (pinned t2) < NBUF" "\<forall>k < n. 0 \<le> k \<longrightarrow> lh_block t2 ! k \<in> pinned t2 \<or> card (pinned t2) + 1 < NBUF"
      using P t2(5) L(5) K1(7) K2(7) by auto
    show ?thesis
      using install_loop_ok [OF t2(2,4) log2 room] that P(1) t2(5) K1 K2 ln
      unfolding hw by (auto simp: install_trans_def)
  qed
  note K3 = log_more [OF t3(3)]
  have log3: "log_ok n t3" using log_ok_keep(1) [OF t3(3)] log2 by simp
  have "bview t3 ?hb = full_head n s"
  proof -
    have "?hb \<notin> fst ` set ?HW" using head_facts(3) [OF log] by (auto simp: image_iff) metis
    then show ?thesis by (simp add: t3(6) t2(6) apply_writes_other)
  qed
  then obtain t4 where t4: "write_head (t3\<lparr>lh_n := 0\<rparr>) = Inr t4" "bio c i t4" "bkeep (t3\<lparr>lh_n := 0\<rparr>) t4" "held t4 = {}" "pinned t4 = {}"
    "bview t4 = (bview t3)(?hb := head_bytes [] (full_head n s))" "disk t4 = (disk t3)(?hb := head_bytes [] (full_head n s))"
    "dtrace t4 = dtrace t3 @ [(?hb, head_bytes [] (full_head n s))]"
    using write_head_empty [OF t3(2,4) log3] t3(5,8) K1(1) K2(1) K3(1) by auto
  have "commit s = Inr t4" using ln n t1(1) t2(1) t3(1) t4(1) by (simp add: commit_def)
  moreover have "bkeep (s\<lparr>lh_n := 0\<rparr>) t4"
  proof -
    have "bkeep s t3" using bkeep_trans [OF bkeep_trans [OF t1(3) t2(3)] t3(3)] .
    then have "bkeep (s\<lparr>lh_n := 0\<rparr>) (t3\<lparr>lh_n := 0\<rparr>)" by (cases s; cases t3) (simp add: bkeep_def same_procs_def)
    then show ?thesis using t4(3) by (rule bkeep_trans)
  qed
  ultimately show ?thesis using t1 t2 t3 t4 by (simp add: commit_writes_def)
qed

text \<open>A machine that has just booted with the disk \<open>d\<close>: nothing cached that is not on the disk.\<close>

definition booted :: "nat \<Rightarrow> nat \<Rightarrow> (u32 \<Rightarrow> u8 list) \<Rightarrow> 'a logst_scheme \<Rightarrow> bool" where
  "booted c i d r \<longleftrightarrow> bio c i r \<and> held r = {} \<and> pinned r = {} \<and> disk r = d \<and> log_dev r = 1 \<and> length (lh_block r) = LOGSIZE"

lemma booted_view: "booted c i d r \<Longrightarrow> bview r = d"
  using bview_clean [of c i r] by (auto simp: booted_def)

lemma read_head_ok:
  assumes boot: "booted c i d r" and hb: "(of_int (log_start r) :: u32) < disksize r"
    and m: "sint (get32 (d (of_int (log_start r))) 0) = int m" "m \<le> LOGSIZE"
  shows "\<exists>u. read_head r = Inr u \<and> booted c i d u \<and> lh_n u = int m \<and>
    lh_block u = get32s 4 m (d (of_int (log_start r))) @ drop m (lh_block r) \<and>
    log_start u = log_start r \<and> log_size u = log_size r \<and> disksize u = disksize r \<and> dtrace u = dtrace r"
proof -
  let ?hb = "of_int (log_start r) :: u32"
  have io: "bio c i r" and hd: "held r = {}" and pin: "pinned r = {}" and dk: "disk r = d" and dev: "log_dev r = 1" and len: "length (lh_block r) = 30"
    using boot by (simp_all add: booted_def)
  obtain k t where t: "bread 1 ?hb r = Inr (k, t)" "bio c i t" "bkeep r t" "held t = {k}" "blockno (bufs t ! k) = ?hb" "bview t = bview r"
    "disk t = disk r" "pinned t = pinned r" "dtrace t = dtrace r"
    using bread_ok [OF io hb] hd pin by auto
  note K = log_more [OF t(3)]
  have data: "bdata (bufs t ! k) = d ?hb" using held_buf(1) [OF t(2), of k] t booted_view [OF boot] by simp
  define v where "v = (t\<lparr>lh_n := int m\<rparr>)\<lparr>lh_block := get32s 4 m (d ?hb) @ drop m (lh_block r)\<rparr>"
  have v: "bio c i v" "held v = {k}" "bview v = bview r" "disk v = disk r" "pinned v = {}" "dtrace v = dtrace r" "bufs v = bufs t"
    using t pin by (simp_all add: v_def)
  have "bdata (bufs v ! k) = disk v (blockno (bufs v ! k))" using v(4,7) data t(5) dk by simp
  then obtain w where w: "brelse k v = Inr w" "bio c i w" "bkeep v w" "held w = {}" "bview w = bview v" "disk w = disk v" "pinned w = pinned v"
    "dtrace w = dtrace v" using brelse_ok [OF v(1), of k] v(2) by auto
  have "read_head r = Inr w"
    using t(1) dev data m K w(1) by (simp add: read_head_def v_def Let_def)
  moreover note log_more [OF w(3)]
  ultimately show ?thesis
    using w v K len m(2) dk dev by (simp add: booted_def v_def get32s_def)
qed

text \<open>Recovery installs what a full header lists.\<close>

lemma recover_ok:
  assumes boot: "booted c i d r" and m: "sint (get32 (d (of_int (log_start r))) 0) = int m"
    and log: "log_ok m (r\<lparr>lh_block := get32s 4 m (d (of_int (log_start r))) @ drop m (lh_block r)\<rparr>)"
  shows "\<exists>u. recover_from_log r = Inr u \<and> bio c i u \<and> held u = {} \<and> pinned u = {} \<and>
    (\<forall>b. \<not> in_log r b \<longrightarrow> disk u b = apply_writes (map (\<lambda>k. (get32s 4 m (d (of_int (log_start r))) ! k, d (log_block k r))) [0..<m]) d b)"
proof -
  let ?hb = "of_int (log_start r) :: u32"
  let ?r = "r\<lparr>lh_block := get32s 4 m (d ?hb) @ drop m (lh_block r)\<rparr>"
  have lt: "m < 30" and hb: "?hb < disksize r" using log_okD(5) [OF log] head_facts(2) [OF log] by simp_all
  obtain u where u: "read_head r = Inr u" "booted c i d u" "lh_n u = int m" "lh_block u = lh_block ?r" "log_start u = log_start r"
    "log_size u = log_size r" "disksize u = disksize r" using read_head_ok [OF boot hb m] lt by auto
  have logu: "log_ok m u" using log u boot by (simp add: log_ok_def in_log_def booted_def)
  have bu: "bio c i u" "held u = {}" "pinned u = {}" "bview u = d" "disk u = d" using u(2) booted_view [OF u(2)] by (simp_all add: booted_def)
  obtain v where v: "install_trans u = Inr v" "bio c i v" "bkeep u v" "held v = {}" "pinned v = {}"
    "disk v = apply_writes (home_writes u d 0 m) d"
    using install_loop_ok [OF bu(1,2) logu, of 0] bu u(3) by (auto simp: install_trans_def)
  note K = log_more [OF v(3)]
  have logv: "log_ok m v" using log_ok_keep(1) [OF v(3)] logu by simp
  obtain w where w: "write_head (v\<lparr>lh_n := 0\<rparr>) = Inr w" "bio c i w" "held w = {}" "pinned w = {}" "\<forall>b. b \<noteq> ?hb \<longrightarrow> disk w b = disk v b"
    using write_head_empty [OF v(2,4) logv] v(5) K(1) u(5) by auto
  have "home_writes u d 0 m = map (\<lambda>k. (get32s 4 m (d ?hb) ! k, d (log_block k r))) [0..<m]"
    using u(4,5) by (auto simp: home_writes_def log_block_def nth_append get32s_def)
  moreover have "b \<noteq> ?hb" if "\<not> in_log r b" for b using that head_facts(1) [OF log] by (auto simp: in_log_def)
  ultimately show ?thesis using u(1) v(1,6) w by (auto simp: recover_from_log_def)
qed

text \<open>The disk after some of the writes of a commit, outside the log and at the header.\<close>

lemma home_nth_distinct:
  assumes "log_ok n s"
  shows "distinct (map (\<lambda>k. lh_block s ! k) [0..<n])" "take n (lh_block s) = map (\<lambda>k. lh_block s ! k) [0..<n]"
proof -
  note L = log_okD [OF assms]
  show e: "take n (lh_block s) = map (\<lambda>k. lh_block s ! k) [0..<n]" using L(5,6) by (intro nth_equalityI) simp_all
  show "distinct (map (\<lambda>k. lh_block s ! k) [0..<n])" using L(7) unfolding e .
qed

lemma crash_prefix:
  assumes ready: "commit_ready c i n s" and pre: "commit_writes n s = w1 @ w2"
  defines "d \<equiv> apply_writes w1 (disk s)" and "hb \<equiv> of_int (log_start s)"
  shows "length w1 \<le> n \<Longrightarrow> d hb = disk s hb \<and> (\<forall>b. \<not> in_log s b \<longrightarrow> d b = disk s b)"
    and "n < length w1 \<Longrightarrow> w2 \<noteq> [] \<Longrightarrow> d hb = full_head n s \<and> (\<forall>k < n. d (log_block k s) = bview s (lh_block s ! k)) \<and>
        (\<forall>b. \<not> in_log s b \<longrightarrow> d b = bview s b \<or> (\<exists>k < n. b = lh_block s ! k))"
    and "w2 = [] \<Longrightarrow> d hb = head_bytes [] (full_head n s) \<and> (\<forall>b. \<not> in_log s b \<longrightarrow> d b = bview s b)"
proof -
  have io: "bio c i s" and hd: "held s = {}" and log: "log_ok n s" and pin: "pinned s = set (take n (lh_block s))"
    using ready by (simp_all add: commit_ready_def)
  note A = apply_log_writes [OF log] and B = log_block_facts [OF log] and HF = head_facts [OF log] and HD = home_nth_distinct [OF log]
  let ?LW = "log_writes s (bview s) 0 n" and ?HW = "map (\<lambda>k. (lh_block s ! k, bview s (lh_block s ! k))) [0..<n]"
  have lenLW: "length ?LW = n" by (simp add: log_writes_def)
  have clean: "bview s b = disk s b \<or> (\<exists>k < n. b = lh_block s ! k)" for b
  proof (cases "b \<in> pinned s")
    case True
    then show ?thesis using pin HD(2) by auto
  qed (use bview_clean [OF io hd] in simp)
  have hb_home: "hb \<notin> fst ` set (take m ?HW)" for m
    using HF(3) set_take_subset [of m ?HW] unfolding hb_def by fastforce
  have log_home: "log_block k s \<notin> fst ` set (take m ?HW)" if "k < n" for k m
    using B(4) [OF that] set_take_subset [of m ?HW] by fastforce
  have out: "b \<noteq> hb" if "\<not> in_log s b" for b using that HF(1) unfolding hb_def by auto
  show "d hb = disk s hb \<and> (\<forall>b. \<not> in_log s b \<longrightarrow> d b = disk s b)" if "length w1 \<le> n"
  proof -
    have "w1 = take (length w1) (w1 @ w2)" by simp
    then have "w1 = take (length w1) ?LW" unfolding pre [symmetric] using that lenLW by (simp add: commit_writes_def)
    then have "set w1 \<subseteq> set ?LW" using set_take_subset [of "length w1" ?LW] by simp
    then have sub: "fst ` set w1 \<subseteq> (\<lambda>k. log_block k s) ` {0..<n}" unfolding log_writes_def by fastforce
    have in_w1: "\<exists>k < n. b = log_block k s" if "b \<in> fst ` set w1" for b using subsetD [OF sub that] by auto
    have "hb \<notin> fst ` set w1" using in_w1 [of hb] B(5) unfolding hb_def by metis
    moreover have "b \<notin> fst ` set w1" if "\<not> in_log s b" for b using in_w1 [of b] B(2) that by metis
    ultimately show ?thesis unfolding d_def by (simp add: apply_writes_other)
  qed
  show "d hb = full_head n s \<and> (\<forall>k < n. d (log_block k s) = bview s (lh_block s ! k)) \<and>
      (\<forall>b. \<not> in_log s b \<longrightarrow> d b = bview s b \<or> (\<exists>k < n. b = lh_block s ! k))" if "n < length w1" "w2 \<noteq> []"
  proof -
    define m where "m = length w1 - Suc n"
    have "length w1 + length w2 = 2 * n + 2" using arg_cong [OF pre, of length] lenLW by (simp add: commit_writes_def)
    then have m: "m \<le> n" using that by (cases w2) (auto simp: m_def)
    have "w1 = take (length w1) (w1 @ w2)" by simp
    then have w1: "w1 = ?LW @ [(hb, full_head n s)] @ take m ?HW"
      unfolding pre [symmetric] using that lenLW m
      by (simp add: commit_writes_def hb_def m_def take_Cons' split: if_splits)
    have d: "d = apply_writes (take m ?HW) ((apply_writes ?LW (disk s))(hb := full_head n s))" unfolding d_def w1 by simp
    have "d hb = full_head n s" unfolding d using hb_home by (simp add: apply_writes_other)
    moreover have "d (log_block k s) = bview s (lh_block s ! k)" if "k < n" for k
      unfolding d using log_home [OF that] A(1) [OF that] B(5) [OF that] by (simp add: apply_writes_other hb_def)
    moreover have "d b = bview s b \<or> (\<exists>k < n. b = lh_block s ! k)" if b: "\<not> in_log s b" for b
    proof (cases "\<exists>k < n. b = lh_block s ! k")
      case False
      then have "b \<notin> fst ` set (take m ?HW)" using set_take_subset [of m ?HW] by fastforce
      then have "d b = disk s b" unfolding d using out [OF b] A(2) [OF b] by (simp add: apply_writes_other)
      then show ?thesis using clean [of b] False by simp
    qed simp
    ultimately show ?thesis by blast
  qed
  show "d hb = head_bytes [] (full_head n s) \<and> (\<forall>b. \<not> in_log s b \<longrightarrow> d b = bview s b)" if "w2 = []"
  proof -
    have d: "d = (apply_writes ?HW ((apply_writes ?LW (disk s))(hb := full_head n s)))(hb := head_bytes [] (full_head n s))"
    proof -
      have "w1 = commit_writes n s" using pre that by simp
      then show ?thesis unfolding d_def hb_def by (simp add: commit_writes_def)
    qed
    have "d b = bview s b" if b: "\<not> in_log s b" for b
    proof (cases "\<exists>k < n. b = lh_block s ! k")
      case True
      then obtain k where k: "k < n" "b = lh_block s ! k" by blast
      then have "apply_writes ?HW f b = bview s b" for f
        using apply_writes_map [OF HD(1), of k "\<lambda>k. bview s (lh_block s ! k)" f] by simp
      then show ?thesis unfolding d using out [OF b] by simp
    next
      case False
      then have "b \<notin> fst ` set ?HW" by auto
      then show ?thesis unfolding d using out [OF b] A(2) [OF b] clean [of b] False by (simp add: apply_writes_other)
    qed
    then show ?thesis unfolding d by simp
  qed
qed

lemma recover_after_crash:
  assumes ready: "commit_ready c i n s" and w: "commit_writes n s = w1 @ w2" and boot: "booted a j (apply_writes w1 (disk s)) r"
    and same: "log_start r = log_start s" "log_size r = log_size s" "disksize r = disksize s"
  shows "\<exists>u. recover_from_log r = Inr u \<and> (\<forall>b. \<not> in_log s b \<longrightarrow> disk u b = (if length w1 \<le> n then disk s b else bview s b))"
proof -
  have io: "bio c i s" and log: "log_ok n s" and h0: "get32 (disk s (of_int (log_start s))) 0 = 0"
    using ready by (simp_all add: commit_ready_def)
  note L = log_okD [OF log] and HD = home_nth_distinct [OF log]
  let ?hb = "of_int (log_start s) :: u32"
  let ?d = "apply_writes w1 (disk s)"
  have lk: "in_log r b = in_log s b" "log_block k r = log_block k s" for b k using same by (simp_all add: in_log_def log_block_def)
  have rl: "log_dev r = 1" "length (lh_block r) = 30" using boot by (simp_all add: booted_def)
  have H: "length (bview s ?hb) = BSIZE" using io bview_length [of s ?hb] by (simp add: bio_def)
  have fh: "length (full_head n s) = BSIZE" "sint (get32 (full_head n s) 0) = int n" "get32s 4 n (full_head n s) = take n (lh_block s)"
    using head_bytes_facts [OF H, of "take n (lh_block s)"] L(5,6) by (simp_all add: full_head_def)
  have empty: "\<exists>u. recover_from_log r = Inr u \<and> (\<forall>b. \<not> in_log s b \<longrightarrow> disk u b = ?d b)" if "sint (get32 (?d ?hb) 0) = 0"
  proof -
    have "log_ok 0 (r\<lparr>lh_block := get32s 4 0 (?d (of_int (log_start r))) @ drop 0 (lh_block r)\<rparr>)"
      using L(2-5) rl same by (simp add: log_ok_def in_log_def get32s_def)
    from recover_ok [OF boot _ this] that lk(1) same(1) show ?thesis by auto
  qed
  consider "length w1 \<le> n" | "n < length w1" "w2 \<noteq> []" | "n < length w1" "w2 = []" by linarith
  then show ?thesis
  proof cases
    case 1
    note C = crash_prefix(1) [OF ready w 1]
    then have "sint (get32 (?d ?hb) 0) = 0" using h0 by simp
    from empty [OF this] show ?thesis using C 1 by auto
  next
    case 2
    note C = crash_prefix(2) [OF ready w 2]
    then have dh: "?d (of_int (log_start r)) = full_head n s" using same by simp
    let ?r = "r\<lparr>lh_block := get32s 4 n (?d (of_int (log_start r))) @ drop n (lh_block r)\<rparr>"
    have lb: "lh_block ?r ! k = lh_block s ! k" if "k < n" for k
      using that L(5,6) unfolding dh fh(3) by (simp add: nth_append)
    have "log_ok n ?r"
      using L rl same lb unfolding log_ok_def in_log_def dh fh(3) by simp
    from recover_ok [OF boot _ this] obtain u where u: "recover_from_log r = Inr u"
      "\<forall>b. \<not> in_log s b \<longrightarrow> disk u b = apply_writes (map (\<lambda>k. (take n (lh_block s) ! k, ?d (log_block k s))) [0..<n]) ?d b"
      unfolding dh fh(3) using fh(2) lk by auto
    have hw: "map (\<lambda>k. (take n (lh_block s) ! k, ?d (log_block k s))) [0..<n] = map (\<lambda>k. (lh_block s ! k, bview s (lh_block s ! k))) [0..<n]"
      using C by simp
    have "disk u b = bview s b" if b: "\<not> in_log s b" for b
    proof (cases "\<exists>k < n. b = lh_block s ! k")
      case True
      then obtain k where k: "k < n" "b = lh_block s ! k" by blast
      then show ?thesis
        using u(2) b apply_writes_map [OF HD(1), of k "\<lambda>k. bview s (lh_block s ! k)" ?d] unfolding hw by simp
    next
      case False
      then have "b \<notin> fst ` set (map (\<lambda>k. (lh_block s ! k, bview s (lh_block s ! k))) [0..<n])" by auto
      moreover have "?d b = bview s b" using C b False by blast
      ultimately show ?thesis using u(2) b unfolding hw by (simp add: apply_writes_other)
    qed
    then show ?thesis using u(1) 2 by auto
  next
    case 3
    note C = crash_prefix(3) [OF ready w 3(2)]
    have "sint (get32 (head_bytes [] (full_head n s)) 0) = 0" using head_bytes_facts(2) [OF fh(1), of "[]"] by simp
    then have "sint (get32 (?d ?hb) 0) = 0" using C by simp
    from empty [OF this] show ?thesis using C 3 by auto
  qed
qed

subsection \<open>Transactions\<close>

text \<open>Inside a transaction: the blocks in the header are those pinned in the cache.\<close>

definition trans :: "nat \<Rightarrow> nat \<Rightarrow> 'a logst_scheme \<Rightarrow> bool" where
  "trans c i s \<longleftrightarrow> bio c i s \<and> 0 \<le> lh_n s \<and> log_ok (nat (lh_n s)) s \<and> pinned s = set (take (nat (lh_n s)) (lh_block s)) \<and>
     0 < outstanding s \<and> \<not> committing s \<and> get32 (disk s (of_int (log_start s))) 0 = 0"

lemma transD:
  assumes "trans c i s"
  shows "bio c i s" "0 \<le> lh_n s" "log_ok (nat (lh_n s)) s" "pinned s = set (take (nat (lh_n s)) (lh_block s))" "0 < outstanding s"
    "\<not> committing s" "get32 (disk s (of_int (log_start s))) 0 = 0" "card (pinned s) = nat (lh_n s)"
  using assms pinned_nth(2) [of "nat (lh_n s)" s] by (simp_all add: trans_def)

lemma trans_keep:
  assumes "trans c i s" and "bkeep s t" and "bio c i t" and "pinned t = pinned s" and "disk t = disk s"
  shows "trans c i t"
  using assms log_more [OF assms(2)] log_ok_keep(1) [OF assms(2)] by (simp add: trans_def)

text \<open>\<^verbatim>\<open>log_write\<close> of a held buffer, with room for one more block in the log.\<close>

lemma log_write_hold:
  "(hold l c s)\<lparr>lh_block := y\<rparr> = hold l c (s\<lparr>lh_block := y\<rparr>)" "(hold l c s)\<lparr>lh_n := x\<rparr> = hold l c (s\<lparr>lh_n := x\<rparr>)"
  "(hold l c s)\<lparr>outstanding := z\<rparr> = hold l c (s\<lparr>outstanding := z\<rparr>)" "(hold l c s)\<lparr>committing := w\<rparr> = hold l c (s\<lparr>committing := w\<rparr>)"
  "lh_n (hold l c s) = lh_n s" "lh_block (hold l c s) = lh_block s" "outstanding (hold l c s) = outstanding s"
  "committing (hold l c s) = committing s"
  by (cases s; simp add: hold_def push_state_def)+

lemma at_proc_logst [simp]:
  "at_proc c i (s\<lparr>lh_n := x\<rparr>) = at_proc c i s" "at_proc c i (s\<lparr>lh_block := y\<rparr>) = at_proc c i s"
  "at_proc c i (s\<lparr>outstanding := z\<rparr>) = at_proc c i s" "at_proc c i (s\<lparr>committing := w\<rparr>) = at_proc c i s"
  by (rule at_proc_cong; simp)+

lemma log_ok_snoc:
  assumes "log_ok n s" and "b < disksize s" and "\<not> in_log s b" and "b \<notin> set (take n (lh_block s))"
    and "Suc n < LOGSIZE" and "int (Suc n) < log_size s"
  shows "log_ok (Suc n) (s\<lparr>lh_block := (lh_block s)[n := b], lh_n := m\<rparr>)"
    "take (Suc n) ((lh_block s)[n := b]) = take n (lh_block s) @ [b]"
proof -
  note L = log_okD [OF assms(1)]
  show tk: "take (Suc n) ((lh_block s)[n := b]) = take n (lh_block s) @ [b]"
    using L(5,6) by (simp add: take_Suc_conv_app_nth)
  have "(lh_block s)[n := b] ! k < disksize s \<and> \<not> in_log s ((lh_block s)[n := b] ! k)" if "k < Suc n" for k
    using that L(5,6,8,9) assms(2,3) by (cases "k = n") auto
  then show "log_ok (Suc n) (s\<lparr>lh_block := (lh_block s)[n := b], lh_n := m\<rparr>)"
    using L assms(4-6) tk by (simp add: log_ok_def in_log_def)
qed

lemma bkeep_log: "bkeep s (upd_buf k f s)"
  by (simp add: bkeep_def same_procs_eq)

lemma log_write_ok:
  assumes tr: "trans c i s" and k: "k \<in> held s" and b: "\<not> in_log s (blockno (bufs s ! k))"
    and room: "card (pinned s) < LOGSIZE - 1" "int (card (pinned s)) < log_size s - 1"
  defines "blk \<equiv> blockno (bufs s ! k)"
  shows "\<exists>t. log_write k s = Inr t \<and> trans c i t \<and> held t = held s \<and> bview t = bview s \<and> disk t = disk s \<and> dtrace t = dtrace s \<and>
    pinned t = insert blk (pinned s) \<and> blockno (bufs t ! k) = blk \<and> bdirty (bufs t ! k) \<and> (\<forall>j. j \<noteq> k \<longrightarrow> bufs t ! j = bufs s ! j) \<and>
    logst.more t = logst.more s \<and> same_procs s t \<and> disksize t = disksize s \<and> log_start t = log_start s \<and> log_size t = log_size s \<and>
    outstanding t = outstanding s \<and> pipes t = pipes s"
proof -
  note T = transD [OF tr]
  let ?n = "nat (lh_n s)" and ?d = "upd_buf k (\<lambda>x. x\<lparr>bdirty := True\<rparr>)"
  have ap: "at_proc c i s" using T(1) by (simp add: bio_def)
  note K = held_buf [OF T(1) k] and L = log_okD [OF T(3)]
  have n: "?n < 29" "int ?n < log_size s - 1" "lh_n s = int ?n" using room T(2,8) by simp_all
  show ?thesis
  proof (cases "find_idx (\<lambda>x. x = blk) (take ?n (lh_block s))")
    case (Some j)
    then have j: "j < ?n" "take ?n (lh_block s) ! j = blk" using find_idx_SomeD [OF Some] by auto
    then have same: "(lh_block s)[j := blk] = lh_block s" "blk \<in> pinned s"
      using L(5,6) unfolding T(4) by (auto simp: in_set_conv_nth intro!: exI [of _ j])
    define t where "t = ?d s"
    have "log_write k s = Inr t"
      using n(1,2) T(2,5) ap Some j(1) same(1)
      by (simp add: log_write_def at_proc [of c i] log_write_hold blk_def [symmetric] Let_def t_def)
    moreover note D = buf_dirty [OF T(1) k, folded t_def]
    note M = log_more [OF D(7)]
    moreover have "pinned t = pinned s" using D(4) same(2) by (auto simp: blk_def)
    then have "trans c i t" using D T M log_ok_keep(1) [OF D(7)] by (simp add: trans_def)
    ultimately show ?thesis using D M \<open>pinned t = pinned s\<close> same(2) by (auto simp: bkeep_def blk_def)
  next
    case None
    then have no: "blk \<notin> set (take ?n (lh_block s))" by (auto simp: find_idx_None_iff)
    define u where "u = s\<lparr>lh_block := (lh_block s)[?n := blk], lh_n := lh_n s + 1\<rparr>"
    define t where "t = ?d u"
    have "log_write k s = Inr t"
      using n(1,2) T(2,5) ap None
      by (simp add: log_write_def at_proc [of c i] log_write_hold blk_def [symmetric] Let_def t_def u_def)
    moreover have ku: "k \<in> held u" "bio c i u" using k T(1) by (simp_all add: u_def)
    note D = buf_dirty [OF ku(2,1), folded t_def]
    note M = log_more [OF D(7)]
    have nn: "nat (lh_n u) = Suc ?n" using T(2) by (simp add: u_def)
    note S = log_ok_snoc(1) [OF T(3) _ _ no, of "lh_n s + 1"] log_ok_snoc(2) [OF T(3) _ _ no]
    have "log_ok (Suc ?n) u" using S(1) K(6) b n by (simp add: u_def blk_def)
    then have "log_ok (nat (lh_n t)) t" using M nn log_ok_keep(1) [OF D(7)] by simp
    moreover have "pinned t = insert blk (pinned s)" using D(4) by (simp add: u_def blk_def)
    moreover have "set (take (nat (lh_n t)) (lh_block t)) = insert blk (pinned s)"
      unfolding M(6,7) nn using S(2) K(6) b n T(4) by (simp add: u_def blk_def)
    ultimately show ?thesis
      using D M T n(1,2) by (auto simp: trans_def bkeep_def u_def blk_def same_procs_def)
  qed
qed

lemma logst_frame [simp]:
  "lh_n (wakeup1 ch s) = lh_n s" "outstanding (wakeup1 ch s) = outstanding s" "committing (wakeup1 ch s) = committing s"
  "log_start (wakeup1 ch s) = log_start s" "log_size (wakeup1 ch s) = log_size s" "log_dev (wakeup1 ch s) = log_dev s"
  "lh_block (wakeup1 ch s) = lh_block s"
  "lh_n (sleep_state c i d l s) = lh_n s" "outstanding (sleep_state c i d l s) = outstanding s"
  by (simp_all add: wakeup1_def sleep_state_def upd_proc_def hold_def push_state_def unhold_def pop_state_def)

lemma bio_wakeup1 [simp]: "bio c i (wakeup1 ch s) = bio c i s" "held (wakeup1 ch s) = held s" "pinned (wakeup1 ch s) = pinned s"
  "bview (wakeup1 ch s) = bview s"
  using view_cong [of "wakeup1 ch s" s] bcache_ok_cong [of "wakeup1 ch s" s] by (simp_all add: bio_def)

text \<open>The last operation of a transaction commits it.\<close>

lemma end_op_ok:
  assumes tr: "trans c i s" and hd: "held s = {}" and out: "outstanding s = 1"
  shows "\<exists>t. end_op s = Inr t \<and> bio c i t \<and> held t = {} \<and> pinned t = {} \<and> (\<forall>b. \<not> in_log s b \<longrightarrow> disk t b = bview s b) \<and>
    lh_n t = 0 \<and> outstanding t = 0 \<and> \<not> committing t \<and> log_start t = log_start s \<and> log_size t = log_size s \<and>
    (\<forall>j < length (ptable t). \<not> (state (ptable t ! j) = SLEEPING \<and> wchan (ptable t ! j) = Some ChanLog))"
proof -
  note T = transD [OF tr]
  have ap: "at_proc c i s" using T(1) by (simp add: bio_def)
  let ?s = "s\<lparr>outstanding := 0, committing := True\<rparr>"
  have ready: "commit_ready c i (nat (lh_n s)) ?s"
    using T hd by (simp add: commit_ready_def log_ok_def in_log_def)
  obtain t where t: "commit ?s = Inr t" "bio c i t" "held t = {}" "pinned t = {}" "\<forall>b. \<not> in_log s b \<longrightarrow> disk t b = bview s b"
    "lh_n t = 0" "outstanding t = 0" "log_start t = log_start s" "log_size t = log_size s" "length (ptable t) = length (ptable s)"
  proof (cases "lh_n s = 0")
    case True
    then have "pinned s = {}" using T(4) by simp
    then have "\<forall>b. disk s b = bview s b" using bview_clean [OF T(1) hd] by simp
    then show ?thesis using that [of ?s] True T(1) hd \<open>pinned s = {}\<close> by (simp add: commit_def)
  next
    case False
    then obtain t where t: "commit ?s = Inr t" "bio c i t" "bkeep (?s\<lparr>lh_n := 0\<rparr>) t" "held t = {}" "pinned t = {}"
      "disk t = apply_writes (commit_writes (nat (lh_n s)) ?s) (disk ?s)" using commit_ok [OF ready] T(2) by auto
    have "\<forall>b. \<not> in_log ?s b \<longrightarrow> disk t b = bview ?s b"
      using crash_prefix(3) [OF ready, of "commit_writes (nat (lh_n s)) ?s" "[]"] t(6) by simp
    then have "\<forall>b. \<not> in_log s b \<longrightarrow> disk t b = bview s b" by (simp add: in_log_def)
    moreover have "length (ptable t) = length (ptable s)"
      using t(3) by (auto simp: bkeep_def same_procs_def dest: map_eq_imp_length_eq)
    ultimately show ?thesis using that [OF t(1,2,4,5)] log_more [OF t(3)] by simp
  qed
  have apt: "at_proc c i t" using t(2) by (simp add: bio_def)
  have "end_op s = Inr (wakeup1 (Some ChanLog) (t\<lparr>committing := False\<rparr>))"
    using ap apt T(6) out t(1) by (simp add: end_op_def at_proc [of c i] log_write_hold Let_def)
  then show ?thesis using t by (simp add: wakeup1_nth)
qed

subsection \<open>Properties\<close>

text \<open>C15. Crash safety of a commit. \<^verbatim>\<open>commit\<close> succeeds and leaves every block outside the log on the disk as the transaction has it.
  If the machine stops after any number of the disk writes of the commit and reboots, recovery succeeds, and the disk
  outside the log is exactly as before the transaction when the header had not been written, and exactly as after it
  when it had.\<close>

theorem commit_crash_safe:
  assumes "commit_ready c i n s" and "0 < n"
  shows "\<exists>t w. commit s = Inr t \<and> dtrace t = dtrace s @ w \<and> pinned t = {} \<and> lh_n t = 0 \<and> (\<forall>b. \<not> in_log s b \<longrightarrow> disk t b = bview s b) \<and>
    (\<forall>w1 w2 a j r. w = w1 @ w2 \<and> booted a j (apply_writes w1 (disk s)) r \<and> log_start r = log_start s \<and> log_size r = log_size s \<and>
        disksize r = disksize s \<longrightarrow>
      (\<exists>u. recover_from_log r = Inr u \<and>
        (\<forall>b. \<not> in_log s b \<longrightarrow> disk u b = (if length w1 \<le> n then disk s b else bview s b))))"
proof -
  obtain t where t: "commit s = Inr t" "bkeep (s\<lparr>lh_n := 0\<rparr>) t" "pinned t = {}" "disk t = apply_writes (commit_writes n s) (disk s)"
    "dtrace t = dtrace s @ commit_writes n s" using commit_ok [OF assms] by blast
  have "lh_n t = 0" using log_more(6) [OF t(2)] by simp
  moreover have "\<forall>b. \<not> in_log s b \<longrightarrow> disk t b = bview s b"
    using crash_prefix(3) [OF assms(1), of "commit_writes n s" "[]"] t(4) by simp
  moreover note recover_after_crash [OF assms(1)]
  ultimately show ?thesis using t by blast
qed

text \<open>C17. \<^verbatim>\<open>begin_op\<close> admits an operation only when no commit is going on and the log has room for the \<^verbatim>\<open>MAXOPBLOCKS\<close> blocks that it
  and every other admitted operation may write; otherwise the process sleeps on the log, which does not change.\<close>

theorem begin_op_reserves:
  fixes s :: "'a logst_scheme"
  assumes "at_proc c i s"
  shows "if committing s \<or> lh_n s + (outstanding s + 1) * MAXOPBLOCKS > int LOGSIZE
    then \<exists>t. begin_op s = Inl (Swtch t) \<and> state (ptable t ! i) = SLEEPING \<and> wchan (ptable t ! i) = Some ChanLog \<and>
      lh_n t = lh_n s \<and> outstanding t = outstanding s
    else \<exists>t. begin_op s = Inr t \<and> at_proc c i t \<and> outstanding t = outstanding s + 1 \<and> lh_n t = lh_n s \<and>
      lh_n t + outstanding t * MAXOPBLOCKS \<le> int LOGSIZE"
  using assms at_procD(5) [OF assms]
  by (auto simp: begin_op_def begin_op_loop_def at_proc [of c i] log_write_hold sleep_state_asleep)

text \<open>C16. Durability. When the last outstanding operation of a transaction calls \<^verbatim>\<open>end_op\<close>, every block outside the log is on the disk as
  the file system sees it, the log is empty and open again, and no process is left asleep on it.\<close>

theorem end_op_durable:
  assumes "trans c i s" and "held s = {}" and "outstanding s = 1"
  shows "\<exists>t. end_op s = Inr t \<and> at_proc c i t \<and> (\<forall>b. \<not> in_log s b \<longrightarrow> disk t b = bview s b) \<and> pinned t = {} \<and>
    lh_n t = 0 \<and> outstanding t = 0 \<and> \<not> committing t \<and>
    (\<forall>j < length (ptable t). \<not> (state (ptable t ! j) = SLEEPING \<and> wchan (ptable t ! j) = Some ChanLog))"
  using end_op_ok [OF assms] by (auto simp: bio_def)

subsection \<open>An example transaction\<close>

definition demo_log :: logst where
  "demo_log = bcachest.extend (binit demo_raw) (logst.fields 2 30 0 False 1 0 (replicate 30 0))"

lemma extend_bcachest [simp]:
  "at_proc c i (bcachest.extend s x) = at_proc c i s" "bcache_ok (bcachest.extend s x) = bcache_ok s"
  "bview (bcachest.extend s x) = bview s" "held (bcachest.extend s x) = held s" "pinned (bcachest.extend s x) = pinned s"
  "disksize (bcachest.extend s x) = disksize s" "disk (bcachest.extend s x) = disk s"
  by (rule at_proc_cong bcache_ok_cong view_cong; simp add: bcachest.defs)+ (simp_all add: bcachest.defs)

lemma demo_log_sel:
  "log_start demo_log = 2" "log_size demo_log = 30" "outstanding demo_log = 0" "\<not> committing demo_log" "log_dev demo_log = 1"
  "lh_n demo_log = 0" "lh_block demo_log = replicate 30 0" "disksize demo_log = 1000" "disk demo_log = disk demo_raw"
  "bio 0 0 demo_log" "held demo_log = {}" "pinned demo_log = {}" "bview demo_log = disk demo_raw"
proof -
  show "log_start demo_log = 2" "log_size demo_log = 30" "outstanding demo_log = 0" "\<not> committing demo_log" "log_dev demo_log = 1"
    "lh_n demo_log = 0" "lh_block demo_log = replicate 30 0" by (simp_all add: demo_log_def bcachest.defs logst.defs)
  show io: "bio 0 0 demo_log" using demo_bio(1) by (simp add: demo_log_def bio_def)
  show hp: "held demo_log = {}" "pinned demo_log = {}" "bview demo_log = disk demo_raw" "disksize demo_log = 1000"
    using demo_bio by (simp_all add: demo_log_def)
  show "disk demo_log = disk demo_raw" using bview_clean [OF io hp(1)] hp by auto
qed

text \<open>A transaction with one block: block 40, full of sevens on the disk, gets new contents.\<close>

lemma demo_trans:
  assumes "length d = BSIZE"
  shows "\<exists>s :: logst. trans 0 0 s \<and> held s = {} \<and> outstanding s = 1 \<and> lh_n s = 1 \<and> bview s 40 = d \<and> disk s 40 = replicate BSIZE 7 \<and>
    \<not> in_log s 40"
proof -
  let ?s = "demo_log\<lparr>outstanding := 1\<rparr>"
  have out: "\<not> in_log demo_log 40" by (simp add: in_log_def demo_log_sel)
  have tr: "trans 0 0 ?s"
    by (simp add: trans_def log_ok_def demo_log_sel demo_raw_sel get32_def)
  have io: "bio 0 0 ?s" "held ?s = {}" "pinned ?s = {}" "40 < disksize ?s" "bview ?s = disk demo_raw" by (simp_all add: demo_log_sel)
  obtain k t where t: "bread 1 40 ?s = Inr (k, t)" "bio 0 0 t" "bkeep ?s t" "held t = {k}" "blockno (bufs t ! k) = 40" "bview t = bview ?s"
    "disk t = disk ?s" "pinned t = {}" using bread_ok [OF io(1,4)] io(2,3) by auto
  let ?t = "upd_buf k (\<lambda>x. x\<lparr>bdata := d\<rparr>) t"
  have k: "k \<in> held t" using t(4) by simp
  note U = buf_write [OF t(2) k assms]
  note M = log_more [OF bkeep_trans [OF t(3) U(7)]]
  have "trans 0 0 ?t" using U t io(3) by (intro trans_keep [OF tr bkeep_trans [OF t(3) U(7)]]) simp_all
  moreover have "k \<in> held ?t" "\<not> in_log ?t (blockno (bufs ?t ! k))" "card (pinned ?t) < LOGSIZE - 1" "int (card (pinned ?t)) < log_size ?t - 1"
    using U t M out by (simp_all add: in_log_def demo_log_sel)
  ultimately obtain u where u: "log_write k ?t = Inr u" "trans 0 0 u" "held u = {k}" "bview u = (disk demo_raw)(40 := d)" "disk u = disk demo_raw"
    "pinned u = {40}" "blockno (bufs u ! k) = 40" "bdirty (bufs u ! k)" "log_start u = 2" "log_size u = 30" "outstanding u = 1"
    using log_write_ok [of 0 0 ?t k] U t M io(5) demo_log_sel by auto
  have "bio 0 0 u" using u(2) by (simp add: trans_def)
  then obtain v where v: "brelse k u = Inr v" "bio 0 0 v" "bkeep u v" "held v = {}" "bview v = bview u" "disk v = disk u" "pinned v = pinned u"
    using brelse_ok [of 0 0 u k] u(3,8) by auto
  note N = log_more [OF v(3)]
  have "trans 0 0 v" by (rule trans_keep [OF u(2) v(3,2,7,6)])
  moreover have "lh_n v = 1" using transD(2,8) [OF \<open>trans 0 0 v\<close>] v(7) u(6) by simp
  moreover have "\<not> in_log v 40" using N u(9,10) by (simp add: in_log_def)
  ultimately show ?thesis using v u N by (intro exI [of _ v]) (simp add: demo_raw_sel)
qed

theorem begin_op_reserves_witness: "\<exists>t. begin_op demo_log = Inr t \<and> outstanding t = 1"
  using begin_op_reserves [of 0 0 demo_log] demo_log_sel(10) by (auto simp: demo_log_sel bio_def)

theorem end_op_durable_witness:
  "\<exists>(s :: logst) t. disk s 40 = replicate BSIZE 7 \<and> end_op s = Inr t \<and> disk t 40 = replicate BSIZE 9"
proof -
  obtain s :: logst where s: "trans 0 0 s" "held s = {}" "outstanding s = 1" "bview s 40 = replicate BSIZE 9" "disk s 40 = replicate BSIZE 7"
    "\<not> in_log s 40" using demo_trans [of "replicate BSIZE 9"] by auto
  from end_op_durable [OF s(1-3)] s show ?thesis by metis
qed

theorem commit_crash_safe_witness:
  "\<exists>s t :: logst. commit_ready 0 0 1 s \<and> disk s 40 = replicate BSIZE 7 \<and> commit s = Inr t \<and> disk t 40 = replicate BSIZE 9"
proof -
  obtain s :: logst where s: "trans 0 0 s" "held s = {}" "lh_n s = 1" "bview s 40 = replicate BSIZE 9" "disk s 40 = replicate BSIZE 7"
    "\<not> in_log s 40" using demo_trans [of "replicate BSIZE 9"] by auto
  have "commit_ready 0 0 1 s" using s(1-3) by (simp add: trans_def commit_ready_def)
  from commit_crash_safe [OF this] s this show ?thesis by (metis zero_less_one)
qed

end
