(* ===== verification/Fs.thy ===== *)
theory Fs
  imports Log
begin

section \<open>The file system\<close>

text \<open>
  \<^verbatim>\<open>src/fs.c\<close>. An in-memory inode is named by its index in \<^verbatim>\<open>icache.inode\<close>. The fields of type \<^verbatim>\<open>short\<close> keep their 16 bits. The bytes
  that \<^verbatim>\<open>readi\<close> stores at \<^verbatim>\<open>dst\<close> are part of its result, and the buffer of \<^verbatim>\<open>writei\<close> is a function from offsets to bytes.
  Paths and names are lists of bytes without the terminating zero. The device table \<^verbatim>\<open>devsw\<close> is an argument of the
  operations that call through it. Loops over blocks, inodes and directory entries run over the list of the values of their
  counter.
\<close>

abbreviation (input) NDIRECT :: nat where "NDIRECT \<equiv> 12"
abbreviation (input) NINDIRECT :: nat where "NINDIRECT \<equiv> 128"
abbreviation (input) IPB :: u32 where "IPB \<equiv> 8"
abbreviation (input) BPB :: nat where "BPB \<equiv> 4096"
abbreviation (input) NINODE :: nat where "NINODE \<equiv> 50"
abbreviation (input) NDEV :: int where "NDEV \<equiv> 10"
abbreviation (input) DIRSIZ :: nat where "DIRSIZ \<equiv> 14"
abbreviation (input) ROOTDEV :: u32 where "ROOTDEV \<equiv> 1"
abbreviation (input) ROOTINO :: u32 where "ROOTINO \<equiv> 1"
abbreviation (input) T_DIR :: u16 where "T_DIR \<equiv> 1"
abbreviation (input) T_FILE :: u16 where "T_FILE \<equiv> 2"
abbreviation (input) T_DEV :: u16 where "T_DEV \<equiv> 3"
abbreviation (input) SLASH :: u8 where "SLASH \<equiv> 47"

record inode =
  idev :: u32
  inum :: u32
  iref :: int
  ivalid :: bool
  itype :: u16
  imajor :: u16
  iminor :: u16
  inlink :: u16
  isize :: u32
  addrs :: "u32 list"

record fsst = logst +
  sb :: superblock
  inodes :: "inode list"

definition upd_inode :: "nat \<Rightarrow> (inode \<Rightarrow> inode) \<Rightarrow> 'a fsst_scheme \<Rightarrow> 'a fsst_scheme" where
  "upd_inode k f s = s\<lparr>inodes := (inodes s)[k := f (inodes s ! k)]\<rparr>"

text \<open>The device functions take the inode, the number of bytes and, for a write, the bytes.\<close>

record 's devsw =
  dread :: "(nat \<Rightarrow> u32 \<Rightarrow> 's \<Rightarrow> 's fault + (int \<times> u8 list) \<times> 's) option"
  dwrite :: "(nat \<Rightarrow> (nat \<Rightarrow> u8) \<Rightarrow> u32 \<Rightarrow> 's \<Rightarrow> 's fault + int \<times> 's) option"

subsection \<open>Blocks\<close>

definition bzero :: "u32 \<Rightarrow> u32 \<Rightarrow> 'a logst_scheme \<Rightarrow> 'a logst_scheme fault + 'a logst_scheme" where
  "bzero dev bno s =
     kbind (bread dev bno s) (\<lambda>(bp, s).
     let s = upd_buf bp (\<lambda>x. x\<lparr>bdata := replicate BSIZE 0\<rparr>) s in
     kbind (log_write bp s) (brelse bp))"

definition BBLOCK :: "u32 \<Rightarrow> superblock \<Rightarrow> u32" where
  "BBLOCK b p = b div of_nat BPB + sb_bmapstart p"

definition bit_mask :: "nat \<Rightarrow> u8" where
  "bit_mask bi = push_bit (bi mod 8) 1"

text \<open>The inner loop of \<^verbatim>\<open>balloc\<close>: the first free bit of a bitmap block, for blocks from \<open>b\<close> on.\<close>

definition balloc_scan :: "u32 \<Rightarrow> nat \<Rightarrow> u8 list \<Rightarrow> nat option" where
  "balloc_scan nblk b d =
     find (\<lambda>bi. d ! (bi div 8) AND bit_mask bi = 0) (takeWhile (\<lambda>bi. b + bi < unat nblk) [0..<BPB])"

primrec balloc_loop :: "u32 \<Rightarrow> nat list \<Rightarrow> 'a fsst_scheme \<Rightarrow> 'a fsst_scheme fault + u32 \<times> 'a fsst_scheme" where
  "balloc_loop dev [] s = Inl (Panic ''balloc: out of blocks'')"
| "balloc_loop dev (b # bs) s =
     kbind (bread dev (BBLOCK (of_nat b) (sb s)) s) (\<lambda>(bp, s).
     case balloc_scan (sb_size (sb s)) b (bdata (bufs s ! bp)) of
       Some bi \<Rightarrow>
         let s = upd_buf bp (\<lambda>x. x\<lparr>bdata := (bdata x)[bi div 8 := bdata x ! (bi div 8) OR bit_mask bi]\<rparr>) s in
         kbind (log_write bp s) (\<lambda>s.
         kbind (brelse bp s) (\<lambda>s.
         kbind (bzero dev (of_nat (b + bi)) s) (\<lambda>s.
         Inr (of_nat (b + bi), s))))
     | None \<Rightarrow> kbind (brelse bp s) (\<lambda>s. balloc_loop dev bs s))"

definition balloc :: "u32 \<Rightarrow> 'a fsst_scheme \<Rightarrow> 'a fsst_scheme fault + u32 \<times> 'a fsst_scheme" where
  "balloc dev s = balloc_loop dev (map (\<lambda>j. j * BPB) [0..<(unat (sb_size (sb s)) + BPB - 1) div BPB]) s"

definition bfree :: "u32 \<Rightarrow> u32 \<Rightarrow> 'a fsst_scheme \<Rightarrow> 'a fsst_scheme fault + 'a fsst_scheme" where
  "bfree dev b s =
     kbind (readsb dev s) (\<lambda>(sb', s).
     let s = s\<lparr>sb := sb'\<rparr> in
     kbind (bread dev (BBLOCK b (sb s)) s) (\<lambda>(bp, s).
     let bi = unat b mod BPB;
         d = bdata (bufs s ! bp) in
     if d ! (bi div 8) AND bit_mask bi = 0 then Inl (Panic ''freeing free block'')
     else
       let s = upd_buf bp (\<lambda>x. x\<lparr>bdata := d[bi div 8 := d ! (bi div 8) AND NOT (bit_mask bi)]\<rparr>) s in
       kbind (log_write bp s) (brelse bp)))"

subsection \<open>Inodes\<close>

definition IBLOCK :: "u32 \<Rightarrow> superblock \<Rightarrow> u32" where
  "IBLOCK i p = i div IPB + sb_inodestart p"

text \<open>The offset of an on-disk inode in its block, and the on-disk fields.\<close>

definition dip_off :: "u32 \<Rightarrow> nat" where
  "dip_off i = 64 * unat (i mod IPB)"

definition put_dinode :: "nat \<Rightarrow> inode \<Rightarrow> u8 list \<Rightarrow> u8 list" where
  "put_dinode k ip d =
     put32s (k + 12) (addrs ip) (put32 (k + 8) (isize ip) (put16 (k + 6) (inlink ip) (put16 (k + 4) (iminor ip)
       (put16 (k + 2) (imajor ip) (put16 k (itype ip) d)))))"

definition get_dinode :: "nat \<Rightarrow> u8 list \<Rightarrow> inode \<Rightarrow> inode" where
  "get_dinode k d ip = ip\<lparr>itype := get16 d k, imajor := get16 d (k + 2), iminor := get16 d (k + 4), inlink := get16 d (k + 6),
     isize := get32 d (k + 8), addrs := get32s (k + 12) (NDIRECT + 1) d\<rparr>"

primrec iinit_loop :: "nat list \<Rightarrow> 'a fsst_scheme \<Rightarrow> 'a fsst_scheme" where
  "iinit_loop [] s = s"
| "iinit_loop (k # ks) s = iinit_loop ks (initsleeplock (InodeSl k) s)"

text \<open>The message that \<^verbatim>\<open>iinit\<close> prints at its end is left out.\<close>

definition iinit :: "u32 \<Rightarrow> 'a fsst_scheme \<Rightarrow> 'a fsst_scheme fault + 'a fsst_scheme" where
  "iinit dev s =
     (let s = iinit_loop [0..<NINODE] (initlock IcacheLock s) in
      kbind (readsb dev s) (\<lambda>(sb', s). Inr (s\<lparr>sb := sb'\<rparr>)))"

definition iget :: "u32 \<Rightarrow> u32 \<Rightarrow> 'a fsst_scheme \<Rightarrow> 'a fsst_scheme fault + nat \<times> 'a fsst_scheme" where
  "iget dev i s =
     kbind (acquire IcacheLock s) (\<lambda>s.
     case find_idx (\<lambda>ip. iref ip > 0 \<and> idev ip = dev \<and> inum ip = i) (inodes s) of
       Some k \<Rightarrow>
         kbind (release IcacheLock (upd_inode k (\<lambda>ip. ip\<lparr>iref := iref ip + 1\<rparr>) s)) (\<lambda>s. Inr (k, s))
     | None \<Rightarrow>
         (case find_idx (\<lambda>ip. iref ip = 0) (inodes s) of
            None \<Rightarrow> Inl (Panic ''iget: no inodes'')
          | Some k \<Rightarrow>
              kbind (release IcacheLock (upd_inode k (\<lambda>ip. ip\<lparr>idev := dev, inum := i, iref := 1, ivalid := False\<rparr>) s)) (\<lambda>s.
              Inr (k, s))))"

primrec ialloc_loop :: "u32 \<Rightarrow> u16 \<Rightarrow> nat list \<Rightarrow> 'a fsst_scheme \<Rightarrow> 'a fsst_scheme fault + nat \<times> 'a fsst_scheme" where
  "ialloc_loop dev ty [] s = Inl (Panic ''ialloc: no inodes'')"
| "ialloc_loop dev ty (i # is) s =
     kbind (bread dev (IBLOCK (of_nat i) (sb s)) s) (\<lambda>(bp, s).
     let k = dip_off (of_nat i);
         d = bdata (bufs s ! bp) in
     if get16 d k = 0 then
       let s = upd_buf bp (\<lambda>x. x\<lparr>bdata := put16 k ty (splice k (replicate 64 0) d)\<rparr>) s in
       kbind (log_write bp s) (\<lambda>s.
       kbind (brelse bp s) (\<lambda>s.
       iget dev (of_nat i) s))
     else kbind (brelse bp s) (\<lambda>s. ialloc_loop dev ty is s))"

definition ialloc :: "u32 \<Rightarrow> u16 \<Rightarrow> 'a fsst_scheme \<Rightarrow> 'a fsst_scheme fault + nat \<times> 'a fsst_scheme" where
  "ialloc dev ty s = ialloc_loop dev ty [1..<unat (sb_ninodes (sb s))] s"

definition iupdate :: "nat \<Rightarrow> 'a fsst_scheme \<Rightarrow> 'a fsst_scheme fault + 'a fsst_scheme" where
  "iupdate k s =
     (let ip = inodes s ! k in
      kbind (bread (idev ip) (IBLOCK (inum ip) (sb s)) s) (\<lambda>(bp, s).
      let ip = inodes s ! k;
          s = upd_buf bp (\<lambda>x. x\<lparr>bdata := put_dinode (dip_off (inum ip)) ip (bdata x)\<rparr>) s in
      kbind (log_write bp s) (brelse bp)))"

definition idup :: "nat \<Rightarrow> 'a fsst_scheme \<Rightarrow> 'a fsst_scheme fault + nat \<times> 'a fsst_scheme" where
  "idup k s =
     kbind (acquire IcacheLock s) (\<lambda>s.
     kbind (release IcacheLock (upd_inode k (\<lambda>ip. ip\<lparr>iref := iref ip + 1\<rparr>) s)) (\<lambda>s. Inr (k, s)))"

text \<open>The callers of \<^verbatim>\<open>ilock\<close> and \<^verbatim>\<open>iunlock\<close> have an inode at hand, so the null pointer tests have no counterpart.\<close>

definition ilock :: "nat \<Rightarrow> 'a fsst_scheme \<Rightarrow> 'a fsst_scheme fault + 'a fsst_scheme" where
  "ilock k s =
     (if iref (inodes s ! k) < 1 then Inl (Panic ''ilock'')
      else
        kbind (acquiresleep (InodeSl k) s) (\<lambda>s.
        if \<not> ivalid (inodes s ! k) then
          let ip = inodes s ! k in
          kbind (bread (idev ip) (IBLOCK (inum ip) (sb s)) s) (\<lambda>(bp, s).
          let d = bdata (bufs s ! bp);
              s = upd_inode k (\<lambda>ip. get_dinode (dip_off (inum ip)) d ip) s in
          kbind (brelse bp s) (\<lambda>s.
          let s = upd_inode k (\<lambda>ip. ip\<lparr>ivalid := True\<rparr>) s in
          if itype (inodes s ! k) = 0 then Inl (Panic ''ilock: no type'') else Inr s))
        else Inr s))"

definition iunlock :: "nat \<Rightarrow> 'a fsst_scheme \<Rightarrow> 'a fsst_scheme fault + 'a fsst_scheme" where
  "iunlock k s =
     kbind (holdingsleep (InodeSl k) s) (\<lambda>(h, s).
     if \<not> h \<or> iref (inodes s ! k) < 1 then Inl (Panic ''iunlock'')
     else releasesleep (InodeSl k) s)"

text \<open>The two loops of \<^verbatim>\<open>itrunc\<close>, over the direct addresses and over the addresses \<open>as\<close> in the indirect block.\<close>

primrec itrunc_direct :: "nat \<Rightarrow> nat list \<Rightarrow> 'a fsst_scheme \<Rightarrow> 'a fsst_scheme fault + 'a fsst_scheme" where
  "itrunc_direct k [] s = Inr s"
| "itrunc_direct k (i # is) s =
     (if addrs (inodes s ! k) ! i \<noteq> 0 then
        kbind (bfree (idev (inodes s ! k)) (addrs (inodes s ! k) ! i) s) (\<lambda>s.
        itrunc_direct k is (upd_inode k (\<lambda>ip. ip\<lparr>addrs := (addrs ip)[i := 0]\<rparr>) s))
      else itrunc_direct k is s)"

primrec itrunc_indirect :: "nat \<Rightarrow> nat \<Rightarrow> nat list \<Rightarrow> 'a fsst_scheme \<Rightarrow> 'a fsst_scheme fault + 'a fsst_scheme" where
  "itrunc_indirect k bp [] s = Inr s"
| "itrunc_indirect k bp (j # js) s =
     (let a = get32 (bdata (bufs s ! bp)) (4 * j) in
      if a \<noteq> 0 then kbind (bfree (idev (inodes s ! k)) a s) (itrunc_indirect k bp js)
      else itrunc_indirect k bp js s)"

definition itrunc :: "nat \<Rightarrow> 'a fsst_scheme \<Rightarrow> 'a fsst_scheme fault + 'a fsst_scheme" where
  "itrunc k s =
     kbind (itrunc_direct k [0..<NDIRECT] s) (\<lambda>s.
     kbind (let a = addrs (inodes s ! k) ! NDIRECT in
        if a \<noteq> 0 then
          kbind (bread (idev (inodes s ! k)) a s) (\<lambda>(bp, s).
          kbind (itrunc_indirect k bp [0..<NINDIRECT] s) (\<lambda>s.
          kbind (brelse bp s) (\<lambda>s.
          kbind (bfree (idev (inodes s ! k)) (addrs (inodes s ! k) ! NDIRECT) s) (\<lambda>s.
          Inr (upd_inode k (\<lambda>ip. ip\<lparr>addrs := (addrs ip)[NDIRECT := 0]\<rparr>) s)))))
        else Inr s) (\<lambda>s.
     iupdate k (upd_inode k (\<lambda>ip. ip\<lparr>isize := 0\<rparr>) s)))"

definition iput :: "nat \<Rightarrow> 'a fsst_scheme \<Rightarrow> 'a fsst_scheme fault + 'a fsst_scheme" where
  "iput k s =
     kbind (acquiresleep (InodeSl k) s) (\<lambda>s.
     kbind (if ivalid (inodes s ! k) \<and> inlink (inodes s ! k) = 0 then
        kbind (acquire IcacheLock s) (\<lambda>s.
        let r = iref (inodes s ! k) in
        kbind (release IcacheLock s) (\<lambda>s.
        if r = 1 then
          kbind (itrunc k s) (\<lambda>s.
          kbind (iupdate k (upd_inode k (\<lambda>ip. ip\<lparr>itype := 0\<rparr>) s)) (\<lambda>s.
          Inr (upd_inode k (\<lambda>ip. ip\<lparr>ivalid := False\<rparr>) s)))
        else Inr s))
      else Inr s) (\<lambda>s.
     kbind (releasesleep (InodeSl k) s) (\<lambda>s.
     kbind (acquire IcacheLock s) (\<lambda>s.
     release IcacheLock (upd_inode k (\<lambda>ip. ip\<lparr>iref := iref ip - 1\<rparr>) s)))))"

definition iunlockput :: "nat \<Rightarrow> 'a fsst_scheme \<Rightarrow> 'a fsst_scheme fault + 'a fsst_scheme" where
  "iunlockput k s = kbind (iunlock k s) (iput k)"

subsection \<open>Inode content\<close>

definition bmap :: "nat \<Rightarrow> nat \<Rightarrow> 'a fsst_scheme \<Rightarrow> 'a fsst_scheme fault + u32 \<times> 'a fsst_scheme" where
  "bmap k bn s =
     (if bn < NDIRECT then
        let a = addrs (inodes s ! k) ! bn in
        if a = 0 then
          kbind (balloc (idev (inodes s ! k)) s) (\<lambda>(a, s).
          Inr (a, upd_inode k (\<lambda>ip. ip\<lparr>addrs := (addrs ip)[bn := a]\<rparr>) s))
        else Inr (a, s)
      else
        let bn = bn - NDIRECT in
        if bn < NINDIRECT then
          kbind (let a = addrs (inodes s ! k) ! NDIRECT in
             if a = 0 then
               kbind (balloc (idev (inodes s ! k)) s) (\<lambda>(a, s).
               Inr (a, upd_inode k (\<lambda>ip. ip\<lparr>addrs := (addrs ip)[NDIRECT := a]\<rparr>) s))
             else Inr (a, s)) (\<lambda>(a, s).
          kbind (bread (idev (inodes s ! k)) a s) (\<lambda>(bp, s).
          let a = get32 (bdata (bufs s ! bp)) (4 * bn) in
          kbind (if a = 0 then
               kbind (balloc (idev (inodes s ! k)) s) (\<lambda>(a, s).
               kbind (log_write bp (upd_buf bp (\<lambda>x. x\<lparr>bdata := put32 (4 * bn) a (bdata x)\<rparr>) s)) (\<lambda>s.
               Inr (a, s)))
             else Inr (a, s)) (\<lambda>(a, s).
          kbind (brelse bp s) (\<lambda>s. Inr (a, s)))))
        else Inl (Panic ''bmap: out of range''))"

record stat =
  st_type :: u16
  st_dev :: u32
  st_ino :: u32
  st_nlink :: u16
  st_size :: u32

definition stati :: "inode \<Rightarrow> stat" where
  "stati ip = \<lparr>st_type = itype ip, st_dev = idev ip, st_ino = inum ip, st_nlink = inlink ip, st_size = isize ip\<rparr>"

text \<open>The loops of \<^verbatim>\<open>readi\<close> and \<^verbatim>\<open>writei\<close> with \<open>r\<close> bytes to go, and the part of \<^verbatim>\<open>readi\<close> and \<^verbatim>\<open>writei\<close> for inodes other than devices.\<close>

function readi_loop :: "nat \<Rightarrow> nat \<Rightarrow> nat \<Rightarrow> 'a fsst_scheme \<Rightarrow> 'a fsst_scheme fault + u8 list \<times> 'a fsst_scheme" where
  "readi_loop k off r s =
     (if r = 0 then Inr ([], s)
      else
        kbind (bmap k (off div BSIZE) s) (\<lambda>(a, s).
        kbind (bread (idev (inodes s ! k)) a s) (\<lambda>(bp, s).
        let m = min r (BSIZE - off mod BSIZE);
            xs = take m (drop (off mod BSIZE) (bdata (bufs s ! bp))) in
        kbind (brelse bp s) (\<lambda>s.
        kbind (readi_loop k (off + m) (r - m) s) (\<lambda>(ys, s).
        Inr (xs @ ys, s))))))"
  by pat_completeness auto
termination by (relation "measure (\<lambda>(k, off, r, s). r)") (auto simp: min_def)

definition readi_file :: "nat \<Rightarrow> u32 \<Rightarrow> u32 \<Rightarrow> 'a fsst_scheme \<Rightarrow> 'a fsst_scheme fault + (int \<times> u8 list) \<times> 'a fsst_scheme" where
  "readi_file k off n s =
     (let sz = isize (inodes s ! k) in
      if off > sz \<or> off + n < off then Inr ((-1, []), s)
      else
        let n = (if off + n > sz then sz - off else n) in
        kbind (readi_loop k (unat off) (unat n) s) (\<lambda>(xs, s). Inr ((sint n, xs), s)))"

definition readi ::
  "'a fsst_scheme devsw list \<Rightarrow> nat \<Rightarrow> u32 \<Rightarrow> u32 \<Rightarrow> 'a fsst_scheme \<Rightarrow> 'a fsst_scheme fault + (int \<times> u8 list) \<times> 'a fsst_scheme" where
  "readi dv k off n s =
     (if itype (inodes s ! k) = T_DEV then
        let major = sint (imajor (inodes s ! k)) in
        if major < 0 \<or> major \<ge> NDEV then Inr ((-1, []), s)
        else (case dread (dv ! nat major) of None \<Rightarrow> Inr ((-1, []), s) | Some f \<Rightarrow> f k n s)
      else readi_file k off n s)"

function writei_loop :: "nat \<Rightarrow> (nat \<Rightarrow> u8) \<Rightarrow> nat \<Rightarrow> nat \<Rightarrow> 'a fsst_scheme \<Rightarrow> 'a fsst_scheme fault + nat \<times> 'a fsst_scheme" where
  "writei_loop k src off r s =
     (if r = 0 then Inr (off, s)
      else
        kbind (bmap k (off div BSIZE) s) (\<lambda>(a, s).
        kbind (bread (idev (inodes s ! k)) a s) (\<lambda>(bp, s).
        let m = min r (BSIZE - off mod BSIZE);
            s = upd_buf bp (\<lambda>x. x\<lparr>bdata := splice (off mod BSIZE) (map src [0..<m]) (bdata x)\<rparr>) s in
        kbind (log_write bp s) (\<lambda>s.
        kbind (brelse bp s) (\<lambda>s.
        writei_loop k (\<lambda>i. src (m + i)) (off + m) (r - m) s)))))"
  by pat_completeness auto
termination by (relation "measure (\<lambda>(k, src, off, r, s). r)") (auto simp: min_def)

definition writei_file :: "nat \<Rightarrow> (nat \<Rightarrow> u8) \<Rightarrow> u32 \<Rightarrow> u32 \<Rightarrow> 'a fsst_scheme \<Rightarrow> 'a fsst_scheme fault + int \<times> 'a fsst_scheme" where
  "writei_file k src off n s =
     (if off > isize (inodes s ! k) \<or> off + n < off then Inr (-1, s)
      else if off + n > of_nat ((NDIRECT + NINDIRECT) * BSIZE) then Inr (-1, s)
      else
        kbind (writei_loop k src (unat off) (unat n) s) (\<lambda>(off, s).
        kbind (if n > 0 \<and> of_nat off > isize (inodes s ! k)
               then iupdate k (upd_inode k (\<lambda>ip. ip\<lparr>isize := of_nat off\<rparr>) s) else Inr s) (\<lambda>s.
        Inr (sint n, s))))"

definition writei ::
  "'a fsst_scheme devsw list \<Rightarrow> nat \<Rightarrow> (nat \<Rightarrow> u8) \<Rightarrow> u32 \<Rightarrow> u32 \<Rightarrow> 'a fsst_scheme \<Rightarrow> 'a fsst_scheme fault + int \<times> 'a fsst_scheme" where
  "writei dv k src off n s =
     (if itype (inodes s ! k) = T_DEV then
        let major = sint (imajor (inodes s ! k)) in
        if major < 0 \<or> major \<ge> NDEV then Inr (-1, s)
        else (case dwrite (dv ! nat major) of None \<Rightarrow> Inr (-1, s) | Some f \<Rightarrow> f k src n s)
      else writei_file k src off n s)"

subsection \<open>Directories\<close>

definition namecmp :: "u8 list \<Rightarrow> u8 list \<Rightarrow> int" where
  "namecmp p q = strncmp (at_list p) (at_list q) DIRSIZ"

text \<open>A directory entry as the 16 bytes on the disk: its inode number and its name field.\<close>

definition de_inum :: "u8 list \<Rightarrow> u16" where
  "de_inum de = get16 de 0"

definition de_name :: "u8 list \<Rightarrow> u8 list" where
  "de_name de = take DIRSIZ (drop 2 de)"

text \<open>\<^verbatim>\<open>strncpy(de.name, name, DIRSIZ)\<close> with \<^verbatim>\<open>de.inum = inum\<close>.\<close>

definition make_de :: "u8 list \<Rightarrow> u16 \<Rightarrow> u8 list" where
  "make_de name i =
     (let t = take DIRSIZ (takeWhile (\<lambda>x. x \<noteq> 0) name) in
      put16 0 i (replicate 2 0 @ t @ replicate (DIRSIZ - length t) 0))"

text \<open>The loop of \<^verbatim>\<open>dirlookup\<close> over the offsets of the entries. \<^verbatim>\<open>dp\<close> is a directory here, not a device.\<close>

primrec dirlookup_loop ::
  "nat \<Rightarrow> u8 list \<Rightarrow> nat list \<Rightarrow> 'a fsst_scheme \<Rightarrow> 'a fsst_scheme fault + (nat \<times> u32) option \<times> 'a fsst_scheme" where
  "dirlookup_loop dp name [] s = Inr (None, s)"
| "dirlookup_loop dp name (off # offs) s =
     kbind (readi_file dp (of_nat off) 16 s) (\<lambda>((r, de), s).
     if r \<noteq> 16 then Inl (Panic ''dirlookup read'')
     else if de_inum de = 0 then dirlookup_loop dp name offs s
     else if namecmp name (de_name de) = 0 then
       kbind (iget (idev (inodes s ! dp)) (ucast (de_inum de)) s) (\<lambda>(k, s). Inr (Some (k, of_nat off), s))
     else dirlookup_loop dp name offs s)"

definition de_offs :: "nat \<Rightarrow> 'a fsst_scheme \<Rightarrow> nat list" where
  "de_offs dp s = map (\<lambda>j. 16 * j) [0..<(unat (isize (inodes s ! dp)) + 15) div 16]"

definition dirlookup :: "nat \<Rightarrow> u8 list \<Rightarrow> 'a fsst_scheme \<Rightarrow> 'a fsst_scheme fault + (nat \<times> u32) option \<times> 'a fsst_scheme" where
  "dirlookup dp name s =
     (if itype (inodes s ! dp) \<noteq> T_DIR then Inl (Panic ''dirlookup not DIR'')
      else dirlookup_loop dp name (de_offs dp s) s)"

text \<open>The search of \<^verbatim>\<open>dirlink\<close> for a free entry; \<open>last\<close> is the offset after the last entry.\<close>

primrec dirlink_loop :: "nat \<Rightarrow> nat \<Rightarrow> nat list \<Rightarrow> 'a fsst_scheme \<Rightarrow> 'a fsst_scheme fault + nat \<times> 'a fsst_scheme" where
  "dirlink_loop dp e [] s = Inr (e, s)"
| "dirlink_loop dp e (off # offs) s =
     kbind (readi_file dp (of_nat off) 16 s) (\<lambda>((r, de), s).
     if r \<noteq> 16 then Inl (Panic ''dirlink read'')
     else if de_inum de = 0 then Inr (off, s)
     else dirlink_loop dp e offs s)"

definition dirlink :: "nat \<Rightarrow> u8 list \<Rightarrow> u32 \<Rightarrow> 'a fsst_scheme \<Rightarrow> 'a fsst_scheme fault + int \<times> 'a fsst_scheme" where
  "dirlink dp name i s =
     kbind (dirlookup dp name s) (\<lambda>(r, s).
     case r of
       Some (k, _) \<Rightarrow> kbind (iput k s) (\<lambda>s. Inr (-1, s))
     | None \<Rightarrow>
         kbind (dirlink_loop dp (16 * length (de_offs dp s)) (de_offs dp s) s) (\<lambda>(off, s).
         kbind (writei_file dp (\<lambda>j. make_de name (ucast i) ! j) (of_nat off) 16 s) (\<lambda>(r, s).
         if r \<noteq> 16 then Inl (Panic ''dirlink'') else Inr (0, s))))"

subsection \<open>Paths\<close>

definition skipelem :: "u8 list \<Rightarrow> (u8 list \<times> u8 list) option" where
  "skipelem path =
     (let path = dropWhile (\<lambda>x. x = SLASH) path in
      if path = [] then None
      else
        let el = takeWhile (\<lambda>x. x \<noteq> SLASH) path;
            rest = dropWhile (\<lambda>x. x \<noteq> SLASH) path;
            name = (if length el \<ge> DIRSIZ then take DIRSIZ el else el) in
        Some (dropWhile (\<lambda>x. x = SLASH) rest, name))"

lemma skipelem_shorter: "skipelem path = Some (rest, name) \<Longrightarrow> length rest < length path"
proof -
  assume a: "skipelem path = Some (rest, name)"
  let ?p = "dropWhile (\<lambda>x. x = SLASH) path"
  have ne: "?p \<noteq> []" and r: "rest = dropWhile (\<lambda>x. x = SLASH) (dropWhile (\<lambda>x. x \<noteq> SLASH) ?p)"
    using a by (auto simp: skipelem_def Let_def split: if_splits)
  have "hd ?p \<noteq> SLASH" using hd_dropWhile [OF ne] by simp
  then have "length (dropWhile (\<lambda>x. x \<noteq> SLASH) ?p) < length ?p" using ne by (cases ?p) (auto intro: le_imp_less_Suc length_dropWhile_le)
  moreover have "length rest \<le> length (dropWhile (\<lambda>x. x \<noteq> SLASH) ?p)" unfolding r by (rule length_dropWhile_le)
  moreover have "length ?p \<le> length path" by (rule length_dropWhile_le)
  ultimately show ?thesis by simp
qed

text \<open>The loop of \<^verbatim>\<open>namex\<close>, with the name that the last call of \<^verbatim>\<open>skipelem\<close> has left in the buffer.\<close>

function namex_loop ::
  "nat \<Rightarrow> u8 list \<Rightarrow> bool \<Rightarrow> u8 list \<Rightarrow> 'a fsst_scheme \<Rightarrow> 'a fsst_scheme fault + (nat option \<times> u8 list) \<times> 'a fsst_scheme" where
  "namex_loop k path par name s =
     (case skipelem path of
        None \<Rightarrow>
          if par then kbind (iput k s) (\<lambda>s. Inr ((None, name), s))
          else Inr ((Some k, name), s)
      | Some (rest, name) \<Rightarrow>
          kbind (ilock k s) (\<lambda>s.
          if itype (inodes s ! k) \<noteq> T_DIR then kbind (iunlockput k s) (\<lambda>s. Inr ((None, name), s))
          else if par \<and> rest = [] then kbind (iunlock k s) (\<lambda>s. Inr ((Some k, name), s))
          else
            kbind (dirlookup k name s) (\<lambda>(r, s).
            case r of
              None \<Rightarrow> kbind (iunlockput k s) (\<lambda>s. Inr ((None, name), s))
            | Some (next, _) \<Rightarrow> kbind (iunlockput k s) (\<lambda>s. namex_loop next rest par name s))))"
  by pat_completeness auto
termination by (relation "measure (\<lambda>(k, path, par, name, s). length path)") (auto dest: skipelem_shorter)

definition namex :: "u8 list \<Rightarrow> bool \<Rightarrow> 'a fsst_scheme \<Rightarrow> 'a fsst_scheme fault + (nat option \<times> u8 list) \<times> 'a fsst_scheme" where
  "namex path par s =
     kbind (if at_list path 0 = SLASH then iget ROOTDEV ROOTINO s
            else kbind (myproc s) (\<lambda>(me, s). deref me (\<lambda>i. deref (cwd (ptable s ! i)) (\<lambda>k. idup k s)))) (\<lambda>(k, s).
     namex_loop k path par [] s)"

definition namei :: "u8 list \<Rightarrow> 'a fsst_scheme \<Rightarrow> 'a fsst_scheme fault + nat option \<times> 'a fsst_scheme" where
  "namei path s = kbind (namex path False s) (\<lambda>((r, _), s). Inr (r, s))"

definition nameiparent :: "u8 list \<Rightarrow> 'a fsst_scheme \<Rightarrow> 'a fsst_scheme fault + (nat option \<times> u8 list) \<times> 'a fsst_scheme" where
  "nameiparent path s = namex path True s"

end
