(* ===== verification/File.thy ===== *)
theory File
  imports Fs
begin

section \<open>Open files\<close>

text \<open>
  \<^verbatim>\<open>src/file.c\<close> and \<^verbatim>\<open>pipealloc\<close> of \<^verbatim>\<open>src/pipe.c\<close>. A pointer to a \<^verbatim>\<open>struct file\<close> is its index in \<^verbatim>\<open>ftable.file\<close>. As for
  \<^verbatim>\<open>readi\<close> and \<^verbatim>\<open>writei\<close>, the bytes that a read stores in the caller's buffer are part of its result and the bytes to
  write are a function from offsets. \<open>dv\<close> is the device table.
\<close>

datatype file_type = FD_NONE | FD_PIPE | FD_INODE

record filerec =
  ftype :: file_type
  fref :: int
  readable :: bool
  writable :: bool
  fpipe :: u32
  fip :: nat
  foff :: u32

record filest = fsst +
  ftable :: "filerec list"

definition upd_file :: "nat \<Rightarrow> (filerec \<Rightarrow> filerec) \<Rightarrow> 'a filest_scheme \<Rightarrow> 'a filest_scheme" where
  "upd_file f g s = s\<lparr>ftable := (ftable s)[f := g (ftable s ! f)]\<rparr>"

subsection \<open>Operations\<close>

definition fileinit :: "'a filest_scheme \<Rightarrow> 'a filest_scheme" where
  "fileinit s = initlock FtableLock s"

definition filealloc :: "'a filest_scheme \<Rightarrow> 'a filest_scheme fault + nat option \<times> 'a filest_scheme" where
  "filealloc s =
     kbind (acquire FtableLock s) (\<lambda>s.
     case find_idx (\<lambda>f. fref f = 0) (ftable s) of
       Some f \<Rightarrow> kbind (release FtableLock (upd_file f (\<lambda>x. x\<lparr>fref := 1\<rparr>) s)) (\<lambda>s. Inr (Some f, s))
     | None \<Rightarrow> kbind (release FtableLock s) (\<lambda>s. Inr (None, s)))"

definition filedup :: "nat \<Rightarrow> 'a filest_scheme \<Rightarrow> 'a filest_scheme fault + nat \<times> 'a filest_scheme" where
  "filedup f s =
     kbind (acquire FtableLock s) (\<lambda>s.
     if fref (ftable s ! f) < 1 then Inl (Panic ''filedup'')
     else kbind (release FtableLock (upd_file f (\<lambda>x. x\<lparr>fref := fref x + 1\<rparr>) s)) (\<lambda>s. Inr (f, s)))"

definition fileclose :: "nat \<Rightarrow> 'a filest_scheme \<Rightarrow> 'a filest_scheme fault + 'a filest_scheme" where
  "fileclose f s =
     kbind (acquire FtableLock s) (\<lambda>s.
     if fref (ftable s ! f) < 1 then Inl (Panic ''fileclose'')
     else
       let s = upd_file f (\<lambda>x. x\<lparr>fref := fref x - 1\<rparr>) s in
       if fref (ftable s ! f) > 0 then release FtableLock s
       else
         let ff = ftable s ! f;
             s = upd_file f (\<lambda>x. x\<lparr>fref := 0, ftype := FD_NONE\<rparr>) s in
         kbind (release FtableLock s) (\<lambda>s.
         if ftype ff = FD_PIPE then pipeclose (fpipe ff) (writable ff) s
         else if ftype ff = FD_INODE then
           kbind (begin_op s) (\<lambda>s.
           kbind (iput (fip ff) s) (\<lambda>s.
           end_op s))
         else Inr s))"

definition filestat :: "nat \<Rightarrow> 'a filest_scheme \<Rightarrow> 'a filest_scheme fault + stat option \<times> 'a filest_scheme" where
  "filestat f s =
     (if ftype (ftable s ! f) = FD_INODE then
        kbind (ilock (fip (ftable s ! f)) s) (\<lambda>s.
        let st = stati (inodes s ! fip (ftable s ! f)) in
        kbind (iunlock (fip (ftable s ! f)) s) (\<lambda>s. Inr (Some st, s)))
      else Inr (None, s))"

definition fileread ::
  "'a filest_scheme devsw list \<Rightarrow> nat \<Rightarrow> int \<Rightarrow> 'a filest_scheme \<Rightarrow> 'a filest_scheme fault + (int \<times> u8 list) \<times> 'a filest_scheme" where
  "fileread dv f n s =
     (if \<not> readable (ftable s ! f) then Inr ((-1, []), s)
      else if ftype (ftable s ! f) = FD_PIPE then piperead (fpipe (ftable s ! f)) n s
      else if ftype (ftable s ! f) = FD_INODE then
        kbind (ilock (fip (ftable s ! f)) s) (\<lambda>s.
        kbind (readi dv (fip (ftable s ! f)) (foff (ftable s ! f)) (of_int n) s) (\<lambda>((r, xs), s).
        let s = (if r > 0 then upd_file f (\<lambda>x. x\<lparr>foff := foff x + of_int r\<rparr>) s else s) in
        kbind (iunlock (fip (ftable s ! f)) s) (\<lambda>s. Inr ((r, xs), s))))
      else Inl (Panic ''fileread''))"

text \<open>The largest write in one transaction, \<^verbatim>\<open>((MAXOPBLOCKS-1-1-2) / 2) * 512\<close>.\<close>

definition filewrite_max :: int where
  "filewrite_max = ((MAXOPBLOCKS - 1 - 1 - 2) div 2) * 512"

text \<open>One transaction of \<^verbatim>\<open>filewrite\<close>, and its loop with \<open>i\<close> bytes written.\<close>

definition filewrite_op ::
  "'a filest_scheme devsw list \<Rightarrow> nat \<Rightarrow> (nat \<Rightarrow> u8) \<Rightarrow> int \<Rightarrow> 'a filest_scheme \<Rightarrow> 'a filest_scheme fault + int \<times> 'a filest_scheme" where
  "filewrite_op dv f src n1 s =
     kbind (begin_op s) (\<lambda>s.
     kbind (ilock (fip (ftable s ! f)) s) (\<lambda>s.
     kbind (writei dv (fip (ftable s ! f)) src (foff (ftable s ! f)) (of_int n1) s) (\<lambda>(r, s).
     let s = (if r > 0 then upd_file f (\<lambda>x. x\<lparr>foff := foff x + of_int r\<rparr>) s else s) in
     kbind (iunlock (fip (ftable s ! f)) s) (\<lambda>s.
     kbind (end_op s) (\<lambda>s. Inr (r, s))))))"

function filewrite_loop ::
  "'a filest_scheme devsw list \<Rightarrow> nat \<Rightarrow> (nat \<Rightarrow> u8) \<Rightarrow> int \<Rightarrow> int \<Rightarrow> 'a filest_scheme \<Rightarrow> 'a filest_scheme fault + int \<times> 'a filest_scheme" where
  "filewrite_loop dv f src n i s =
     (if i < n then
        let n1 = (if n - i > filewrite_max then filewrite_max else n - i) in
        kbind (filewrite_op dv f (\<lambda>j. src (nat i + j)) n1 s) (\<lambda>(r, s).
        if r < 0 then Inr (if i = n then n else -1, s)
        else if r \<noteq> n1 then Inl (Panic ''short filewrite'')
        else filewrite_loop dv f src n (i + r) s)
      else Inr (if i = n then n else -1, s))"
  by pat_completeness auto
termination by (relation "measure (\<lambda>(dv, f, src, n, i, s). nat (n - i))") (auto simp: filewrite_max_def)

definition filewrite ::
  "'a filest_scheme devsw list \<Rightarrow> nat \<Rightarrow> (nat \<Rightarrow> u8) \<Rightarrow> int \<Rightarrow> 'a filest_scheme \<Rightarrow> 'a filest_scheme fault + int \<times> 'a filest_scheme" where
  "filewrite dv f src n s =
     (if \<not> writable (ftable s ! f) then Inr (-1, s)
      else if ftype (ftable s ! f) = FD_PIPE then pipewrite (fpipe (ftable s ! f)) src n s
      else if ftype (ftable s ! f) = FD_INODE then filewrite_loop dv f src n 0 s
      else Inl (Panic ''filewrite''))"

subsection \<open>Allocating a pipe\<close>

text \<open>The exit \<^verbatim>\<open>bad\<close>, where \<^verbatim>\<open>p\<close> is always null: nothing can fail once the page is there.\<close>

definition pipealloc_bad :: "nat option \<Rightarrow> nat option \<Rightarrow> 'a filest_scheme \<Rightarrow> 'a filest_scheme fault + (nat \<times> nat) option \<times> 'a filest_scheme" where
  "pipealloc_bad f0 f1 s =
     kbind (case f0 of Some f \<Rightarrow> fileclose f s | None \<Rightarrow> Inr s) (\<lambda>s.
     kbind (case f1 of Some f \<Rightarrow> fileclose f s | None \<Rightarrow> Inr s) (\<lambda>s.
     Inr (None, s)))"

definition pipealloc :: "'a filest_scheme \<Rightarrow> 'a filest_scheme fault + (nat \<times> nat) option \<times> 'a filest_scheme" where
  "pipealloc s =
     kbind (filealloc s) (\<lambda>(f0, s).
     case f0 of
       None \<Rightarrow> pipealloc_bad None None s
     | Some f0 \<Rightarrow>
         kbind (filealloc s) (\<lambda>(f1, s).
         case f1 of
           None \<Rightarrow> pipealloc_bad (Some f0) None s
         | Some f1 \<Rightarrow>
             kbind (kalloc s) (\<lambda>(p, s).
             if p = 0 then pipealloc_bad (Some f0) (Some f1) s
             else
               let s = upd_pipe p (\<lambda>q. q\<lparr>readopen := True, writeopen := True, nwrite := 0, nread := 0\<rparr>) s;
                   s = initlock (PipeLock p) s;
                   s = upd_file f0 (\<lambda>x. x\<lparr>ftype := FD_PIPE, readable := True, writable := False, fpipe := p\<rparr>) s;
                   s = upd_file f1 (\<lambda>x. x\<lparr>ftype := FD_PIPE, readable := False, writable := True, fpipe := p\<rparr>) s in
               Inr (Some (f0, f1), s))))"

end
