(* ===== verification/Syscall.thy ===== *)
theory Syscall
  imports File
begin

section \<open>System call arguments\<close>

text \<open>
  The first half of \<^verbatim>\<open>src/syscall.c\<close>: the access to the arguments and the memory of the calling process. The kernel reads and
  writes user addresses through the page table of the process; an access to an address that is not mapped is a trap in the
  kernel, which panics. A string argument is the list of its bytes, without the terminating zero. An argument that the kernel
  refuses is \<open>None\<close>.
\<close>

subsection \<open>User memory\<close>

text \<open>The address translation of the processor: the kernel address of the byte at \<open>va\<close>.\<close>

definition mmu :: "u32 \<Rightarrow> u32 \<Rightarrow> mem \<Rightarrow> u32 option" where
  "mmu pd va m =
     (let pde = load32 m (pd + 4 * PDX va) in
      if pde AND PTE_P = 0 then None
      else
        let pte = load32 m (P2V (PTE_ADDR pde) + 4 * PTX va) in
        if pte AND PTE_P = 0 then None else Some (P2V (PTE_ADDR pte) + va mod PGSIZE))"

definition uload :: "nat \<Rightarrow> u32 \<Rightarrow> 'a ptab_scheme \<Rightarrow> 'a ptab_scheme fault + u8" where
  "uload i va s =
     (case mmu (pgdir (ptable s ! i)) va (mem s) of
        None \<Rightarrow> Inl (Panic ''trap'')
      | Some a \<Rightarrow> Inr (mem s a))"

primrec uloads :: "nat \<Rightarrow> u32 \<Rightarrow> nat \<Rightarrow> 'a ptab_scheme \<Rightarrow> 'a ptab_scheme fault + u8 list" where
  "uloads i va 0 s = Inr []"
| "uloads i va (Suc n) s = kbind (uload i va s) (\<lambda>x. kbind (uloads i (va + 1) n s) (\<lambda>xs. Inr (x # xs)))"

definition ustore :: "nat \<Rightarrow> u32 \<Rightarrow> u8 \<Rightarrow> 'a ptab_scheme \<Rightarrow> 'a ptab_scheme fault + 'a ptab_scheme" where
  "ustore i va x s =
     (case mmu (pgdir (ptable s ! i)) va (mem s) of
        None \<Rightarrow> Inl (Panic ''trap'')
      | Some a \<Rightarrow> Inr (s\<lparr>mem := (mem s)(a := x)\<rparr>))"

primrec ustores :: "nat \<Rightarrow> u32 \<Rightarrow> u8 list \<Rightarrow> 'a ptab_scheme \<Rightarrow> 'a ptab_scheme fault + 'a ptab_scheme" where
  "ustores i va [] s = Inr s"
| "ustores i va (x # xs) s = kbind (ustore i va x s) (ustores i (va + 1) xs)"

definition word_bytes :: "u32 \<Rightarrow> u8 list" where
  "word_bytes v = put32 0 v (replicate 4 0)"

definition half_bytes :: "u16 \<Rightarrow> u8 list" where
  "half_bytes v = put16 0 v (replicate 2 0)"

text \<open>\<^verbatim>\<open>myproc()->...\<close>: the calling process, which must exist.\<close>

definition with_proc ::
  "(nat \<Rightarrow> 'a ptab_scheme \<Rightarrow> 'a ptab_scheme fault + 'b) \<Rightarrow> 'a ptab_scheme \<Rightarrow> 'a ptab_scheme fault + 'b" where
  "with_proc f s = kbind (myproc s) (\<lambda>(me, s). deref me (\<lambda>i. f i s))"

subsection \<open>Arguments\<close>

definition fetchint :: "u32 \<Rightarrow> 'a ptab_scheme \<Rightarrow> 'a ptab_scheme fault + u32 option \<times> 'a ptab_scheme" where
  "fetchint addr = with_proc (\<lambda>i s.
     if addr \<ge> sz (ptable s ! i) \<or> addr + 4 > sz (ptable s ! i) then Inr (None, s)
     else kbind (uloads i addr 4 s) (\<lambda>xs. Inr (Some (get32 xs 0), s)))"

text \<open>The loop of \<^verbatim>\<open>fetchstr\<close> with \<open>n\<close> bytes left up to the end of the process memory.\<close>

primrec fetchstr_loop :: "nat \<Rightarrow> nat \<Rightarrow> u32 \<Rightarrow> 'a ptab_scheme \<Rightarrow> 'a ptab_scheme fault + u8 list option" where
  "fetchstr_loop i 0 p s = Inr None"
| "fetchstr_loop i (Suc n) p s =
     kbind (uload i p s) (\<lambda>x.
     if x = 0 then Inr (Some [])
     else kbind (fetchstr_loop i n (p + 1) s) (\<lambda>r. Inr (map_option (Cons x) r)))"

definition fetchstr :: "u32 \<Rightarrow> 'a ptab_scheme \<Rightarrow> 'a ptab_scheme fault + u8 list option \<times> 'a ptab_scheme" where
  "fetchstr addr = with_proc (\<lambda>i s.
     if addr \<ge> sz (ptable s ! i) then Inr (None, s)
     else kbind (fetchstr_loop i (unat (sz (ptable s ! i) - addr)) addr s) (\<lambda>r. Inr (r, s)))"

text \<open>Offsets in the trap frame.\<close>

abbreviation (input) TF_EAX :: u32 where "TF_EAX \<equiv> 28"
abbreviation (input) TF_ES :: u32 where "TF_ES \<equiv> 40"
abbreviation (input) TF_DS :: u32 where "TF_DS \<equiv> 44"
abbreviation (input) TF_TRAPNO :: u32 where "TF_TRAPNO \<equiv> 48"
abbreviation (input) TF_EIP :: u32 where "TF_EIP \<equiv> 56"
abbreviation (input) TF_CS :: u32 where "TF_CS \<equiv> 60"
abbreviation (input) TF_EFLAGS :: u32 where "TF_EFLAGS \<equiv> 64"
abbreviation (input) TF_ESP :: u32 where "TF_ESP \<equiv> 68"
abbreviation (input) TF_SS :: u32 where "TF_SS \<equiv> 72"

definition argint :: "nat \<Rightarrow> 'a ptab_scheme \<Rightarrow> 'a ptab_scheme fault + u32 option \<times> 'a ptab_scheme" where
  "argint n = with_proc (\<lambda>i s. fetchint (load32 (mem s) (tf (ptable s ! i) + TF_ESP) + 4 + 4 * of_nat n) s)"

definition argptr :: "nat \<Rightarrow> int \<Rightarrow> 'a ptab_scheme \<Rightarrow> 'a ptab_scheme fault + u32 option \<times> 'a ptab_scheme" where
  "argptr n size' = with_proc (\<lambda>i s.
     kbind (argint n s) (\<lambda>(r, s).
     case r of
       None \<Rightarrow> Inr (None, s)
     | Some p \<Rightarrow>
         if size' < 0 \<or> p \<ge> sz (ptable s ! i) \<or> p + of_int size' > sz (ptable s ! i) then Inr (None, s)
         else Inr (Some p, s)))"

definition argstr :: "nat \<Rightarrow> 'a ptab_scheme \<Rightarrow> 'a ptab_scheme fault + u8 list option \<times> 'a ptab_scheme" where
  "argstr n s =
     kbind (argint n s) (\<lambda>(r, s).
     case r of None \<Rightarrow> Inr (None, s) | Some a \<Rightarrow> fetchstr a s)"

end
