(* ===== verification/Sysfile.thy ===== *)
theory Sysfile
  imports Syscall
begin

section \<open>File system calls\<close>

text \<open>
  \<^verbatim>\<open>src/sysfile.c\<close>. \<open>dv\<close> is the device table. The bytes that \<^verbatim>\<open>sys_write\<close> passes on are read from the memory of the process
  before the call and those that \<^verbatim>\<open>sys_read\<close> gets are stored after it; \<^verbatim>\<open>argptr\<close> has checked the range.
\<close>

abbreviation (input) NOFILE :: int where "NOFILE \<equiv> 16"
abbreviation (input) MAXARG :: nat where "MAXARG \<equiv> 32"
abbreviation (input) O_RDONLY :: u32 where "O_RDONLY \<equiv> 0"
abbreviation (input) O_WRONLY :: u32 where "O_WRONLY \<equiv> 1"
abbreviation (input) O_RDWR :: u32 where "O_RDWR \<equiv> 2"
abbreviation (input) O_CREATE :: u32 where "O_CREATE \<equiv> 0x200"

subsection \<open>File descriptors\<close>

definition argfd :: "nat \<Rightarrow> 'a filest_scheme \<Rightarrow> 'a filest_scheme fault + (nat \<times> nat) option \<times> 'a filest_scheme" where
  "argfd n s =
     kbind (argint n s) (\<lambda>(r, s).
     case r of
       None \<Rightarrow> Inr (None, s)
     | Some v \<Rightarrow>
         let fd = sint v in
         if fd < 0 \<or> fd \<ge> NOFILE then Inr (None, s)
         else with_proc (\<lambda>i s.
           case ofile (ptable s ! i) ! nat fd of
             None \<Rightarrow> Inr (None, s)
           | Some f \<Rightarrow> Inr (Some (nat fd, f), s)) s)"

definition fdalloc :: "nat \<Rightarrow> 'a filest_scheme \<Rightarrow> 'a filest_scheme fault + nat option \<times> 'a filest_scheme" where
  "fdalloc f = with_proc (\<lambda>i s.
     case find_idx (\<lambda>o'. o' = None) (ofile (ptable s ! i)) of
       None \<Rightarrow> Inr (None, s)
     | Some fd \<Rightarrow> Inr (Some fd, upd_proc i (\<lambda>p. p\<lparr>ofile := (ofile p)[fd := Some f]\<rparr>) s))"

definition sys_dup :: "'a filest_scheme \<Rightarrow> 'a filest_scheme fault + int \<times> 'a filest_scheme" where
  "sys_dup s =
     kbind (argfd 0 s) (\<lambda>(a, s).
     case a of
       None \<Rightarrow> Inr (-1, s)
     | Some (_, f) \<Rightarrow>
         kbind (fdalloc f s) (\<lambda>(r, s).
         case r of
           None \<Rightarrow> Inr (-1, s)
         | Some fd \<Rightarrow> kbind (filedup f s) (\<lambda>(_, s). Inr (int fd, s))))"

text \<open>The three arguments of \<^verbatim>\<open>read\<close> and \<^verbatim>\<open>write\<close>.\<close>

definition rw_args :: "'a filest_scheme \<Rightarrow> 'a filest_scheme fault + (nat \<times> u32 \<times> int) option \<times> 'a filest_scheme" where
  "rw_args s =
     kbind (argfd 0 s) (\<lambda>(a, s).
     case a of
       None \<Rightarrow> Inr (None, s)
     | Some (_, f) \<Rightarrow>
         kbind (argint 2 s) (\<lambda>(r, s).
         case r of
           None \<Rightarrow> Inr (None, s)
         | Some n \<Rightarrow>
             kbind (argptr 1 (sint n) s) (\<lambda>(r, s).
             case r of
               None \<Rightarrow> Inr (None, s)
             | Some p \<Rightarrow> Inr (Some (f, p, sint n), s))))"

definition sys_read :: "'a filest_scheme devsw list \<Rightarrow> 'a filest_scheme \<Rightarrow> 'a filest_scheme fault + int \<times> 'a filest_scheme" where
  "sys_read dv s =
     kbind (rw_args s) (\<lambda>(a, s).
     case a of
       None \<Rightarrow> Inr (-1, s)
     | Some (f, p, n) \<Rightarrow>
         kbind (fileread dv f n s) (\<lambda>((r, xs), s).
         with_proc (\<lambda>i s. kbind (ustores i p xs s) (\<lambda>s. Inr (r, s))) s))"

definition sys_write :: "'a filest_scheme devsw list \<Rightarrow> 'a filest_scheme \<Rightarrow> 'a filest_scheme fault + int \<times> 'a filest_scheme" where
  "sys_write dv s =
     kbind (rw_args s) (\<lambda>(a, s).
     case a of
       None \<Rightarrow> Inr (-1, s)
     | Some (f, p, n) \<Rightarrow>
         with_proc (\<lambda>i s. kbind (uloads i p (nat n) s) (\<lambda>xs. filewrite dv f (at_list xs) n s)) s)"

definition sys_close :: "'a filest_scheme \<Rightarrow> 'a filest_scheme fault + int \<times> 'a filest_scheme" where
  "sys_close s =
     kbind (argfd 0 s) (\<lambda>(a, s).
     case a of
       None \<Rightarrow> Inr (-1, s)
     | Some (fd, f) \<Rightarrow>
         with_proc (\<lambda>i s.
         kbind (fileclose f (upd_proc i (\<lambda>p. p\<lparr>ofile := (ofile p)[fd := None]\<rparr>) s)) (\<lambda>s.
         Inr (0, s))) s)"

text \<open>The fields of a \<^verbatim>\<open>struct stat\<close> at address \<open>p\<close>.\<close>

definition store_stat :: "nat \<Rightarrow> u32 \<Rightarrow> stat \<Rightarrow> 'a filest_scheme \<Rightarrow> 'a filest_scheme fault + 'a filest_scheme" where
  "store_stat i p st s =
     kbind (ustores i (p + 4) (word_bytes (st_dev st)) s) (\<lambda>s.
     kbind (ustores i (p + 8) (word_bytes (st_ino st)) s) (\<lambda>s.
     kbind (ustores i p (half_bytes (st_type st)) s) (\<lambda>s.
     kbind (ustores i (p + 12) (half_bytes (st_nlink st)) s) (\<lambda>s.
     ustores i (p + 16) (word_bytes (st_size st)) s))))"

definition sys_fstat :: "'a filest_scheme \<Rightarrow> 'a filest_scheme fault + int \<times> 'a filest_scheme" where
  "sys_fstat s =
     kbind (argfd 0 s) (\<lambda>(a, s).
     case a of
       None \<Rightarrow> Inr (-1, s)
     | Some (_, f) \<Rightarrow>
         kbind (argptr 1 20 s) (\<lambda>(r, s).
         case r of
           None \<Rightarrow> Inr (-1, s)
         | Some p \<Rightarrow>
             kbind (filestat f s) (\<lambda>(st, s).
             case st of
               None \<Rightarrow> Inr (-1, s)
             | Some st \<Rightarrow> with_proc (\<lambda>i s. kbind (store_stat i p st s) (\<lambda>s. Inr (0, s))) s)))"

subsection \<open>Links\<close>

definition upd_nlink :: "(u16 \<Rightarrow> u16) \<Rightarrow> nat \<Rightarrow> 'a fsst_scheme \<Rightarrow> 'a fsst_scheme fault + 'a fsst_scheme" where
  "upd_nlink g k s = iupdate k (upd_inode k (\<lambda>ip. ip\<lparr>inlink := g (inlink ip)\<rparr>) s)"

text \<open>The exit \<^verbatim>\<open>bad\<close> of \<^verbatim>\<open>sys_link\<close>.\<close>

definition link_bad :: "nat \<Rightarrow> 'a filest_scheme \<Rightarrow> 'a filest_scheme fault + int \<times> 'a filest_scheme" where
  "link_bad ip s =
     kbind (ilock ip s) (\<lambda>s.
     kbind (upd_nlink (\<lambda>n. n - 1) ip s) (\<lambda>s.
     kbind (iunlockput ip s) (\<lambda>s.
     kbind (end_op s) (\<lambda>s. Inr (-1, s)))))"

text \<open>\<^verbatim>\<open>sys_link\<close> once its arguments are read.\<close>

definition link_paths :: "u8 list \<Rightarrow> u8 list \<Rightarrow> 'a filest_scheme \<Rightarrow> 'a filest_scheme fault + int \<times> 'a filest_scheme" where
  "link_paths old new s =
     kbind (begin_op s) (\<lambda>s.
     kbind (namei old s) (\<lambda>(r, s).
     case r of
       None \<Rightarrow> kbind (end_op s) (\<lambda>s. Inr (-1, s))
     | Some ip \<Rightarrow>
         kbind (ilock ip s) (\<lambda>s.
         if itype (inodes s ! ip) = T_DIR then
           kbind (iunlockput ip s) (\<lambda>s. kbind (end_op s) (\<lambda>s. Inr (-1, s)))
         else
           kbind (upd_nlink (\<lambda>n. n + 1) ip s) (\<lambda>s.
           kbind (iunlock ip s) (\<lambda>s.
           kbind (nameiparent new s) (\<lambda>((r, name), s).
           case r of
             None \<Rightarrow> link_bad ip s
           | Some dp \<Rightarrow>
               kbind (ilock dp s) (\<lambda>s.
               kbind (if idev (inodes s ! dp) \<noteq> idev (inodes s ! ip) then Inr (-1, s)
                      else dirlink dp name (inum (inodes s ! ip)) s) (\<lambda>(r, s).
               if r < 0 then kbind (iunlockput dp s) (link_bad ip)
               else
                 kbind (iunlockput dp s) (\<lambda>s.
                 kbind (iput ip s) (\<lambda>s.
                 kbind (end_op s) (\<lambda>s. Inr (0, s))))))))))))"

definition sys_link :: "'a filest_scheme \<Rightarrow> 'a filest_scheme fault + int \<times> 'a filest_scheme" where
  "sys_link s =
     kbind (argstr 0 s) (\<lambda>(old, s).
     case old of
       None \<Rightarrow> Inr (-1, s)
     | Some old \<Rightarrow>
         kbind (argstr 1 s) (\<lambda>(new, s).
         case new of None \<Rightarrow> Inr (-1, s) | Some new \<Rightarrow> link_paths old new s))"

primrec isdirempty_loop :: "nat \<Rightarrow> nat list \<Rightarrow> 'a fsst_scheme \<Rightarrow> 'a fsst_scheme fault + bool \<times> 'a fsst_scheme" where
  "isdirempty_loop dp [] s = Inr (True, s)"
| "isdirempty_loop dp (off # offs) s =
     kbind (readi_file dp (of_nat off) 16 s) (\<lambda>((r, de), s).
     if r \<noteq> 16 then Inl (Panic ''isdirempty: readi'')
     else if de_inum de \<noteq> 0 then Inr (False, s)
     else isdirempty_loop dp offs s)"

definition isdirempty :: "nat \<Rightarrow> 'a fsst_scheme \<Rightarrow> 'a fsst_scheme fault + bool \<times> 'a fsst_scheme" where
  "isdirempty dp s = isdirempty_loop dp (drop 2 (de_offs dp s)) s"

text \<open>The exit \<^verbatim>\<open>bad\<close> of \<^verbatim>\<open>sys_unlink\<close>.\<close>

definition unlink_bad :: "nat \<Rightarrow> 'a filest_scheme \<Rightarrow> 'a filest_scheme fault + int \<times> 'a filest_scheme" where
  "unlink_bad dp s =
     kbind (iunlockput dp s) (\<lambda>s.
     kbind (end_op s) (\<lambda>s. Inr (-1, s)))"

text \<open>\<^verbatim>\<open>sys_unlink\<close> from the point where the entry is found, at offset \<open>off\<close> of the directory.\<close>

definition unlink_entry :: "nat \<Rightarrow> nat \<Rightarrow> u32 \<Rightarrow> 'a filest_scheme \<Rightarrow> 'a filest_scheme fault + int \<times> 'a filest_scheme" where
  "unlink_entry dp ip off s =
     kbind (ilock ip s) (\<lambda>s.
     if sint (inlink (inodes s ! ip)) < 1 then Inl (Panic ''unlink: nlink < 1'')
     else
       kbind (if itype (inodes s ! ip) = T_DIR then isdirempty ip s else Inr (True, s)) (\<lambda>(e, s).
       if \<not> e then kbind (iunlockput ip s) (unlink_bad dp)
       else
         kbind (writei_file dp (\<lambda>_. 0) off 16 s) (\<lambda>(r, s).
         if r \<noteq> 16 then Inl (Panic ''unlink: writei'')
         else
           kbind (if itype (inodes s ! ip) = T_DIR then upd_nlink (\<lambda>n. n - 1) dp s else Inr s) (\<lambda>s.
           kbind (iunlockput dp s) (\<lambda>s.
           kbind (upd_nlink (\<lambda>n. n - 1) ip s) (\<lambda>s.
           kbind (iunlockput ip s) (\<lambda>s.
           kbind (end_op s) (\<lambda>s. Inr (0, s)))))))))"

definition unlink_path :: "u8 list \<Rightarrow> 'a filest_scheme \<Rightarrow> 'a filest_scheme fault + int \<times> 'a filest_scheme" where
  "unlink_path path s =
     kbind (begin_op s) (\<lambda>s.
     kbind (nameiparent path s) (\<lambda>((r, name), s).
     case r of
       None \<Rightarrow> kbind (end_op s) (\<lambda>s. Inr (-1, s))
     | Some dp \<Rightarrow>
         kbind (ilock dp s) (\<lambda>s.
         if namecmp name [46] = 0 \<or> namecmp name [46, 46] = 0 then unlink_bad dp s
         else
           kbind (dirlookup dp name s) (\<lambda>(r, s).
           case r of
             None \<Rightarrow> unlink_bad dp s
           | Some (ip, off) \<Rightarrow> unlink_entry dp ip off s))))"

definition sys_unlink :: "'a filest_scheme \<Rightarrow> 'a filest_scheme fault + int \<times> 'a filest_scheme" where
  "sys_unlink s =
     kbind (argstr 0 s) (\<lambda>(path, s).
     case path of None \<Rightarrow> Inr (-1, s) | Some path \<Rightarrow> unlink_path path s)"

subsection \<open>Creating and opening\<close>

text \<open>\<^verbatim>\<open>create\<close> when the name is new. \<^verbatim>\<open>ialloc\<close> does not return a null pointer.\<close>

definition create_new :: "nat \<Rightarrow> u8 list \<Rightarrow> u16 \<Rightarrow> u16 \<Rightarrow> u16 \<Rightarrow> 'a fsst_scheme \<Rightarrow> 'a fsst_scheme fault + nat option \<times> 'a fsst_scheme" where
  "create_new dp name ty major minor s =
     kbind (ialloc (idev (inodes s ! dp)) ty s) (\<lambda>(ip, s).
     kbind (ilock ip s) (\<lambda>s.
     kbind (iupdate ip (upd_inode ip (\<lambda>x. x\<lparr>imajor := major, iminor := minor, inlink := 1\<rparr>) s)) (\<lambda>s.
     kbind (if ty = T_DIR then
        kbind (upd_nlink (\<lambda>n. n + 1) dp s) (\<lambda>s.
        kbind (dirlink ip [46] (inum (inodes s ! ip)) s) (\<lambda>(r, s).
        if r < 0 then Inl (Panic ''create dots'')
        else
          kbind (dirlink ip [46, 46] (inum (inodes s ! dp)) s) (\<lambda>(r, s).
          if r < 0 then Inl (Panic ''create dots'') else Inr s)))
      else Inr s) (\<lambda>s.
     kbind (dirlink dp name (inum (inodes s ! ip)) s) (\<lambda>(r, s).
     if r < 0 then Inl (Panic ''create: dirlink'')
     else kbind (iunlockput dp s) (\<lambda>s. Inr (Some ip, s)))))))"

definition create :: "u8 list \<Rightarrow> u16 \<Rightarrow> u16 \<Rightarrow> u16 \<Rightarrow> 'a fsst_scheme \<Rightarrow> 'a fsst_scheme fault + nat option \<times> 'a fsst_scheme" where
  "create path ty major minor s =
     kbind (nameiparent path s) (\<lambda>((r, name), s).
     case r of
       None \<Rightarrow> Inr (None, s)
     | Some dp \<Rightarrow>
         kbind (ilock dp s) (\<lambda>s.
         kbind (dirlookup dp name s) (\<lambda>(r, s).
         case r of
           Some (ip, _) \<Rightarrow>
             kbind (iunlockput dp s) (\<lambda>s.
             kbind (ilock ip s) (\<lambda>s.
             if ty = T_FILE \<and> itype (inodes s ! ip) = T_FILE then Inr (Some ip, s)
             else kbind (iunlockput ip s) (\<lambda>s. Inr (None, s))))
         | None \<Rightarrow> create_new dp name ty major minor s)))"

text \<open>The first half of \<^verbatim>\<open>sys_open\<close>: the locked inode, or the failure.\<close>

definition open_inode :: "u8 list \<Rightarrow> u32 \<Rightarrow> 'a filest_scheme \<Rightarrow> 'a filest_scheme fault + nat option \<times> 'a filest_scheme" where
  "open_inode path omode s =
     (if omode AND O_CREATE \<noteq> 0 then
        kbind (create path T_FILE 0 0 s) (\<lambda>(r, s).
        case r of
          None \<Rightarrow> kbind (end_op s) (\<lambda>s. Inr (None, s))
        | Some ip \<Rightarrow> Inr (Some ip, s))
      else
        kbind (namei path s) (\<lambda>(r, s).
        case r of
          None \<Rightarrow> kbind (end_op s) (\<lambda>s. Inr (None, s))
        | Some ip \<Rightarrow>
            kbind (ilock ip s) (\<lambda>s.
            if itype (inodes s ! ip) = T_DIR \<and> omode \<noteq> O_RDONLY then
              kbind (iunlockput ip s) (\<lambda>s. kbind (end_op s) (\<lambda>s. Inr (None, s)))
            else Inr (Some ip, s))))"

definition open_path :: "u8 list \<Rightarrow> u32 \<Rightarrow> 'a filest_scheme \<Rightarrow> 'a filest_scheme fault + int \<times> 'a filest_scheme" where
  "open_path path omode s =
     kbind (begin_op s) (\<lambda>s.
     kbind (open_inode path omode s) (\<lambda>(r, s).
     case r of
       None \<Rightarrow> Inr (-1, s)
     | Some ip \<Rightarrow>
         kbind (filealloc s) (\<lambda>(f, s).
         case f of
           None \<Rightarrow> kbind (iunlockput ip s) (\<lambda>s. kbind (end_op s) (\<lambda>s. Inr (-1, s)))
         | Some f \<Rightarrow>
             kbind (fdalloc f s) (\<lambda>(fd, s).
             case fd of
               None \<Rightarrow>
                 kbind (fileclose f s) (\<lambda>s.
                 kbind (iunlockput ip s) (\<lambda>s.
                 kbind (end_op s) (\<lambda>s. Inr (-1, s))))
             | Some fd \<Rightarrow>
                 kbind (iunlock ip s) (\<lambda>s.
                 kbind (end_op s) (\<lambda>s.
                 Inr (int fd, upd_file f (\<lambda>x. x\<lparr>ftype := FD_INODE, fip := ip, foff := 0,
                   readable := (omode AND O_WRONLY = 0),
                   writable := (omode AND O_WRONLY \<noteq> 0 \<or> omode AND O_RDWR \<noteq> 0)\<rparr>) s)))))))"

definition sys_open :: "'a filest_scheme \<Rightarrow> 'a filest_scheme fault + int \<times> 'a filest_scheme" where
  "sys_open s =
     kbind (argstr 0 s) (\<lambda>(path, s).
     case path of
       None \<Rightarrow> Inr (-1, s)
     | Some path \<Rightarrow>
         kbind (argint 1 s) (\<lambda>(m, s).
         case m of None \<Rightarrow> Inr (-1, s) | Some omode \<Rightarrow> open_path path omode s))"

definition sys_mkdir :: "'a filest_scheme \<Rightarrow> 'a filest_scheme fault + int \<times> 'a filest_scheme" where
  "sys_mkdir s =
     kbind (begin_op s) (\<lambda>s.
     kbind (argstr 0 s) (\<lambda>(path, s).
     kbind (case path of None \<Rightarrow> Inr (None, s) | Some path \<Rightarrow> create path T_DIR 0 0 s) (\<lambda>(r, s).
     case r of
       None \<Rightarrow> kbind (end_op s) (\<lambda>s. Inr (-1, s))
     | Some ip \<Rightarrow>
         kbind (iunlockput ip s) (\<lambda>s.
         kbind (end_op s) (\<lambda>s. Inr (0, s))))))"

text \<open>The arguments of \<^verbatim>\<open>mknod\<close>, in the order in which the code reads them.\<close>

definition mknod_args :: "'a ptab_scheme \<Rightarrow> 'a ptab_scheme fault + (u8 list \<times> u32 \<times> u32) option \<times> 'a ptab_scheme" where
  "mknod_args s =
     kbind (argstr 0 s) (\<lambda>(path, s).
     case path of
       None \<Rightarrow> Inr (None, s)
     | Some path \<Rightarrow>
         kbind (argint 1 s) (\<lambda>(major, s).
         case major of
           None \<Rightarrow> Inr (None, s)
         | Some major \<Rightarrow>
             kbind (argint 2 s) (\<lambda>(minor, s).
             case minor of None \<Rightarrow> Inr (None, s) | Some minor \<Rightarrow> Inr (Some (path, major, minor), s))))"

definition sys_mknod :: "'a filest_scheme \<Rightarrow> 'a filest_scheme fault + int \<times> 'a filest_scheme" where
  "sys_mknod s =
     kbind (begin_op s) (\<lambda>s.
     kbind (mknod_args s) (\<lambda>(a, s).
     kbind (case a of
              None \<Rightarrow> Inr (None, s)
            | Some (path, major, minor) \<Rightarrow> create path T_DEV (ucast major) (ucast minor) s) (\<lambda>(r, s).
     case r of
       None \<Rightarrow> kbind (end_op s) (\<lambda>s. Inr (-1, s))
     | Some ip \<Rightarrow>
         kbind (iunlockput ip s) (\<lambda>s.
         kbind (end_op s) (\<lambda>s. Inr (0, s))))))"

definition sys_chdir :: "'a filest_scheme \<Rightarrow> 'a filest_scheme fault + int \<times> 'a filest_scheme" where
  "sys_chdir = with_proc (\<lambda>i s.
     kbind (begin_op s) (\<lambda>s.
     kbind (argstr 0 s) (\<lambda>(path, s).
     kbind (case path of None \<Rightarrow> Inr (None, s) | Some path \<Rightarrow> namei path s) (\<lambda>(r, s).
     case r of
       None \<Rightarrow> kbind (end_op s) (\<lambda>s. Inr (-1, s))
     | Some ip \<Rightarrow>
         kbind (ilock ip s) (\<lambda>s.
         if itype (inodes s ! ip) \<noteq> T_DIR then
           kbind (iunlockput ip s) (\<lambda>s.
           kbind (end_op s) (\<lambda>s. Inr (-1, s)))
         else
           kbind (iunlock ip s) (\<lambda>s.
           kbind (deref (cwd (ptable s ! i)) (\<lambda>k. iput k s)) (\<lambda>s.
           kbind (end_op s) (\<lambda>s.
           Inr (0, upd_proc i (\<lambda>p. p\<lparr>cwd := Some ip\<rparr>) s)))))))))"

definition sys_pipe :: "'a filest_scheme \<Rightarrow> 'a filest_scheme fault + int \<times> 'a filest_scheme" where
  "sys_pipe s =
     kbind (argptr 0 8 s) (\<lambda>(a, s).
     case a of
       None \<Rightarrow> Inr (-1, s)
     | Some p \<Rightarrow>
         kbind (pipealloc s) (\<lambda>(fs, s).
         case fs of
           None \<Rightarrow> Inr (-1, s)
         | Some (rfile, wfile) \<Rightarrow>
             kbind (fdalloc rfile s) (\<lambda>(fd0, s).
             kbind (case fd0 of None \<Rightarrow> Inr (None, s) | Some _ \<Rightarrow> fdalloc wfile s) (\<lambda>(fd1, s).
             case (fd0, fd1) of
               (Some fd0, Some fd1) \<Rightarrow>
                 with_proc (\<lambda>i s.
                 kbind (ustores i p (word_bytes (of_nat fd0)) s) (\<lambda>s.
                 kbind (ustores i (p + 4) (word_bytes (of_nat fd1)) s) (\<lambda>s. Inr (0, s)))) s
             | _ \<Rightarrow>
                 kbind (case fd0 of
                          None \<Rightarrow> Inr s
                        | Some fd0 \<Rightarrow> with_proc (\<lambda>i s. Inr (upd_proc i (\<lambda>p. p\<lparr>ofile := (ofile p)[fd0 := None]\<rparr>) s)) s) (\<lambda>s.
                 kbind (fileclose rfile s) (\<lambda>s.
                 kbind (fileclose wfile s) (\<lambda>s. Inr (-1, s))))))))"

end
