(* ===== verification/Exec.thy ===== *)
theory Exec
  imports Sysfile
begin

section \<open>Executing a program\<close>

text \<open>
  \<^verbatim>\<open>src/exec.c\<close>, \<^verbatim>\<open>loaduvm\<close> of \<^verbatim>\<open>src/vm.c\<close> and \<^verbatim>\<open>sys_exec\<close> of \<^verbatim>\<open>src/sysfile.c\<close>. The ELF headers are read from the bytes of the file;
  the sizes and addresses in them keep their 32 bits, with the wrap-around that the code tests for.
\<close>

abbreviation (input) ELF_MAGIC :: u32 where "ELF_MAGIC \<equiv> 0x464C457F"
abbreviation (input) ELF_PROG_LOAD :: u32 where "ELF_PROG_LOAD \<equiv> 1"

record elfhdr =
  e_magic :: u32
  e_entry :: u32
  e_phoff :: u32
  e_phnum :: u16

record proghdr =
  ph_type :: u32
  ph_off :: u32
  ph_vaddr :: u32
  ph_filesz :: u32
  ph_memsz :: u32

definition get_elfhdr :: "u8 list \<Rightarrow> elfhdr" where
  "get_elfhdr d = \<lparr>e_magic = get32 d 0, e_entry = get32 d 24, e_phoff = get32 d 28, e_phnum = get16 d 44\<rparr>"

definition get_proghdr :: "u8 list \<Rightarrow> proghdr" where
  "get_proghdr d = \<lparr>ph_type = get32 d 0, ph_off = get32 d 4, ph_vaddr = get32 d 8, ph_filesz = get32 d 16, ph_memsz = get32 d 20\<rparr>"

subsection \<open>Loading\<close>

text \<open>The loop of \<^verbatim>\<open>loaduvm\<close> with \<open>n\<close> pages to go. The result is \<open>0\<close> or \<open>-1\<close>.\<close>

primrec loaduvm_loop ::
  "'a fsst_scheme devsw list \<Rightarrow> u32 \<Rightarrow> u32 \<Rightarrow> nat \<Rightarrow> u32 \<Rightarrow> u32 \<Rightarrow> u32 \<Rightarrow> nat \<Rightarrow> 'a fsst_scheme \<Rightarrow> 'a fsst_scheme fault + int \<times> 'a fsst_scheme" where
  "loaduvm_loop dv pd addr ip offset filesz i 0 s = Inr (0, s)"
| "loaduvm_loop dv pd addr ip offset filesz i (Suc n) s =
     kbind (walkpgdir pd (addr + i) False s) (\<lambda>(pte, s).
     if pte = 0 then Inl (Panic ''loaduvm: address should exist'')
     else
       let pa = PTE_ADDR (load32 (mem s) pte);
           m = (if filesz - i < PGSIZE then filesz - i else PGSIZE) in
       kbind (readi dv ip (offset + i) m s) (\<lambda>((r, xs), s).
       let s = s\<lparr>mem := store_bytes (P2V pa) xs (mem s)\<rparr> in
       if of_int r \<noteq> m then Inr (-1, s)
       else loaduvm_loop dv pd addr ip offset filesz (i + PGSIZE) n s))"

definition loaduvm ::
  "'a fsst_scheme devsw list \<Rightarrow> u32 \<Rightarrow> u32 \<Rightarrow> nat \<Rightarrow> u32 \<Rightarrow> u32 \<Rightarrow> 'a fsst_scheme \<Rightarrow> 'a fsst_scheme fault + int \<times> 'a fsst_scheme" where
  "loaduvm dv pd addr ip offset filesz s =
     (if addr mod PGSIZE \<noteq> 0 then Inl (Panic ''loaduvm: addr must be page aligned'')
      else loaduvm_loop dv pd addr ip offset filesz 0 ((unat filesz + 4095) div 4096) s)"

text \<open>The body of the loop of \<^verbatim>\<open>exec\<close> for a program header: the new size, or \<open>None\<close> for \<^verbatim>\<open>goto bad\<close>.\<close>

definition load_segment ::
  "'a fsst_scheme devsw list \<Rightarrow> u32 \<Rightarrow> nat \<Rightarrow> proghdr \<Rightarrow> u32 \<Rightarrow> 'a fsst_scheme \<Rightarrow> 'a fsst_scheme fault + u32 option \<times> 'a fsst_scheme" where
  "load_segment dv pd ip ph sz0 s =
     (if ph_type ph \<noteq> ELF_PROG_LOAD then Inr (Some sz0, s)
      else if ph_memsz ph < ph_filesz ph then Inr (None, s)
      else if ph_vaddr ph + ph_memsz ph < ph_vaddr ph then Inr (None, s)
      else
        kbind (allocuvm pd sz0 (ph_vaddr ph + ph_memsz ph) s) (\<lambda>(sz1, s).
        if sz1 = 0 then Inr (None, s)
        else if ph_vaddr ph mod PGSIZE \<noteq> 0 then Inr (None, s)
        else
          kbind (loaduvm dv pd (ph_vaddr ph) ip (ph_off ph) (ph_filesz ph) s) (\<lambda>(r, s).
          if r < 0 then Inr (None, s) else Inr (Some sz1, s))))"

text \<open>The loop of \<^verbatim>\<open>exec\<close> over the program headers, \<open>n\<close> of them left, the next at offset \<open>off\<close>.\<close>

primrec load_segments ::
  "'a fsst_scheme devsw list \<Rightarrow> u32 \<Rightarrow> nat \<Rightarrow> nat \<Rightarrow> u32 \<Rightarrow> u32 \<Rightarrow> 'a fsst_scheme \<Rightarrow> 'a fsst_scheme fault + u32 option \<times> 'a fsst_scheme" where
  "load_segments dv pd ip 0 off sz0 s = Inr (Some sz0, s)"
| "load_segments dv pd ip (Suc n) off sz0 s =
     kbind (readi dv ip off 32 s) (\<lambda>((r, xs), s).
     if r \<noteq> 32 then Inr (None, s)
     else
       kbind (load_segment dv pd ip (get_proghdr xs) sz0 s) (\<lambda>(r, s).
       case r of None \<Rightarrow> Inr (None, s) | Some sz1 \<Rightarrow> load_segments dv pd ip n (off + 32) sz1 s))"

subsection \<open>The user stack\<close>

text \<open>The loop that pushes the argument strings, \<open>argc\<close> of them pushed: the stack pointer and the addresses of the strings.\<close>

primrec push_args ::
  "u32 \<Rightarrow> u8 list list \<Rightarrow> nat \<Rightarrow> u32 \<Rightarrow> 'a kmem_scheme \<Rightarrow> 'a kmem_scheme fault + (u32 \<times> u32 list) option \<times> 'a kmem_scheme" where
  "push_args pd [] argc sp s = Inr (Some (sp, []), s)"
| "push_args pd (a # as) argc sp s =
     (if argc \<ge> MAXARG then Inr (None, s)
      else
        let sp = (sp - (of_nat (length a) + 1)) AND NOT 3 in
        kbind (copyout pd sp (at_list a) (of_nat (length a) + 1) s) (\<lambda>(r, s).
        if r < 0 then Inr (None, s)
        else
          kbind (push_args pd as (Suc argc) sp s) (\<lambda>(q, s).
          Inr (map_option (\<lambda>(sp', ps). (sp', sp # ps)) q, s))))"

text \<open>\<^verbatim>\<open>ustack\<close>: the fake return address, \<^verbatim>\<open>argc\<close>, the address of \<^verbatim>\<open>argv\<close> and the addresses of the strings with a zero.\<close>

definition ustack :: "u32 \<Rightarrow> u32 list \<Rightarrow> u32 list" where
  "ustack sp ps = [0xFFFFFFFF, of_nat (length ps), sp - (of_nat (length ps) + 1) * 4] @ ps @ [0]"

definition push_stack ::
  "u32 \<Rightarrow> u8 list list \<Rightarrow> u32 \<Rightarrow> 'a kmem_scheme \<Rightarrow> 'a kmem_scheme fault + u32 option \<times> 'a kmem_scheme" where
  "push_stack pd argv sz1 s =
     kbind (push_args pd argv 0 sz1 s) (\<lambda>(q, s).
     case q of
       None \<Rightarrow> Inr (None, s)
     | Some (sp, ps) \<Rightarrow>
         let w = ustack sp ps;
             sp = sp - of_nat (4 * length w) in
         kbind (copyout pd sp (at_list (concat (map word_bytes w))) (of_nat (4 * length w)) s) (\<lambda>(r, s).
         if r < 0 then Inr (None, s) else Inr (Some sp, s)))"

text \<open>The part of the path after its last slash, and the effect of \<^verbatim>\<open>safestrcpy\<close> of it to the 16 bytes of the name.\<close>

definition path_last :: "u8 list \<Rightarrow> u8 list" where
  "path_last path = rev (takeWhile (\<lambda>x. x \<noteq> SLASH) (rev path))"

definition set_name :: "u8 list \<Rightarrow> u8 list \<Rightarrow> u8 list" where
  "set_name old new = (let t = take 15 (new @ [0]) @ [0] in t @ drop (length t) old)"

subsection \<open>exec\<close>

text \<open>The two uses of the exit \<^verbatim>\<open>bad\<close>, with and without the inode.\<close>

definition exec_bad1 :: "u32 \<Rightarrow> nat \<Rightarrow> 'a filest_scheme \<Rightarrow> 'a filest_scheme fault + int \<times> 'a filest_scheme" where
  "exec_bad1 pd ip s =
     kbind (if pd \<noteq> 0 then freevm pd s else Inr s) (\<lambda>s.
     kbind (iunlockput ip s) (\<lambda>s.
     kbind (end_op s) (\<lambda>s. Inr (-1, s))))"

definition exec_bad2 :: "u32 \<Rightarrow> 'a filest_scheme \<Rightarrow> 'a filest_scheme fault + int \<times> 'a filest_scheme" where
  "exec_bad2 pd s = kbind (freevm pd s) (\<lambda>s. Inr (-1, s))"

text \<open>\<^verbatim>\<open>exec\<close> from the point where the program is loaded.\<close>

definition exec_commit ::
  "nat \<Rightarrow> u8 list \<Rightarrow> u8 list list \<Rightarrow> u32 \<Rightarrow> u32 \<Rightarrow> u32 \<Rightarrow> 'a filest_scheme \<Rightarrow> 'a filest_scheme fault + int \<times> 'a filest_scheme" where
  "exec_commit i path argv pd entry sz0 s =
     (let sz1 = PGROUNDUP sz0 in
      kbind (allocuvm pd sz1 (sz1 + 2 * PGSIZE) s) (\<lambda>(sz2, s).
      if sz2 = 0 then exec_bad2 pd s
      else
        kbind (clearpteu pd (sz2 - 2 * PGSIZE) s) (\<lambda>s.
        kbind (push_stack pd argv sz2 s) (\<lambda>(q, s).
        case q of
          None \<Rightarrow> exec_bad2 pd s
        | Some sp \<Rightarrow>
            let s = upd_proc i (\<lambda>p. p\<lparr>pname := set_name (pname p) (path_last path)\<rparr>) s;
                oldpgdir = pgdir (ptable s ! i);
                s = upd_proc i (\<lambda>p. p\<lparr>pgdir := pd, sz := sz2\<rparr>) s;
                s = s\<lparr>mem := store32 (tf (ptable s ! i) + TF_EIP) entry (mem s)\<rparr>;
                s = s\<lparr>mem := store32 (tf (ptable s ! i) + TF_ESP) sp (mem s)\<rparr> in
            kbind (switchuvm (Some i) s) (\<lambda>s.
            kbind (freevm oldpgdir s) (\<lambda>s. Inr (0, s)))))))"

definition exec ::
  "'a filest_scheme devsw list \<Rightarrow> u8 list \<Rightarrow> u8 list list \<Rightarrow> 'a filest_scheme \<Rightarrow> 'a filest_scheme fault + int \<times> 'a filest_scheme" where
  "exec dv path argv = with_proc (\<lambda>i s.
     kbind (begin_op s) (\<lambda>s.
     kbind (namei path s) (\<lambda>(r, s).
     case r of
       None \<Rightarrow> kbind (end_op s) (\<lambda>s. Inr (-1, s))
     | Some ip \<Rightarrow>
         kbind (ilock ip s) (\<lambda>s.
         kbind (readi dv ip 0 52 s) (\<lambda>((r, xs), s).
         if r \<noteq> 52 then exec_bad1 0 ip s
         else
           let elf = get_elfhdr xs in
           if e_magic elf \<noteq> ELF_MAGIC then exec_bad1 0 ip s
           else
             kbind (setupkvm s) (\<lambda>(pd, s).
             if pd = 0 then exec_bad1 0 ip s
             else
               kbind (load_segments dv pd ip (unat (e_phnum elf)) (e_phoff elf) 0 s) (\<lambda>(r, s).
               case r of
                 None \<Rightarrow> exec_bad1 pd ip s
               | Some sz0 \<Rightarrow>
                   kbind (iunlockput ip s) (\<lambda>s.
                   kbind (end_op s) (\<lambda>s.
                   exec_commit i path argv pd (e_entry elf) sz0 s)))))))))"

text \<open>The loop of \<^verbatim>\<open>sys_exec\<close> that fetches the arguments from index \<open>i\<close> on, with room for \<open>n\<close> more entries of \<^verbatim>\<open>argv\<close>.\<close>

primrec fetch_argv :: "nat \<Rightarrow> u32 \<Rightarrow> 'a ptab_scheme \<Rightarrow> 'a ptab_scheme fault + u8 list list option \<times> 'a ptab_scheme" where
  "fetch_argv 0 a s = Inr (None, s)"
| "fetch_argv (Suc n) a s =
     kbind (fetchint a s) (\<lambda>(r, s).
     case r of
       None \<Rightarrow> Inr (None, s)
     | Some uarg \<Rightarrow>
         if uarg = 0 then Inr (Some [], s)
         else
           kbind (fetchstr uarg s) (\<lambda>(x, s).
           case x of
             None \<Rightarrow> Inr (None, s)
           | Some x \<Rightarrow> kbind (fetch_argv n (a + 4) s) (\<lambda>(xs, s). Inr (map_option (Cons x) xs, s))))"

definition sys_exec :: "'a filest_scheme devsw list \<Rightarrow> 'a filest_scheme \<Rightarrow> 'a filest_scheme fault + int \<times> 'a filest_scheme" where
  "sys_exec dv s =
     kbind (argstr 0 s) (\<lambda>(path, s).
     case path of
       None \<Rightarrow> Inr (-1, s)
     | Some path \<Rightarrow>
         kbind (argint 1 s) (\<lambda>(r, s).
         case r of
           None \<Rightarrow> Inr (-1, s)
         | Some uargv \<Rightarrow>
             kbind (fetch_argv MAXARG uargv s) (\<lambda>(argv, s).
             case argv of
               None \<Rightarrow> Inr (-1, s)
             | Some argv \<Rightarrow> exec dv path argv s)))"

end
