(* ===== verification/Process.thy ===== *)
theory Process
  imports Exec
begin

section \<open>Processes and system calls\<close>

text \<open>
  What \<^verbatim>\<open>src/proc.c\<close> does with files and inodes (\<^verbatim>\<open>userinit\<close>, \<^verbatim>\<open>fork\<close>, \<^verbatim>\<open>exit\<close>, \<^verbatim>\<open>forkret\<close>), \<^verbatim>\<open>src/sysproc.c\<close>, the dispatch of system
  calls in \<^verbatim>\<open>src/syscall.c\<close> and \<^verbatim>\<open>trap\<close> in \<^verbatim>\<open>src/trap.c\<close>. A call that has to wait ends in \<open>Swtch\<close>. The messages that
  the code prints are left out.
\<close>

text \<open>\<open>forkret_first\<close> is the static variable \<^verbatim>\<open>first\<close> of \<^verbatim>\<open>forkret\<close>.\<close>

record kst = filest +
  forkret_first :: bool

definition store16 :: "u32 \<Rightarrow> u16 \<Rightarrow> mem \<Rightarrow> mem" where
  "store16 a v m = store_bytes a (half_bytes v) m"

definition load16 :: "mem \<Rightarrow> u32 \<Rightarrow> u16" where
  "load16 m a = get16 [m a, m (a + 1)] 0"

subsection \<open>Creating processes\<close>

text \<open>The trap frame of the first process: lines 157 to 164.\<close>

definition init_tf :: "u32 \<Rightarrow> mem \<Rightarrow> mem" where
  "init_tf t m =
     (let m = memset t 0 SIZEOF_TRAPFRAME m;
          m = store16 (t + TF_CS) 27 m;
          m = store16 (t + TF_DS) 35 m;
          m = store16 (t + TF_ES) 35 m;
          m = store16 (t + TF_SS) 35 m;
          m = store32 (t + TF_EFLAGS) 0x200 m;
          m = store32 (t + TF_ESP) PGSIZE m in
      store32 (t + TF_EIP) 0 m)"

text \<open>\<open>init\<close> and \<open>initsz\<close> are the linker symbols \<^verbatim>\<open>_binary_initcode_start\<close> and \<^verbatim>\<open>_binary_initcode_size\<close>.\<close>

definition userinit :: "u32 \<Rightarrow> u32 \<Rightarrow> 'a kst_scheme \<Rightarrow> 'a kst_scheme fault + 'a kst_scheme" where
  "userinit init initsz s =
     kbind (allocproc s) (\<lambda>(p, s).
     deref p (\<lambda>i.
     kbind (userinit_image init initsz i s) (\<lambda>s.
     let s = s\<lparr>mem := init_tf (tf (ptable s ! i)) (mem s)\<rparr>;
         s = upd_proc i (\<lambda>p. p\<lparr>pname := set_name (pname p) (map (\<lambda>c. of_nat (of_char c)) ''initcode'')\<rparr>) s in
     kbind (namei [SLASH] s) (\<lambda>(d, s).
     let s = upd_proc i (\<lambda>p. p\<lparr>cwd := d\<rparr>) s in
     publish i s))))"

definition forkret :: "'a kst_scheme \<Rightarrow> 'a kst_scheme fault + 'a kst_scheme" where
  "forkret s =
     kbind (release PtableLock s) (\<lambda>s.
     if forkret_first s then
       kbind (iinit ROOTDEV (s\<lparr>forkret_first := False\<rparr>)) (\<lambda>s. initlog ROOTDEV s)
     else Inr s)"

text \<open>The loop of \<^verbatim>\<open>fork\<close> over the file descriptors \<open>fds\<close>, for the parent \<open>i\<close> and the child \<open>j\<close>.\<close>

primrec fork_files :: "nat \<Rightarrow> nat \<Rightarrow> nat list \<Rightarrow> 'a filest_scheme \<Rightarrow> 'a filest_scheme fault + 'a filest_scheme" where
  "fork_files i j [] s = Inr s"
| "fork_files i j (fd # fds) s =
     (case ofile (ptable s ! i) ! fd of
        None \<Rightarrow> fork_files i j fds s
      | Some f \<Rightarrow>
          kbind (filedup f s) (\<lambda>(f, s).
          fork_files i j fds (upd_proc j (\<lambda>p. p\<lparr>ofile := (ofile p)[fd := Some f]\<rparr>) s)))"

definition fork :: "'a filest_scheme \<Rightarrow> 'a filest_scheme fault + int \<times> 'a filest_scheme" where
  "fork = with_proc (\<lambda>i s.
     kbind (allocproc s) (\<lambda>(np, s).
     case np of
       None \<Rightarrow> Inr (-1, s)
     | Some j \<Rightarrow>
         kbind (fork_image i j s) (\<lambda>(ok, s).
         if \<not> ok then Inr (-1, s)
         else
           let t = tf (ptable s ! j);
               s = s\<lparr>mem := memmove t (tf (ptable s ! i)) SIZEOF_TRAPFRAME (mem s)\<rparr>;
               s = s\<lparr>mem := store32 (t + TF_EAX) 0 (mem s)\<rparr> in
           kbind (fork_files i j [0..<nat NOFILE] s) (\<lambda>s.
           kbind (deref (cwd (ptable s ! i)) (\<lambda>k. idup k s)) (\<lambda>(k, s).
           let s = upd_proc j (\<lambda>p. p\<lparr>cwd := Some k\<rparr>) s;
               s = upd_proc j (\<lambda>p. p\<lparr>pname := set_name (pname p) (takeWhile (\<lambda>x. x \<noteq> 0) (pname (ptable s ! i)))\<rparr>) s;
               child = pid (ptable s ! j) in
           kbind (publish j s) (\<lambda>s. Inr (child, s)))))))"

subsection \<open>Exit\<close>

primrec exit_files :: "nat \<Rightarrow> nat list \<Rightarrow> 'a filest_scheme \<Rightarrow> 'a filest_scheme fault + 'a filest_scheme" where
  "exit_files i [] s = Inr s"
| "exit_files i (fd # fds) s =
     (case ofile (ptable s ! i) ! fd of
        None \<Rightarrow> exit_files i fds s
      | Some f \<Rightarrow>
          kbind (fileclose f s) (\<lambda>s.
          exit_files i fds (upd_proc i (\<lambda>p. p\<lparr>ofile := (ofile p)[fd := None]\<rparr>) s)))"

definition exit :: "'a filest_scheme \<Rightarrow> 'a filest_scheme fault + 'b" where
  "exit s =
     kbind (myproc s) (\<lambda>(me, s).
     if me = initproc s then Inl (Panic ''init exiting'')
     else
       deref me (\<lambda>i.
       kbind (exit_files i [0..<nat NOFILE] s) (\<lambda>s.
       kbind (begin_op s) (\<lambda>s.
       kbind (deref (cwd (ptable s ! i)) (\<lambda>k. iput k s)) (\<lambda>s.
       kbind (end_op s) (\<lambda>s.
       exit_tail i (upd_proc i (\<lambda>p. p\<lparr>cwd := None\<rparr>) s)))))))"

subsection \<open>Process system calls\<close>

definition sys_fork :: "'a filest_scheme \<Rightarrow> 'a filest_scheme fault + int \<times> 'a filest_scheme" where
  "sys_fork = fork"

definition sys_exit :: "'a filest_scheme \<Rightarrow> 'a filest_scheme fault + int \<times> 'a filest_scheme" where
  "sys_exit s = kbind (exit s) (\<lambda>s. Inr (0, s))"

definition sys_wait :: "'a ptab_scheme \<Rightarrow> 'a ptab_scheme fault + int \<times> 'a ptab_scheme" where
  "sys_wait = wait"

definition sys_kill :: "'a ptab_scheme \<Rightarrow> 'a ptab_scheme fault + int \<times> 'a ptab_scheme" where
  "sys_kill s =
     kbind (argint 0 s) (\<lambda>(r, s).
     case r of None \<Rightarrow> Inr (-1, s) | Some v \<Rightarrow> kill (sint v) s)"

definition sys_getpid :: "'a ptab_scheme \<Rightarrow> 'a ptab_scheme fault + int \<times> 'a ptab_scheme" where
  "sys_getpid = with_proc (\<lambda>i s. Inr (pid (ptable s ! i), s))"

definition sys_sbrk :: "'a ptab_scheme \<Rightarrow> 'a ptab_scheme fault + int \<times> 'a ptab_scheme" where
  "sys_sbrk s =
     kbind (argint 0 s) (\<lambda>(r, s).
     case r of
       None \<Rightarrow> Inr (-1, s)
     | Some n \<Rightarrow>
         with_proc (\<lambda>i s.
         let addr = sint (sz (ptable s ! i)) in
         kbind (growproc (sint n) s) (\<lambda>(r, s).
         if r < 0 then Inr (-1, s) else Inr (addr, s))) s)"

text \<open>The loop of \<^verbatim>\<open>sys_sleep\<close>. The comparison is between unsigned numbers.\<close>

definition sleep_ticks :: "u32 \<Rightarrow> u32 \<Rightarrow> 'a ptab_scheme \<Rightarrow> 'a ptab_scheme fault + int \<times> 'a ptab_scheme" where
  "sleep_ticks n ticks0 s =
     (if ticks s - ticks0 < n then
        with_proc (\<lambda>i s.
        if killed (ptable s ! i) then kbind (release TicksLock s) (\<lambda>s. Inr (-1, s))
        else sleep ChanTicks TicksLock s) s
      else kbind (release TicksLock s) (\<lambda>s. Inr (0, s)))"

definition sys_sleep :: "'a ptab_scheme \<Rightarrow> 'a ptab_scheme fault + int \<times> 'a ptab_scheme" where
  "sys_sleep s =
     kbind (argint 0 s) (\<lambda>(r, s).
     case r of
       None \<Rightarrow> Inr (-1, s)
     | Some n \<Rightarrow> kbind (acquire TicksLock s) (\<lambda>s. sleep_ticks n (ticks s) s))"

definition sys_sleep_resume :: "nat \<Rightarrow> bool \<Rightarrow> u32 \<Rightarrow> u32 \<Rightarrow> 'a ptab_scheme \<Rightarrow> 'a ptab_scheme fault + int \<times> 'a ptab_scheme" where
  "sys_sleep_resume i intena_saved n ticks0 s =
     kbind (sleep_resume i TicksLock intena_saved s) (\<lambda>s. sleep_ticks n ticks0 s)"

definition sys_uptime :: "'a ptab_scheme \<Rightarrow> 'a ptab_scheme fault + int \<times> 'a ptab_scheme" where
  "sys_uptime s =
     kbind (acquire TicksLock s) (\<lambda>s.
     let xticks = ticks s in
     kbind (release TicksLock s) (\<lambda>s. Inr (sint xticks, s)))"

definition sys_uthread_init :: "'a ptab_scheme \<Rightarrow> 'a ptab_scheme fault + int \<times> 'a ptab_scheme" where
  "sys_uthread_init s =
     kbind (argint 0 s) (\<lambda>(r, s).
     case r of
       None \<Rightarrow> Inr (-1, s)
     | Some v \<Rightarrow>
         with_proc (\<lambda>i s.
         Inr (0, upd_proc i (\<lambda>p. p\<lparr>uscheduler := v, is_threaded := True\<rparr>) s)) s)"

definition sys_yield :: "'a ptab_scheme \<Rightarrow> 'a ptab_scheme fault + int \<times> 'a ptab_scheme" where
  "sys_yield s = kbind (yield s) (\<lambda>s. Inr (0, s))"

text \<open>A \<^verbatim>\<open>struct pstat\<close> as the code lays it out in memory.\<close>

definition pstat_words :: "pstat \<Rightarrow> int list" where
  "pstat_words ps = ps_inuse ps @ ps_pid ps @ ps_priority ps @ ps_state ps @ concat (ps_ticks ps) @ concat (ps_wait_ticks ps)"

definition sys_getpinfo :: "'a ptab_scheme \<Rightarrow> 'a ptab_scheme fault + int \<times> 'a ptab_scheme" where
  "sys_getpinfo s =
     kbind (argptr 0 3072 s) (\<lambda>(r, s).
     case r of
       None \<Rightarrow> Inr (-1, s)
     | Some p \<Rightarrow>
         kbind (getpinfo s) (\<lambda>(ps, s).
         with_proc (\<lambda>i s.
         kbind (ustores i p (concat (map (\<lambda>v. word_bytes (of_int v)) (pstat_words ps))) s) (\<lambda>s. Inr (0, s))) s))"

definition sys_setSchedPolicy :: "'a ptab_scheme \<Rightarrow> 'a ptab_scheme fault + int \<times> 'a ptab_scheme" where
  "sys_setSchedPolicy s =
     kbind (argint 0 s) (\<lambda>(r, s).
     case r of None \<Rightarrow> Inr (-1, s) | Some v \<Rightarrow> setSchedPolicy (sint v) s)"

subsection \<open>Dispatch\<close>

text \<open>The table \<^verbatim>\<open>syscalls\<close>, from the entry for number 1 on.\<close>

definition syscalls ::
  "'a filest_scheme devsw list \<Rightarrow> ('a filest_scheme \<Rightarrow> 'a filest_scheme fault + int \<times> 'a filest_scheme) list" where
  "syscalls dv =
     [sys_fork, sys_exit, sys_wait, sys_pipe, sys_read dv, sys_kill, sys_exec dv, sys_fstat, sys_chdir, sys_dup, sys_getpid,
      sys_sbrk, sys_sleep, sys_uptime, sys_open, sys_write dv, sys_mknod, sys_unlink, sys_link, sys_mkdir, sys_close,
      sys_uthread_init, sys_getpinfo, sys_setSchedPolicy, sys_yield]"

definition syscall :: "'a filest_scheme devsw list \<Rightarrow> 'a filest_scheme \<Rightarrow> 'a filest_scheme fault + 'a filest_scheme" where
  "syscall dv = with_proc (\<lambda>i s.
     let num = sint (load32 (mem s) (tf (ptable s ! i) + TF_EAX)) in
     kbind (if num > 0 \<and> num < 26 then (syscalls dv ! nat (num - 1)) s else Inr (-1, s)) (\<lambda>(r, s).
     Inr (s\<lparr>mem := store32 (tf (ptable s ! i) + TF_EAX) (of_int r) (mem s)\<rparr>)))"

subsection \<open>Traps\<close>

abbreviation (input) T_SYSCALL :: u32 where "T_SYSCALL \<equiv> 64"
abbreviation (input) T_IRQ0 :: u32 where "T_IRQ0 \<equiv> 32"
abbreviation (input) IRQ_TIMER :: u32 where "IRQ_TIMER \<equiv> 0"
abbreviation (input) IRQ_KBD :: u32 where "IRQ_KBD \<equiv> 1"
abbreviation (input) IRQ_COM1 :: u32 where "IRQ_COM1 \<equiv> 4"
abbreviation (input) IRQ_IDE :: u32 where "IRQ_IDE \<equiv> 14"
abbreviation (input) IRQ_SPURIOUS :: u32 where "IRQ_SPURIOUS \<equiv> 31"

definition exit_if_killed :: "'a filest_scheme \<Rightarrow> 'a filest_scheme fault + 'a filest_scheme" where
  "exit_if_killed = with_proc (\<lambda>i s. if killed (ptable s ! i) then exit s else Inr s)"

text \<open>The test before and after the \<^verbatim>\<open>yield\<close> at the end of \<^verbatim>\<open>trap\<close>; \<open>user\<close> says that the trap came from user mode.\<close>

definition exit_user_killed :: "bool \<Rightarrow> 'a filest_scheme \<Rightarrow> 'a filest_scheme fault + 'a filest_scheme" where
  "exit_user_killed user s =
     kbind (myproc s) (\<lambda>(me, s).
     case me of
       None \<Rightarrow> Inr s
     | Some i \<Rightarrow> if killed (ptable s ! i) \<and> user then exit s else Inr s)"

text \<open>The \<^verbatim>\<open>switch\<close> of \<^verbatim>\<open>trap\<close>. \<open>dev\<close> stands for the interrupt handlers of the disk, keyboard, serial line and network
  drivers, by interrupt number; \<open>ucall\<close> runs user code at an address.\<close>

definition trap_switch ::
  "(u32 \<Rightarrow> 'a filest_scheme \<Rightarrow> 'a filest_scheme fault + 'a filest_scheme) \<Rightarrow>
   (u32 \<Rightarrow> 'a filest_scheme \<Rightarrow> 'a filest_scheme fault + 'a filest_scheme) \<Rightarrow>
   u32 \<Rightarrow> bool \<Rightarrow> 'a filest_scheme \<Rightarrow> 'a filest_scheme fault + 'a filest_scheme" where
  "trap_switch ucall dev trapno from_kernel s =
     (if trapno = T_IRQ0 + IRQ_TIMER then timer_intr ucall s
      else if trapno \<in> {T_IRQ0 + IRQ_IDE, T_IRQ0 + IRQ_KBD, T_IRQ0 + IRQ_COM1, T_IRQ0 + 0xB} then dev (trapno - T_IRQ0) s
      else if trapno \<in> {T_IRQ0 + IRQ_IDE + 1, T_IRQ0 + IRQ_SPURIOUS} then Inr s
      else
        kbind (myproc s) (\<lambda>(me, s).
        case me of
          None \<Rightarrow> Inl (Panic ''trap'')
        | Some i \<Rightarrow>
            if from_kernel then Inl (Panic ''trap'')
            else Inr (upd_proc i (\<lambda>p. p\<lparr>killed := True\<rparr>) s)))"

definition trap ::
  "'a filest_scheme devsw list \<Rightarrow>
   (u32 \<Rightarrow> 'a filest_scheme \<Rightarrow> 'a filest_scheme fault + 'a filest_scheme) \<Rightarrow>
   (u32 \<Rightarrow> 'a filest_scheme \<Rightarrow> 'a filest_scheme fault + 'a filest_scheme) \<Rightarrow>
   u32 \<Rightarrow> 'a filest_scheme \<Rightarrow> 'a filest_scheme fault + 'a filest_scheme" where
  "trap dv ucall dev tfp s =
     (let trapno = load32 (mem s) (tfp + TF_TRAPNO);
          cpl = load16 (mem s) (tfp + TF_CS) AND 3 in
      if trapno = T_SYSCALL then
        kbind (exit_if_killed s) (\<lambda>s.
        kbind (with_proc (\<lambda>i s. Inr (upd_proc i (\<lambda>p. p\<lparr>tf := tfp\<rparr>) s)) s) (\<lambda>s.
        kbind (syscall dv s) (\<lambda>s.
        exit_if_killed s)))
      else
        kbind (trap_switch ucall dev trapno (cpl = 0) s) (\<lambda>s.
        kbind (exit_user_killed (cpl = 3) s) (\<lambda>s.
        kbind (if trapno = T_IRQ0 + IRQ_TIMER then timer_yield s else Inr s) (\<lambda>s.
        exit_user_killed (cpl = 3) s))))"

text \<open>\<^verbatim>\<open>trap\<close> after the \<^verbatim>\<open>yield\<close> of a timer interrupt.\<close>

definition trap_resume :: "bool \<Rightarrow> bool \<Rightarrow> 'a filest_scheme \<Rightarrow> 'a filest_scheme fault + 'a filest_scheme" where
  "trap_resume intena_saved user s =
     kbind (yield_resume intena_saved s) (\<lambda>s. exit_user_killed user s)"

end
