(* ===== verification/Console.thy ===== *)
theory Console
  imports Process
begin

section \<open>The console\<close>

text \<open>
  \<^verbatim>\<open>src/console.c\<close>, \<^verbatim>\<open>src/uart.c\<close>, \<^verbatim>\<open>src/kbd.c\<close>, \<^verbatim>\<open>src/font.c\<close>, \<^verbatim>\<open>src/graphic.c\<close> and \<^verbatim>\<open>procdump\<close> of \<^verbatim>\<open>src/proc.c\<close>. Output
  goes to the serial port, whose bytes are the list \<open>uart_out\<close>, and to the frame buffer, a range of the memory \<open>mem\<close>. Input
  comes from the characters that \<^verbatim>\<open>getc\<close> delivers before its first negative result; they are edited in the ring
  \<^verbatim>\<open>input\<close> and read line by line by \<^verbatim>\<open>consoleread\<close>. An \<^verbatim>\<open>int\<close> that holds a character is a 32-bit word, so that a negative
  \<^verbatim>\<open>char\<close> keeps its sign extension. \<^verbatim>\<open>console_pos\<close> is a natural number: it is never decremented at 0.
\<close>

subsection \<open>State\<close>

text \<open>\<^verbatim>\<open>struct gpu\<close> and the anonymous structure of \<^verbatim>\<open>input\<close>.\<close>

record gpu =
  pvram_addr :: u32
  vvram_addr :: u32
  vram_size :: u32
  horizontal_resolution :: u32
  vertical_resolution :: u32
  pixels_per_line :: u32

record inputbuf =
  ibuf :: "u8 list"
  ir :: u32
  iw :: u32
  ie :: u32

text \<open>\<open>font_addr\<close> is the address of \<^verbatim>\<open>font_bin\<close>; \<open>uart_in\<close> and \<open>kbd_in\<close> are the bytes that wait in the two devices;
  \<open>kbd_shift\<close> is the static variable \<^verbatim>\<open>shift\<close> of \<^verbatim>\<open>kbdgetc\<close>.\<close>

record consst = kst +
  gpu :: gpu
  font_addr :: u32
  uart :: bool
  uart_out :: "u8 list"
  uart_in :: "u8 list"
  kbd_in :: "u8 list"
  kbd_shift :: u8
  console_pos :: nat
  panicked :: bool
  cons_locking :: bool
  input :: inputbuf

subsection \<open>The frame buffer\<close>

record graphic_pixel =
  blue :: u8
  green :: u8
  red :: u8
  black :: u8

definition black_pixel :: graphic_pixel where
  "black_pixel = \<lparr>blue = 0, green = 0, red = 0, black = 0\<rparr>"

definition white_pixel :: graphic_pixel where
  "white_pixel = \<lparr>blue = 0xFF, green = 0xFF, red = 0xFF, black = 0\<rparr>"

text \<open>The configuration that the boot loader leaves at \<^verbatim>\<open>BOOTPARAM\<close>: five 64-bit fields from offset 16 on, of which the low
  words are used. \<^verbatim>\<open>P2V_WO(BOOTPARAM)\<close> is \<open>0x80050000\<close>.\<close>

definition graphic_init :: "'a consst_scheme \<Rightarrow> 'a consst_scheme" where
  "graphic_init s =
     (let bp = 0x80050000;
          g = (gpu s)\<lparr>pvram_addr := load32 (mem s) (bp + 16)\<rparr>;
          g = g\<lparr>vram_size := load32 (mem s) (bp + 24)\<rparr>;
          g = g\<lparr>vvram_addr := 0xFE000000 - vram_size g\<rparr>;
          g = g\<lparr>horizontal_resolution := load32 (mem s) (bp + 32)\<rparr>;
          g = g\<lparr>vertical_resolution := load32 (mem s) (bp + 40)\<rparr>;
          g = g\<lparr>pixels_per_line := load32 (mem s) (bp + 48)\<rparr> in
      s\<lparr>gpu := g\<rparr>)"

definition pixel_ptr :: "gpu \<Rightarrow> u32 \<Rightarrow> u32 \<Rightarrow> u32" where
  "pixel_ptr g x y = vvram_addr g + 4 * (y * pixels_per_line g + x)"

definition graphic_draw_pixel :: "gpu \<Rightarrow> u32 \<Rightarrow> u32 \<Rightarrow> graphic_pixel \<Rightarrow> mem \<Rightarrow> mem" where
  "graphic_draw_pixel g x y px m =
     (let p = pixel_ptr g x y in m(p := blue px, p + 1 := green px, p + 2 := red px))"

definition graphic_scroll_up :: "gpu \<Rightarrow> u32 \<Rightarrow> mem \<Rightarrow> mem" where
  "graphic_scroll_up g height m =
     (let addr_diff = 4 * pixels_per_line g * height;
          m = memmove (vvram_addr g) (vvram_addr g + addr_diff) (vram_size g - addr_diff) m in
      memset (vvram_addr g + vram_size g - addr_diff) 0 addr_diff m)"

text \<open>Row \<open>i\<close> of a glyph is the half word \<^verbatim>\<open>font_bin[index-0x20][i]\<close>; an index outside the table reads the memory around it.\<close>

definition font_row :: "u32 \<Rightarrow> mem \<Rightarrow> u32 \<Rightarrow> nat \<Rightarrow> u16" where
  "font_row fa m index i = load16 m (fa + 60 * (index - 0x20) + 2 * of_nat i)"

definition font_render_row :: "gpu \<Rightarrow> u32 \<Rightarrow> u32 \<Rightarrow> u32 \<Rightarrow> u32 \<Rightarrow> nat \<Rightarrow> mem \<Rightarrow> mem" where
  "font_render_row g fa x y index i m =
     fold (\<lambda>j m. graphic_draw_pixel g (x + of_nat (14 - j)) (y + of_nat i)
              (if bit (font_row fa m index i) j then white_pixel else black_pixel) m) (rev [0..<15]) m"

definition font_render :: "gpu \<Rightarrow> u32 \<Rightarrow> u32 \<Rightarrow> u32 \<Rightarrow> u32 \<Rightarrow> mem \<Rightarrow> mem" where
  "font_render g fa x y index m = fold (font_render_row g fa x y index) [0..<30] m"

primrec font_render_string_loop :: "gpu \<Rightarrow> u32 \<Rightarrow> u32 \<Rightarrow> nat \<Rightarrow> u8 list \<Rightarrow> mem \<Rightarrow> mem" where
  "font_render_string_loop g fa row i [] m = m"
| "font_render_string_loop g fa row i (c # cs) m =
     (if i < 52 then font_render_string_loop g fa row (Suc i) cs (font_render g fa (of_nat i * 15 + 2) (row * 30) (scast c) m)
      else m)"

definition font_render_string :: "gpu \<Rightarrow> u32 \<Rightarrow> u8 list \<Rightarrow> u32 \<Rightarrow> mem \<Rightarrow> mem" where
  "font_render_string g fa str row m = font_render_string_loop g fa row 0 str m"

subsection \<open>Output\<close>

abbreviation (input) BACKSPACE :: u32 where "BACKSPACE \<equiv> 0x100"
abbreviation (input) NEWLINE :: u32 where "NEWLINE \<equiv> 10"
abbreviation (input) CONSOLE_HORIZONTAL_MAX :: nat where "CONSOLE_HORIZONTAL_MAX \<equiv> 53"
abbreviation (input) CONSOLE_VERTICAL_MAX :: nat where "CONSOLE_VERTICAL_MAX \<equiv> 20"

text \<open>A string literal.\<close>

definition cstring :: "string \<Rightarrow> u8 list" where
  "cstring = map of_char"

definition scroll_line :: "'a consst_scheme \<Rightarrow> 'a consst_scheme" where
  "scroll_line s =
     (if console_pos s \<ge> CONSOLE_VERTICAL_MAX * CONSOLE_HORIZONTAL_MAX
      then s\<lparr>console_pos := console_pos s - CONSOLE_HORIZONTAL_MAX, mem := graphic_scroll_up (gpu s) 30 (mem s)\<rparr>
      else s)"

definition graphic_putc :: "u32 \<Rightarrow> 'a consst_scheme \<Rightarrow> 'a consst_scheme" where
  "graphic_putc c s =
     (if c = NEWLINE then
        scroll_line (s\<lparr>console_pos := console_pos s + (CONSOLE_HORIZONTAL_MAX - console_pos s mod CONSOLE_HORIZONTAL_MAX)\<rparr>)
      else if c = BACKSPACE then
        if console_pos s > 0 then s\<lparr>console_pos := console_pos s - 1\<rparr> else s
      else
        let s = scroll_line s;
            x = of_nat (console_pos s mod CONSOLE_HORIZONTAL_MAX) * 15 + 2;
            y = of_nat (console_pos s div CONSOLE_HORIZONTAL_MAX) * 30 in
        s\<lparr>mem := font_render (gpu s) (font_addr s) x y c (mem s), console_pos := console_pos s + 1\<rparr>)"

text \<open>\<^verbatim>\<open>uartputc\<close> polls the line status a bounded number of times and then sends the low byte in any case.\<close>

definition uartputc :: "u32 \<Rightarrow> 'a consst_scheme \<Rightarrow> 'a consst_scheme" where
  "uartputc c s = (if \<not> uart s then s else s\<lparr>uart_out := uart_out s @ [ucast c]\<rparr>)"

definition consputc :: "u32 \<Rightarrow> 'a consst_scheme \<Rightarrow> 'a consst_scheme fault + 'a consst_scheme" where
  "consputc c s =
     (if panicked s then Inl (Halted (cli s))
      else
        let s = (if c = BACKSPACE then uartputc 8 (uartputc 32 (uartputc 8 s)) else uartputc c s) in
        Inr (graphic_putc c s))"

primrec consputs :: "u32 list \<Rightarrow> 'a consst_scheme \<Rightarrow> 'a consst_scheme fault + 'a consst_scheme" where
  "consputs [] s = Inr s"
| "consputs (c # cs) s = kbind (consputc c s) (\<lambda>s. consputs cs s)"

text \<open>The digits in \<^verbatim>\<open>buf\<close>, the last one first; \<open>room\<close> is the space left in \<^verbatim>\<open>buf[16]\<close>, and a digit too many overruns it.\<close>

definition digits :: "u8 list" where
  "digits = cstring ''0123456789abcdef''"

primrec printint_loop :: "nat \<Rightarrow> u32 \<Rightarrow> u32 \<Rightarrow> u8 list option" where
  "printint_loop 0 base x = None"
| "printint_loop (Suc room) base x =
     (let d = digits ! unat (x mod base) in
      if x div base = 0 then Some [d] else map_option ((#) d) (printint_loop room base (x div base)))"

definition printint_buf :: "u32 \<Rightarrow> u32 \<Rightarrow> bool \<Rightarrow> u8 list option" where
  "printint_buf xx base sign =
     (let neg = (sign \<and> xx <s 0);
          x = (if neg then - xx else xx) in
      case printint_loop 16 base x of
        None \<Rightarrow> None
      | Some ds \<Rightarrow> if neg then if length ds < 16 then Some (ds @ [45]) else None else Some ds)"

definition printint :: "u32 \<Rightarrow> u32 \<Rightarrow> bool \<Rightarrow> 'a consst_scheme \<Rightarrow> 'a consst_scheme fault + 'a consst_scheme" where
  "printint xx base sign s =
     (case printint_buf xx base sign of
        None \<Rightarrow> Inl Overrun
      | Some buf \<Rightarrow> consputs (map ucast (rev buf)) s)"

text \<open>An argument of \<^verbatim>\<open>cprintf\<close> is a word and, where it is used as one, the string at that address.\<close>

record cparg =
  aword :: u32
  astr :: "u8 list"

definition num :: "u32 \<Rightarrow> cparg" where
  "num x = \<lparr>aword = x, astr = []\<rparr>"

fun cprintf_loop :: "u8 list \<Rightarrow> cparg list \<Rightarrow> 'a consst_scheme \<Rightarrow> 'a consst_scheme fault + 'a consst_scheme" where
  "cprintf_loop [] args s = Inr s"
| "cprintf_loop (c # fmt) args s =
     (if c \<noteq> 37 then kbind (consputc (ucast c) s) (\<lambda>s. cprintf_loop fmt args s)
      else case fmt of
        [] \<Rightarrow> Inr s
      | c # fmt \<Rightarrow>
          if c = 100 then kbind (printint (aword (hd args)) 10 True s) (\<lambda>s. cprintf_loop fmt (tl args) s)
          else if c = 120 \<or> c = 112 then kbind (printint (aword (hd args)) 16 False s) (\<lambda>s. cprintf_loop fmt (tl args) s)
          else if c = 115 then
            let str = (if aword (hd args) = 0 then cstring ''(null)'' else astr (hd args)) in
            kbind (consputs (map scast str) s) (\<lambda>s. cprintf_loop fmt (tl args) s)
          else if c = 37 then kbind (consputc 37 s) (\<lambda>s. cprintf_loop fmt args s)
          else kbind (consputc 37 s) (\<lambda>s. kbind (consputc (ucast c) s) (\<lambda>s. cprintf_loop fmt args s)))"

definition cprintf :: "u8 list option \<Rightarrow> cparg list \<Rightarrow> 'a consst_scheme \<Rightarrow> 'a consst_scheme fault + 'a consst_scheme" where
  "cprintf fmt args s =
     (let locking = cons_locking s in
      kbind (if locking then acquire ConsLock s else Inr s) (\<lambda>s.
      case fmt of
        None \<Rightarrow> Inl (Panic ''null fmt'')
      | Some fmt \<Rightarrow>
          kbind (cprintf_loop fmt args s) (\<lambda>s.
          if locking then release ConsLock s else Inr s)))"

subsection \<open>Stack traces and panic\<close>

text \<open>The chain of saved frame pointers, ten frames at most.\<close>

primrec pcs_loop :: "nat \<Rightarrow> mem \<Rightarrow> u32 \<Rightarrow> u32 list" where
  "pcs_loop 0 m ebp = []"
| "pcs_loop (Suc k) m ebp =
     (if ebp = 0 \<or> ebp < KERNBASE \<or> ebp = 0xffffffff then replicate (Suc k) 0
      else load32 m (ebp + 4) # pcs_loop k m (load32 m ebp))"

definition getcallerpcs :: "mem \<Rightarrow> u32 \<Rightarrow> u32 list" where
  "getcallerpcs m v = pcs_loop 10 m (v - 8)"

primrec print_pcs :: "u32 list \<Rightarrow> 'a consst_scheme \<Rightarrow> 'a consst_scheme fault + 'a consst_scheme" where
  "print_pcs [] s = Inr s"
| "print_pcs (pc # pcs) s = kbind (cprintf (Some (cstring '' %p'')) [num pc] s) (\<lambda>s. print_pcs pcs s)"

text \<open>\<open>v\<close> is the address of the parameter of \<^verbatim>\<open>panic\<close> on the stack. The CPU ends in the endless loop.\<close>

definition panic :: "u8 list \<Rightarrow> u32 \<Rightarrow> 'a consst_scheme \<Rightarrow> 'a consst_scheme fault + 'a consst_scheme" where
  "panic msg v s =
     (let s = (cli s)\<lparr>cons_locking := False\<rparr> in
      kbind (cprintf (Some (cstring ''lapicid %d: panic: '')) [num (ucast (lapic_id s))] s) (\<lambda>s.
      kbind (cprintf (Some msg) [] s) (\<lambda>s.
      kbind (cprintf (Some [10]) [] s) (\<lambda>s.
      kbind (print_pcs (getcallerpcs (mem s) v) s) (\<lambda>s.
      Inl (Halted (s\<lparr>panicked := True\<rparr>)))))))"

definition state_name :: "procstate \<Rightarrow> u8 list" where
  "state_name st =
     cstring (case st of UNUSED \<Rightarrow> ''unused'' | EMBRYO \<Rightarrow> ''embryo'' | SLEEPING \<Rightarrow> ''sleep '' | RUNNABLE \<Rightarrow> ''runble''
       | RUNNING \<Rightarrow> ''run   '' | ZOMBIE \<Rightarrow> ''zombie'')"

text \<open>One line of the listing; \<^verbatim>\<open>p->context->ebp\<close> is the fourth word of the saved context. The strings are at
  addresses other than 0.\<close>

definition procdump_line :: "proc \<Rightarrow> 'a consst_scheme \<Rightarrow> 'a consst_scheme fault + 'a consst_scheme" where
  "procdump_line p s =
     (if state p = UNUSED then Inr s
      else
        kbind (cprintf (Some (cstring ''%d %s %s''))
                 [num (word_of_int (pid p)), \<lparr>aword = 1, astr = state_name (state p)\<rparr>,
                  \<lparr>aword = 1, astr = takeWhile (\<lambda>c. c \<noteq> 0) (pname p)\<rparr>] s) (\<lambda>s.
        kbind (if state p = SLEEPING
               then print_pcs (takeWhile (\<lambda>pc. pc \<noteq> 0) (getcallerpcs (mem s) (load32 (mem s) (ctx p + 12) + 8))) s
               else Inr s) (\<lambda>s.
        cprintf (Some [10]) [] s)))"

primrec procdump_loop :: "nat list \<Rightarrow> 'a consst_scheme \<Rightarrow> 'a consst_scheme fault + 'a consst_scheme" where
  "procdump_loop [] s = Inr s"
| "procdump_loop (i # is) s = kbind (procdump_line (ptable s ! i) s) (\<lambda>s. procdump_loop is s)"

definition procdump :: "'a consst_scheme \<Rightarrow> 'a consst_scheme fault + 'a consst_scheme" where
  "procdump s = procdump_loop [0..<length (ptable s)] s"

subsection \<open>Input\<close>

abbreviation (input) INPUT_BUF :: nat where "INPUT_BUF \<equiv> 128"

definition upd_input :: "(inputbuf \<Rightarrow> inputbuf) \<Rightarrow> 'a consst_scheme \<Rightarrow> 'a consst_scheme" where
  "upd_input f s = s\<lparr>input := f (input s)\<rparr>"

text \<open>\<^verbatim>\<open>input.buf[input.e++ % INPUT_BUF] = c\<close> and \<^verbatim>\<open>input.buf[input.r++ % INPUT_BUF]\<close>.\<close>

definition input_put :: "u8 \<Rightarrow> inputbuf \<Rightarrow> inputbuf" where
  "input_put b q = q\<lparr>ibuf := (ibuf q)[unat (ie q) mod INPUT_BUF := b], ie := ie q + 1\<rparr>"

definition input_get :: "inputbuf \<Rightarrow> u8 \<times> inputbuf" where
  "input_get q = (ibuf q ! (unat (ir q) mod INPUT_BUF), q\<lparr>ir := ir q + 1\<rparr>)"

text \<open>The loop of \<^verbatim>\<open>C('U')\<close>: one step for every character between \<^verbatim>\<open>input.w\<close> and \<^verbatim>\<open>input.e\<close> at most.\<close>

primrec kill_line :: "nat \<Rightarrow> 'a consst_scheme \<Rightarrow> 'a consst_scheme fault + 'a consst_scheme" where
  "kill_line 0 s = Inr s"
| "kill_line (Suc n) s =
     (if ie (input s) \<noteq> iw (input s) \<and> ibuf (input s) ! (unat (ie (input s) - 1) mod INPUT_BUF) \<noteq> 10
      then kbind (consputc BACKSPACE (upd_input (\<lambda>q. q\<lparr>ie := ie q - 1\<rparr>) s)) (\<lambda>s. kill_line n s)
      else Inr s)"

text \<open>The \<^verbatim>\<open>switch\<close> on a character other than \<^verbatim>\<open>C('P')\<close>.\<close>

definition consoleintr_char :: "u32 \<Rightarrow> 'a consst_scheme \<Rightarrow> 'a consst_scheme fault + 'a consst_scheme" where
  "consoleintr_char c s =
     (if c = 21 then kill_line (unat (ie (input s) - iw (input s))) s
      else if c = 8 \<or> c = 127 then
        if ie (input s) \<noteq> iw (input s) then consputc BACKSPACE (upd_input (\<lambda>q. q\<lparr>ie := ie q - 1\<rparr>) s)
        else Inr s
      else if c \<noteq> 0 \<and> ie (input s) - ir (input s) < of_nat INPUT_BUF then
        let c = (if c = 13 then NEWLINE else c) in
        kbind (consputc c (upd_input (input_put (ucast c)) s)) (\<lambda>s.
        if c = NEWLINE \<or> c = 4 \<or> ie (input s) = ir (input s) + of_nat INPUT_BUF
        then wakeup ChanInput (upd_input (\<lambda>q. q\<lparr>iw := ie q\<rparr>) s)
        else Inr s)
      else Inr s)"

primrec consoleintr_loop :: "u32 list \<Rightarrow> bool \<Rightarrow> 'a consst_scheme \<Rightarrow> 'a consst_scheme fault + bool \<times> 'a consst_scheme" where
  "consoleintr_loop [] doprocdump s = Inr (doprocdump, s)"
| "consoleintr_loop (c # cs) doprocdump s =
     (if c = 16 then consoleintr_loop cs True s
      else kbind (consoleintr_char c s) (\<lambda>s. consoleintr_loop cs doprocdump s))"

definition consoleintr :: "u32 list \<Rightarrow> 'a consst_scheme \<Rightarrow> 'a consst_scheme fault + 'a consst_scheme" where
  "consoleintr cs s =
     kbind (acquire ConsLock s) (\<lambda>s.
     kbind (consoleintr_loop cs False s) (\<lambda>(doprocdump, s).
     kbind (release ConsLock s) (\<lambda>s.
     if doprocdump then procdump s else Inr s)))"

text \<open>The end of \<^verbatim>\<open>consoleread\<close>; \<open>n\<close> is the number of bytes still wanted and \<open>got\<close> what was stored at \<^verbatim>\<open>dst\<close>.\<close>

definition consoleread_end ::
  "nat \<Rightarrow> u32 \<Rightarrow> u32 \<Rightarrow> u8 list \<Rightarrow> 'a consst_scheme \<Rightarrow> 'a consst_scheme fault + (int \<times> u8 list) \<times> 'a consst_scheme" where
  "consoleread_end k target n got s =
     kbind (release ConsLock s) (\<lambda>s.
     kbind (ilock k s) (\<lambda>s. Inr ((sint (target - n), got), s)))"

primrec consoleread_loop ::
  "nat \<Rightarrow> u32 \<Rightarrow> nat \<Rightarrow> u8 list \<Rightarrow> 'a consst_scheme \<Rightarrow> 'a consst_scheme fault + (int \<times> u8 list) \<times> 'a consst_scheme" where
  "consoleread_loop k target 0 got s = consoleread_end k target 0 got s"
| "consoleread_loop k target (Suc n) got s =
     (if ir (input s) = iw (input s) then
        kbind (myproc s) (\<lambda>(me, s). deref me (\<lambda>i.
        if killed (ptable s ! i)
        then kbind (release ConsLock s) (\<lambda>s. kbind (ilock k s) (\<lambda>s. Inr ((-1, got), s)))
        else sleep ChanInput ConsLock s))
      else
        let (c, q) = input_get (input s);
            s = s\<lparr>input := q\<rparr> in
        if c = 4 then
          let s = (if of_nat (Suc n) < target then upd_input (\<lambda>q. q\<lparr>ir := ir q - 1\<rparr>) s else s) in
          consoleread_end k target (of_nat (Suc n)) got s
        else if c = 10 then consoleread_end k target (of_nat n) (got @ [c]) s
        else consoleread_loop k target n (got @ [c]) s)"

text \<open>A negative \<open>n\<close> asks for nothing and gets 0.\<close>

definition consoleread :: "nat \<Rightarrow> u32 \<Rightarrow> 'a consst_scheme \<Rightarrow> 'a consst_scheme fault + (int \<times> u8 list) \<times> 'a consst_scheme" where
  "consoleread k n s =
     kbind (iunlock k s) (\<lambda>s.
     kbind (acquire ConsLock s) (\<lambda>s.
     if n \<le>s 0 then consoleread_end k n n [] s else consoleread_loop k n (unat n) [] s))"

text \<open>Woken up in \<^verbatim>\<open>sleep\<close> with \<open>n\<close> bytes still wanted.\<close>

definition consoleread_resume ::
  "nat \<Rightarrow> bool \<Rightarrow> nat \<Rightarrow> u32 \<Rightarrow> nat \<Rightarrow> u8 list \<Rightarrow> 'a consst_scheme \<Rightarrow> 'a consst_scheme fault + (int \<times> u8 list) \<times> 'a consst_scheme" where
  "consoleread_resume i intena_saved k target n got s =
     kbind (sleep_resume i ConsLock intena_saved s) (\<lambda>s. consoleread_loop k target n got s)"

definition consolewrite :: "nat \<Rightarrow> (nat \<Rightarrow> u8) \<Rightarrow> u32 \<Rightarrow> 'a consst_scheme \<Rightarrow> 'a consst_scheme fault + int \<times> 'a consst_scheme" where
  "consolewrite k buf n s =
     kbind (iunlock k s) (\<lambda>s.
     kbind (acquire ConsLock s) (\<lambda>s.
     kbind (consputs (map (\<lambda>i. ucast (buf i)) [0..<nat (sint n)]) s) (\<lambda>s.
     kbind (release ConsLock s) (\<lambda>s.
     kbind (ilock k s) (\<lambda>s. Inr (sint n, s))))))"

text \<open>\<^verbatim>\<open>consoleinit\<close> enters the console into the table of devices, at index \<^verbatim>\<open>CONSOLE\<close> (1). The interrupt controller is not
  part of the state.\<close>

definition consoleinit :: "'a consst_scheme devsw list \<Rightarrow> 'a consst_scheme \<Rightarrow> 'a consst_scheme devsw list \<times> 'a consst_scheme" where
  "consoleinit dv s =
     (let s = initlock ConsLock (s\<lparr>panicked := False\<rparr>);
          dv = dv[1 := (dv ! 1)\<lparr>dwrite := Some consolewrite, dread := Some consoleread\<rparr>];
          s = fold graphic_putc (map scast (cstring ''Starting XV6_UEFI...'' @ [10])) s in
      (dv, s\<lparr>cons_locking := True\<rparr>))"

subsection \<open>The serial port\<close>

text \<open>\<open>status\<close> is what the line status register reads as: \<open>0xFF\<close> when there is no port.\<close>

definition uartinit :: "u8 \<Rightarrow> 'a consst_scheme \<Rightarrow> 'a consst_scheme" where
  "uartinit status s =
     (if status = 0xFF then s
      else fold uartputc (map scast (cstring ''xv6...'' @ [10])) (s\<lparr>uart := True, uart_in := drop 1 (uart_in s)\<rparr>))"

text \<open>The characters that the calls of \<^verbatim>\<open>uartgetc\<close> deliver during one interrupt.\<close>

definition uartgetc :: "'a consst_scheme \<Rightarrow> (u32 \<times> 'a consst_scheme) option" where
  "uartgetc s =
     (if \<not> uart s then None
      else case uart_in s of [] \<Rightarrow> None | b # bs \<Rightarrow> Some (ucast b, s\<lparr>uart_in := bs\<rparr>))"

primrec uart_drain :: "nat \<Rightarrow> 'a consst_scheme \<Rightarrow> u32 list \<times> 'a consst_scheme" where
  "uart_drain 0 s = ([], s)"
| "uart_drain (Suc n) s =
     (case uartgetc s of None \<Rightarrow> ([], s) | Some (c, s) \<Rightarrow> let (cs, s) = uart_drain n s in (c # cs, s))"

definition uartintr :: "'a consst_scheme \<Rightarrow> 'a consst_scheme fault + 'a consst_scheme" where
  "uartintr s = (let (cs, s) = uart_drain (length (uart_in s)) s in consoleintr cs s)"

subsection \<open>The keyboard\<close>

text \<open>The tables of \<^verbatim>\<open>src/kbd.h\<close>, 0 where they have no entry. \<open>keypad\<close> is the part from \<open>0x97\<close> on that the three maps
  share, with the codes for Enter and for the division key as arguments.\<close>

abbreviation (input) SHIFT :: u8 where "SHIFT \<equiv> 1"
abbreviation (input) CTL :: u8 where "CTL \<equiv> 2"
abbreviation (input) ALT :: u8 where "ALT \<equiv> 4"
abbreviation (input) CAPSLOCK :: u8 where "CAPSLOCK \<equiv> 8"
abbreviation (input) NUMLOCK :: u8 where "NUMLOCK \<equiv> 16"
abbreviation (input) SCROLLLOCK :: u8 where "SCROLLLOCK \<equiv> 32"
abbreviation (input) E0ESC :: u8 where "E0ESC \<equiv> 64"

definition table :: "(u8 \<times> u8) list \<Rightarrow> u8 \<Rightarrow> u8" where
  "table ts i = (case map_of ts i of Some v \<Rightarrow> v | None \<Rightarrow> 0)"

definition shiftcode :: "u8 \<Rightarrow> u8" where
  "shiftcode = table [(0x1D, CTL), (0x2A, SHIFT), (0x36, SHIFT), (0x38, ALT), (0x9D, CTL), (0xB8, ALT)]"

definition togglecode :: "u8 \<Rightarrow> u8" where
  "togglecode = table [(0x3A, CAPSLOCK), (0x45, NUMLOCK), (0x46, SCROLLLOCK)]"

definition keypad :: "u8 \<Rightarrow> u8 \<Rightarrow> (u8 \<times> u8) list" where
  "keypad enter div_key =
     [(0x9C, enter), (0xB5, div_key), (0xC8, 0xE2), (0xD0, 0xE3), (0xC9, 0xE6), (0xD1, 0xE7), (0xCB, 0xE4), (0xCD, 0xE5),
      (0x97, 0xE0), (0xCF, 0xE1), (0xD2, 0xE8), (0xD3, 0xE9)]"

definition keymap :: "u8 list \<Rightarrow> (u8 \<times> u8) list \<Rightarrow> u8 \<Rightarrow> u8" where
  "keymap low high i = (if unat i < length low then low ! unat i else table high i)"

definition normalmap :: "u8 \<Rightarrow> u8" where
  "normalmap = keymap
     ([0, 0x1B] @ cstring ''1234567890-='' @ [8, 9] @ cstring ''qwertyuiop[]'' @ [10, 0] @ cstring ''asdfghjkl;'' @ [39, 96, 0, 92]
      @ cstring ''zxcvbnm,./'' @ [0, 42, 0, 32, 0, 0, 0, 0, 0, 0, 0, 0, 0, 0, 0, 0, 0] @ cstring ''789-456+1230.'' @ [0, 0, 0, 0])
     (keypad 10 47)"

definition shiftmap :: "u8 \<Rightarrow> u8" where
  "shiftmap = keymap
     ([0, 27] @ cstring ''!@#$%^&*()_+'' @ [8, 9] @ cstring ''QWERTYUIOP{}'' @ [10, 0] @ cstring ''ASDFGHJKL:'' @ [34, 126, 0, 124]
      @ cstring ''ZXCVBNM<>?'' @ [0, 42, 0, 32, 0, 0, 0, 0, 0, 0, 0, 0, 0, 0, 0, 0, 0] @ cstring ''789-456+1230.'' @ [0, 0, 0, 0])
     (keypad 10 47)"

text \<open>\<^verbatim>\<open>C(x)\<close> is \<^verbatim>\<open>x - '@'\<close>, so that \<^verbatim>\<open>C('/')\<close> wraps around to \<open>0xEF\<close> in a \<^verbatim>\<open>uchar\<close>.\<close>

definition C :: "u8 \<Rightarrow> u8" where
  "C x = x - 64"

definition ctlmap :: "u8 \<Rightarrow> u8" where
  "ctlmap = keymap
     (replicate 16 0 @ map C (cstring ''QWERTYUIOP'') @ [0, 0, 13, 0] @ map C (cstring ''ASDFGHJKL'') @ [0, 0, 0, 0]
      @ map C (92 # cstring ''ZXCVBNM'') @ [0, 0, C 47, 0, 0])
     (keypad 13 (C 47))"

definition charcode :: "u8 \<Rightarrow> u8 \<Rightarrow> u8" where
  "charcode k = (if k = 0 then normalmap else if k = 1 then shiftmap else ctlmap)"

text \<open>One call of \<^verbatim>\<open>kbdgetc\<close> with a scan code in the data port: the character and the new \<^verbatim>\<open>shift\<close>, of which only
  the low byte is ever used.\<close>

definition kbd_code :: "u8 \<Rightarrow> u8 \<Rightarrow> u8 \<times> u8" where
  "kbd_code shift data =
     (if data = 0xE0 then (0, shift OR E0ESC)
      else if data AND 0x80 \<noteq> 0 then
        let data = (if shift AND E0ESC \<noteq> 0 then data else data AND 0x7F) in
        (0, shift AND NOT (shiftcode data OR E0ESC))
      else
        let (data, shift) = (if shift AND E0ESC \<noteq> 0 then (data OR 0x80, shift AND NOT E0ESC) else (data, shift));
            shift = shift OR shiftcode data;
            shift = shift XOR togglecode data;
            c = charcode (shift AND (CTL OR SHIFT)) data;
            c = (if shift AND CAPSLOCK \<noteq> 0 then
                   if 97 \<le> c \<and> c \<le> 122 then c - 32
                   else if 65 \<le> c \<and> c \<le> 90 then c + 32
                   else c
                 else c) in
        (c, shift))"

definition kbdgetc :: "'a consst_scheme \<Rightarrow> (u32 \<times> 'a consst_scheme) option" where
  "kbdgetc s =
     (case kbd_in s of
        [] \<Rightarrow> None
      | data # rest \<Rightarrow>
          let (c, shift) = kbd_code (kbd_shift s) data in
          Some (ucast c, s\<lparr>kbd_in := rest, kbd_shift := shift\<rparr>))"

primrec kbd_drain :: "nat \<Rightarrow> 'a consst_scheme \<Rightarrow> u32 list \<times> 'a consst_scheme" where
  "kbd_drain 0 s = ([], s)"
| "kbd_drain (Suc n) s =
     (case kbdgetc s of None \<Rightarrow> ([], s) | Some (c, s) \<Rightarrow> let (cs, s) = kbd_drain n s in (c # cs, s))"

definition kbdintr :: "'a consst_scheme \<Rightarrow> 'a consst_scheme fault + 'a consst_scheme" where
  "kbdintr s = (let (cs, s) = kbd_drain (length (kbd_in s)) s in consoleintr cs s)"

subsection \<open>Device interrupts\<close>

text \<open>The device cases of the \<^verbatim>\<open>switch\<close> in \<^verbatim>\<open>trap\<close>, by interrupt line: the disk of \<^verbatim>\<open>memide.c\<close> never interrupts, and
  \<open>net\<close> is the handler of the network card. It is the argument \<open>dev\<close> of \<open>trap\<close>.\<close>

definition dev_intr ::
  "('a consst_scheme \<Rightarrow> 'a consst_scheme fault + 'a consst_scheme) \<Rightarrow> u32 \<Rightarrow> 'a consst_scheme \<Rightarrow> 'a consst_scheme fault + 'a consst_scheme" where
  "dev_intr net irq s =
     (if irq = 1 then kbdintr s else if irq = 4 then uartintr s else if irq = 0xB then net s else Inr s)"

end
