(* ===== verification/Fsprops.thy ===== *)
theory Fsprops
  imports Fs
begin

section \<open>The file system inside a transaction\<close>

text \<open>
  What the operations of \<^verbatim>\<open>src/fs.c\<close> do to the contents of the disk blocks, as seen through the buffer cache, inside a
  transaction. Two rules cover every access to a block: reading it, and reading, changing and logging it. On top of them are
  the block allocator, the block map of an inode and the contents of a file.
\<close>

subsection \<open>Frame of a transaction\<close>

text \<open>What an operation inside a transaction leaves alone: everything but the cached blocks, the list of logged blocks and
  the buffers. The second condition is about the buffers held across the operation.\<close>

definition tkeep :: "'a logst_scheme \<Rightarrow> 'a logst_scheme \<Rightarrow> bool" where
  "tkeep s t \<longleftrightarrow> same_procs s t \<and> disksize t = disksize s \<and> log_start t = log_start s \<and>
     log_size t = log_size s \<and> outstanding t = outstanding s \<and> pipes t = pipes s \<and> disk t = disk s"

definition hkeep :: "'a logst_scheme \<Rightarrow> 'a logst_scheme \<Rightarrow> bool" where
  "hkeep s t \<longleftrightarrow> held t = held s \<and> (\<forall>j \<in> held s. bufs t ! j = bufs s ! j)"

definition same_fs :: "'a logst_scheme \<Rightarrow> 'a logst_scheme \<Rightarrow> bool" where
  "same_fs s t \<longleftrightarrow> logst.more t = logst.more s"

text \<open>Room for \<open>m\<close> more blocks in the log and the cache.\<close>

definition room :: "nat \<Rightarrow> 'a logst_scheme \<Rightarrow> bool" where
  "room m s \<longleftrightarrow> card (held s) + card (pinned s) + m < NBUF \<and> int (card (pinned s) + m) < log_size s"

lemma tkeep_refl [simp]: "tkeep s s" "hkeep s s" "same_fs s s"
  by (simp_all add: tkeep_def hkeep_def same_fs_def)

lemma tkeep_trans: "tkeep s t \<Longrightarrow> tkeep t u \<Longrightarrow> tkeep s u"
  using same_procs_trans [of s t u] by (simp add: tkeep_def)

lemma hkeep_trans: "hkeep s t \<Longrightarrow> hkeep t u \<Longrightarrow> hkeep s u"
  by (simp add: hkeep_def)

lemma same_fs_trans: "same_fs s t \<Longrightarrow> same_fs t u \<Longrightarrow> same_fs s u"
  by (simp add: same_fs_def)

lemma tkeepD:
  assumes "tkeep s t"
  shows "disksize t = disksize s" "log_start t = log_start s" "log_size t = log_size s" "disk t = disk s" "outstanding t = outstanding s"
    "in_log t b = in_log s b"
  using assms by (simp_all add: tkeep_def in_log_def)

lemma bkeep_tkeep: "bkeep s t \<Longrightarrow> disk t = disk s \<Longrightarrow> tkeep s t \<and> same_fs s t"
  using log_more [of s t] by (simp add: tkeep_def same_fs_def bkeep_def)

lemma room_weaken: "room m s \<Longrightarrow> n \<le> m \<Longrightarrow> room n s"
  by (simp add: room_def)

lemma finite_held [simp]: "finite (held s)"
  by (rule finite_subset [of _ "{..<NBUF}"]) (auto simp: held_def)

lemma room_insert:
  assumes "room (Suc m) s" and "held t = held s" and "pinned t \<subseteq> insert b (pinned s)" and "log_size t = log_size s"
  shows "room m t"
proof -
  have "card (pinned t) \<le> card (insert b (pinned s))" using assms(3) by (intro card_mono) simp_all
  also have "\<dots> \<le> Suc (card (pinned s))" by (rule card_insert_le_m1) simp_all
  finally show ?thesis using assms by (simp add: room_def)
qed

lemma room_hold:
  assumes "room (Suc m) s" and "held t = insert k (held s)" and "pinned t = pinned s" and "log_size t = log_size s"
  shows "room m t"
proof -
  have "card (held t) \<le> Suc (card (held s))" unfolding assms(2) by (rule card_insert_le_m1) simp_all
  then show ?thesis using assms by (simp add: room_def)
qed

subsection \<open>Reading and updating a block\<close>

lemma upd_buf_data: "upd_buf k (\<lambda>x. x\<lparr>bdata := f (bdata x)\<rparr>) s = upd_buf k (\<lambda>x. x\<lparr>bdata := f (bdata (bufs s ! k))\<rparr>) s"
  by (simp add: upd_buf_def)

lemma bview_free:
  assumes "bio c i s" and "\<forall>k \<in> held s. blockno (bufs s ! k) \<noteq> b" and "b \<notin> pinned s"
  shows "bview s b = disk s b"
proof (cases "cached s b")
  case (Some k)
  have ok: "bcache_ok s" using assms(1) by (simp add: bio_def)
  note K = cached_SomeD [OF ok Some]
  have "k \<notin> held s" using assms(2) K by auto
  then have "\<not> bdirty (bufs s ! k)" "refcnt (bufs s ! k) = 0" using assms(3) K pinnedI [OF K(1), of s] by (auto simp: held_def)
  then show ?thesis using buf_okD(8) [OF bcache_okD(3) [OF ok K(1)]] K Some by (simp add: bview_def)
qed (simp add: bview_def)

lemma trans_length: "trans c i s \<Longrightarrow> length (bview s b) = BSIZE"
  by (rule bview_length) (simp add: trans_def bio_def)

lemma block_read:
  assumes tr: "trans c i s" and b: "b < disksize s" "\<forall>k \<in> held s. blockno (bufs s ! k) \<noteq> b" and rm: "room 0 s"
  shows "\<exists>k t. bread 1 b s = Inr (k, t) \<and> trans c i t \<and> tkeep s t \<and> same_fs s t \<and> k \<notin> held s \<and> held t = insert k (held s) \<and>
    (\<forall>j \<in> held s. bufs t ! j = bufs s ! j) \<and> blockno (bufs t ! k) = b \<and> bdata (bufs t ! k) = bview s b \<and> bview t = bview s \<and>
    pinned t = pinned s \<and> (bdirty (bufs t ! k) \<or> bview s b = disk s b)"
proof -
  have io: "bio c i s" using tr by (simp add: trans_def)
  obtain k t where t: "bread 1 b s = Inr (k, t)" "bio c i t" "bkeep s t" "k \<notin> held s" "held t = insert k (held s)"
    "blockno (bufs t ! k) = b" "bview t = bview s" "pinned t = pinned s" "disk t = disk s" "\<forall>j \<in> held s. bufs t ! j = bufs s ! j"
    using bread_ok [OF io b] rm by (auto simp: room_def)
  have k: "k \<in> held t" using t(5) by simp
  have "trans c i t" by (rule trans_keep [OF tr t(3,2,8,9)])
  moreover have "bdata (bufs t ! k) = bview s b" using held_buf(1) [OF t(2) k] t(6,7) by simp
  moreover have "bdirty (bufs t ! k) \<or> bview s b = disk s b"
    using pinned_iff [OF t(2) k] t(6,8) bview_free [OF io b(2)] by auto
  ultimately show ?thesis using t bkeep_tkeep [OF t(3,9)] by (intro exI [of _ k] exI [of _ t]) simp
qed

text \<open>Releasing a buffer whose contents are logged or unchanged.\<close>

lemma block_release:
  assumes tr: "trans c i s" and k: "k \<in> held s" and clean: "bdirty (bufs s ! k) \<or> bdata (bufs s ! k) = disk s (blockno (bufs s ! k))"
  shows "\<exists>t. brelse k s = Inr t \<and> trans c i t \<and> tkeep s t \<and> same_fs s t \<and> held t = held s - {k} \<and> bview t = bview s \<and>
    pinned t = pinned s \<and> (\<forall>j. j \<noteq> k \<longrightarrow> bufs t ! j = bufs s ! j)"
proof -
  have io: "bio c i s" using tr by (simp add: trans_def)
  obtain t where t: "brelse k s = Inr t" "bio c i t" "bkeep s t" "held t = held s - {k}" "bview t = bview s" "disk t = disk s"
    "pinned t = pinned s" "\<forall>j. j \<noteq> k \<longrightarrow> bufs t ! j = bufs s ! j" using brelse_ok [OF io k clean] by blast
  have "trans c i t" by (rule trans_keep [OF tr t(3,2,7,6)])
  then show ?thesis using t bkeep_tkeep [OF t(3,6)] by blast
qed

text \<open>Changing a held buffer and logging it.\<close>

lemma block_log:
  assumes tr: "trans c i s" and k: "k \<in> held s" and b: "blockno (bufs s ! k) = b" "\<not> in_log s b" and d: "length d = BSIZE"
    and rm: "room 1 s"
  shows "\<exists>t. log_write k (upd_buf k (\<lambda>x. x\<lparr>bdata := d\<rparr>) s) = Inr t \<and> trans c i t \<and> tkeep s t \<and> same_fs s t \<and> held t = held s \<and>
    bview t = (bview s)(b := d) \<and> pinned t = insert b (pinned s) \<and> blockno (bufs t ! k) = b \<and> bdirty (bufs t ! k) \<and>
    (\<forall>j. j \<noteq> k \<longrightarrow> bufs t ! j = bufs s ! j)"
proof -
  have io: "bio c i s" using tr by (simp add: trans_def)
  define u where "u = upd_buf k (\<lambda>x. x\<lparr>bdata := d\<rparr>) s"
  note U = buf_write [OF io k d, folded u_def]
  note M = log_more [OF U(7)]
  have tu: "trans c i u" by (rule trans_keep [OF tr U(7,1,4,5)])
  have "k \<in> held u" "\<not> in_log u (blockno (bufs u ! k))" "card (pinned u) < LOGSIZE - 1" "int (card (pinned u)) < log_size u - 1"
    using U k b rm M by (simp_all add: in_log_def room_def)
  from log_write_ok [OF tu this] obtain t where t: "log_write k u = Inr t" "trans c i t" "held t = held u" "bview t = bview u"
    "disk t = disk u" "pinned t = insert (blockno (bufs u ! k)) (pinned u)" "blockno (bufs t ! k) = blockno (bufs u ! k)"
    "bdirty (bufs t ! k)" "\<forall>j. j \<noteq> k \<longrightarrow> bufs t ! j = bufs u ! j" "logst.more t = logst.more u" "same_procs u t" "disksize t = disksize u"
    "log_start t = log_start u" "log_size t = log_size u" "outstanding t = outstanding u" "pipes t = pipes u" by blast
  have "tkeep u t" "same_fs u t" using t by (simp_all add: tkeep_def same_fs_def)
  moreover have "tkeep s u" "same_fs s u" using bkeep_tkeep [OF U(7,5)] by blast+
  ultimately have "tkeep s t" "same_fs s t" using tkeep_trans same_fs_trans by blast+
  then show ?thesis using t U b by (simp add: u_def [symmetric])
qed

lemma block_update:
  assumes tr: "trans c i s" and b: "b < disksize s" "\<forall>k \<in> held s. blockno (bufs s ! k) \<noteq> b" "\<not> in_log s b"
    and rm: "room 2 s" and d: "length d = BSIZE"
  shows "\<exists>k t u v. bread 1 b s = Inr (k, t) \<and> bdata (bufs t ! k) = bview s b \<and> same_fs s t \<and>
    log_write k (upd_buf k (\<lambda>x. x\<lparr>bdata := d\<rparr>) t) = Inr u \<and> brelse k u = Inr v \<and>
    trans c i v \<and> tkeep s v \<and> same_fs s v \<and> hkeep s v \<and> bview v = (bview s)(b := d) \<and> pinned v = insert b (pinned s)"
proof -
  obtain k t where t: "bread 1 b s = Inr (k, t)" "trans c i t" "tkeep s t" "same_fs s t" "k \<notin> held s" "held t = insert k (held s)"
    "\<forall>j \<in> held s. bufs t ! j = bufs s ! j" "blockno (bufs t ! k) = b" "bdata (bufs t ! k) = bview s b" "bview t = bview s"
    "pinned t = pinned s" using block_read [OF tr b(1,2)] rm by (auto simp: room_def)
  note D = tkeepD [OF t(3)]
  have k: "k \<in> held t" using t(6) by simp
  have "room 1 t" by (rule room_hold [OF _ t(6,11) D(3)]) (use rm in \<open>simp add: numeral_2_eq_2\<close>)
  then obtain u where u: "log_write k (upd_buf k (\<lambda>x. x\<lparr>bdata := d\<rparr>) t) = Inr u" "trans c i u" "tkeep t u" "same_fs t u"
    "held u = held t" "bview u = (bview t)(b := d)" "pinned u = insert b (pinned t)" "blockno (bufs u ! k) = b" "bdirty (bufs u ! k)"
    "\<forall>j. j \<noteq> k \<longrightarrow> bufs u ! j = bufs t ! j" using block_log [OF t(2) k t(8) _ d] b(3) D(6) by blast
  have k': "k \<in> held u" using u(5) k by simp
  obtain v where v: "brelse k u = Inr v" "trans c i v" "tkeep u v" "same_fs u v" "held v = held u - {k}" "bview v = bview u"
    "pinned v = pinned u" "\<forall>j. j \<noteq> k \<longrightarrow> bufs v ! j = bufs u ! j" using block_release [OF u(2) k'] u(9) by blast
  have "tkeep s v" "same_fs s v"
    using tkeep_trans [OF tkeep_trans [OF t(3) u(3)] v(3)] same_fs_trans [OF same_fs_trans [OF t(4) u(4)] v(4)] .
  moreover have "hkeep s v" using t(5,6,7) u(5,10) v(5,8) by (auto simp: hkeep_def)
  ultimately show ?thesis using t u v by (intro exI [of _ k] exI [of _ t] exI [of _ u] exI [of _ v]) simp
qed


lemma same_fsD:
  fixes s t :: "'a fsst_scheme"
  assumes "same_fs s t"
  shows "sb t = sb s" "inodes t = inodes s" "fsst.more t = fsst.more s"
  using assms by (cases s; cases t; simp add: same_fs_def)+

text \<open>A block that is only looked at.\<close>

definition ro :: "nat \<Rightarrow> nat \<Rightarrow> 'a logst_scheme \<Rightarrow> 'a logst_scheme \<Rightarrow> bool" where
  "ro c i s t \<longleftrightarrow> trans c i t \<and> tkeep s t \<and> same_fs s t \<and> hkeep s t \<and> bview t = bview s \<and> pinned t = pinned s"

lemma roD:
  assumes "ro c i s t"
  shows "trans c i t" "tkeep s t" "same_fs s t" "hkeep s t" "bview t = bview s" "pinned t = pinned s" "held t = held s" "room m t = room m s"
  using assms tkeepD(3) [of s t] by (simp_all add: ro_def hkeep_def room_def)

lemma ro_refl: "trans c i s \<Longrightarrow> ro c i s s"
  by (simp add: ro_def)

lemma ro_trans: "ro c i s t \<Longrightarrow> ro c i t u \<Longrightarrow> ro c i s u"
  using tkeep_trans [of s t u] same_fs_trans [of s t u] hkeep_trans [of s t u] by (simp add: ro_def)

lemma block_peek:
  assumes tr: "trans c i s" and b: "b < disksize s" "\<forall>k \<in> held s. blockno (bufs s ! k) \<noteq> b" and rm: "room 0 s"
  shows "\<exists>k t u. bread 1 b s = Inr (k, t) \<and> bdata (bufs t ! k) = bview s b \<and> same_fs s t \<and> brelse k t = Inr u \<and> ro c i s u"
proof -
  obtain k t where t: "bread 1 b s = Inr (k, t)" "trans c i t" "tkeep s t" "same_fs s t" "k \<notin> held s" "held t = insert k (held s)"
    "\<forall>j \<in> held s. bufs t ! j = bufs s ! j" "blockno (bufs t ! k) = b" "bdata (bufs t ! k) = bview s b" "bview t = bview s"
    "pinned t = pinned s" "bdirty (bufs t ! k) \<or> bview s b = disk s b" using block_read [OF assms] by blast
  have "k \<in> held t" "bdirty (bufs t ! k) \<or> bdata (bufs t ! k) = disk t (blockno (bufs t ! k))"
    using t(6,8,9,12) tkeepD(4) [OF t(3)] by auto
  from block_release [OF t(2) this] obtain u where u: "brelse k t = Inr u" "trans c i u" "tkeep t u" "same_fs t u" "held u = held t - {k}"
    "bview u = bview t" "pinned u = pinned t" "\<forall>j. j \<noteq> k \<longrightarrow> bufs u ! j = bufs t ! j" by blast
  have "tkeep s u" "same_fs s u" using tkeep_trans [OF t(3) u(3)] same_fs_trans [OF t(4) u(4)] .
  moreover have "hkeep s u" using t(5,6,7) u(5,8) by (auto simp: hkeep_def)
  ultimately show ?thesis using t u by (intro exI [of _ k] exI [of _ t] exI [of _ u]) (simp add: ro_def)
qed

subsection \<open>The bitmap\<close>

text \<open>\<open>bused s b\<close>: the bit of block \<open>b\<close> is set in the bitmap.\<close>

definition bused :: "'a fsst_scheme \<Rightarrow> u32 \<Rightarrow> bool" where
  "bused s b \<longleftrightarrow> bview s (BBLOCK b (sb s)) ! (unat b mod BPB div 8) AND bit_mask (unat b mod BPB) \<noteq> 0"

text \<open>The layout of the disk: the bitmap blocks lie on the disk and outside the log, and no block that the bitmap calls
  free is block 0, a bitmap block or a block of the log.\<close>

definition fs_ok :: "'a fsst_scheme \<Rightarrow> bool" where
  "fs_ok s \<longleftrightarrow> sb_size (sb s) \<le> disksize s \<and> bused s 0 \<and> (\<forall>x < sb_size (sb s). BBLOCK x (sb s) < disksize s \<and> \<not> in_log s (BBLOCK x (sb s)) \<and>
     (bused s x \<or> \<not> in_log s x \<and> (\<forall>y < sb_size (sb s). BBLOCK y (sb s) \<noteq> x)))"

lemma fs_okD:
  assumes "fs_ok s" and "x < sb_size (sb s)"
  shows "x < disksize s" "BBLOCK x (sb s) < disksize s" "\<not> in_log s (BBLOCK x (sb s))" "\<not> bused s x \<Longrightarrow> \<not> in_log s x"
    "\<not> bused s x \<Longrightarrow> y < sb_size (sb s) \<Longrightarrow> BBLOCK y (sb s) \<noteq> x"
  using assms unfolding fs_ok_def by (auto intro: less_le_trans)

text \<open>The buffers held across an allocation are neither bitmap blocks nor free blocks.\<close>

definition held_used :: "'a fsst_scheme \<Rightarrow> bool" where
  "held_used s \<longleftrightarrow> (\<forall>k \<in> held s. \<forall>x < sb_size (sb s). blockno (bufs s ! k) \<noteq> BBLOCK x (sb s) \<and> (bused s x \<or> blockno (bufs s ! k) \<noteq> x))"

lemma bused_cong: "bview t = bview s \<Longrightarrow> same_fs s t \<Longrightarrow> bused t = bused s"
  using same_fsD(1) [of s t] by (simp add: bused_def fun_eq_iff)

lemma fs_ok_cong: "bview t = bview s \<Longrightarrow> same_fs s t \<Longrightarrow> tkeep s t \<Longrightarrow> fs_ok t = fs_ok s"
  using same_fsD(1) [of s t] bused_cong [of t s] tkeepD [of s t] by (simp add: fs_ok_def)

lemma held_used_cong: "bview t = bview s \<Longrightarrow> same_fs s t \<Longrightarrow> hkeep s t \<Longrightarrow> held_used t = held_used s"
  using same_fsD(1) [of s t] bused_cong [of t s] by (simp add: held_used_def hkeep_def)

lemma bit_mask_test: "d AND bit_mask n \<noteq> 0 \<longleftrightarrow> bit d (n mod 8)"
  by (simp add: bit_mask_def push_bit_eq_mult and_exp_eq_0_iff_not_bit)

lemma bit_bit_mask: "bit (bit_mask n) k \<longleftrightarrow> k = n mod 8"
  by (auto simp: bit_mask_def push_bit_eq_mult bit_exp_iff)

lemma bit_mask_set:
  assumes "length d = BSIZE" and "m < BPB" and "n < BPB"
  shows "d[n div 8 := d ! (n div 8) OR bit_mask n] ! (m div 8) AND bit_mask m \<noteq> 0 \<longleftrightarrow> m = n \<or> d ! (m div 8) AND bit_mask m \<noteq> 0"
proof (cases "m div 8 = n div 8")
  case True
  have "n div 8 < BSIZE" using assms(3) by simp
  moreover have "m mod 8 = n mod 8 \<longleftrightarrow> m = n" using True div_mult_mod_eq [of m 8] div_mult_mod_eq [of n 8] by metis
  ultimately show ?thesis using assms(1) True unfolding bit_mask_test by (auto simp: bit_or_iff bit_bit_mask)
next
  case False
  then show ?thesis by auto
qed

lemma scan_range: "takeWhile (\<lambda>bi. b + bi < n) [0..<k] = [0..<min k (n - b)]"
proof (induction k)
  case (Suc k)
  show ?case
  proof (cases "b + k < n")
    case True
    then have "takeWhile (\<lambda>bi. b + bi < n) [0..<Suc k] = [0..<k] @ [k]" by (subst takeWhile_eq_all_conv [THEN iffD2]) auto
    then show ?thesis using True by (simp add: min_def)
  next
    case False
    have "takeWhile (\<lambda>bi. b + bi < n) [0..<Suc k] = takeWhile (\<lambda>bi. b + bi < n) [0..<k]"
      using False by (cases "\<forall>x \<in> {0..<k}. b + x < n") (auto simp: takeWhile_append takeWhile_eq_all_conv [THEN iffD2])
    moreover have "min (Suc k) (n - b) = min k (n - b)" using False by simp
    ultimately show ?thesis using Suc by simp
  qed
qed simp

lemma scan_Some:
  assumes "balloc_scan n b d = Some bi"
  shows "bi < BPB" "b + bi < unat n" "d ! (bi div 8) AND bit_mask bi = 0" "j < bi \<Longrightarrow> d ! (j div 8) AND bit_mask j \<noteq> 0"
  using assms unfolding balloc_scan_def scan_range by (auto simp: find_Some_iff)

lemma scan_None:
  assumes "balloc_scan n b d = None" and "j < BPB" and "b + j < unat n"
  shows "d ! (j div 8) AND bit_mask j \<noteq> 0"
  using assms unfolding balloc_scan_def scan_range by (auto simp: find_None_iff)


lemma unat_of_nat32: "n < 2 ^ 32 \<Longrightarrow> unat (of_nat n :: u32) = n"
  by (simp add: unsigned_of_nat take_bit_nat_eq_self)

lemma unat32_less: "unat (x :: u32) < 2 ^ 32"
  using unsigned_less [of x, where 'a = nat] by simp

lemma BBLOCK_base:
  assumes "b mod BPB = 0" and "bi < BPB" and "b + bi < 2 ^ 32"
  shows "BBLOCK (of_nat (b + bi)) p = BBLOCK (of_nat b) p"
proof -
  have "unat (of_nat (b + bi) :: u32) = b + bi" "unat (of_nat b :: u32) = b" using assms(3) by (intro unat_of_nat32; simp)+
  moreover have "(b + bi) div BPB = b div BPB" using assms(1,2) by (simp add: div_add1_eq)
  ultimately have "unat (of_nat (b + bi) div 4096 :: u32) = unat (of_nat b div 4096 :: u32)" by (simp only: unat_div_distrib) simp
  then have "of_nat (b + bi) div 4096 = (of_nat b div 4096 :: u32)" by (simp only: word_unat_eq_iff)
  then show ?thesis by (simp add: BBLOCK_def)
qed

lemma bused_base:
  assumes "b mod BPB = 0" and "bi < BPB" and "b + bi < 2 ^ 32"
  shows "bused s (of_nat (b + bi)) \<longleftrightarrow> bview s (BBLOCK (of_nat b) (sb s)) ! (bi div 8) AND bit_mask bi \<noteq> 0"
proof -
  have "unat (of_nat (b + bi) :: u32) = b + bi" using assms(3) by (intro unat_of_nat32)
  moreover have "(b + bi) mod BPB = bi" using assms(1,2) by (metis add_cancel_left_left mod_add_left_eq mod_less)
  ultimately show ?thesis unfolding bused_def BBLOCK_base [OF assms] by simp
qed

lemma BBLOCK_same: "BBLOCK x p = BBLOCK y p \<Longrightarrow> unat x mod BPB = unat y mod BPB \<Longrightarrow> x = y"
proof -
  assume a: "BBLOCK x p = BBLOCK y p" "unat x mod BPB = unat y mod BPB"
  have "x div 4096 = y div 4096" using a(1) by (simp add: BBLOCK_def)
  then have "unat x div BPB = unat y div BPB" using unat_div_distrib [of x 4096] unat_div_distrib [of y 4096] by simp
  then show "x = y" using a(2) by (metis div_mult_mod_eq word_unat_eq_iff)
qed

text \<open>Setting the bit of block \<open>x\<close> and clearing the block.\<close>

definition mark :: "u32 \<Rightarrow> u8 list \<Rightarrow> u8 list" where
  "mark x d = (let n = unat x mod BPB in d[n div 8 := d ! (n div 8) OR bit_mask n])"

lemma bused_mark:
  assumes ok: "fs_ok s" and x: "x < sb_size (sb s)" "\<not> bused s x" and len: "length (bview s (BBLOCK x (sb s))) = BSIZE"
    and t: "bview t = (bview s)(BBLOCK x (sb s) := mark x (bview s (BBLOCK x (sb s))), x := replicate BSIZE 0)" "same_fs s t"
    and y: "y < sb_size (sb s)"
  shows "bused t y \<longleftrightarrow> y = x \<or> bused s y"
proof -
  have sb: "sb t = sb s" using same_fsD(1) [OF t(2)] .
  have ne: "BBLOCK y (sb s) \<noteq> x" by (rule fs_okD(5) [OF ok x y])
  show ?thesis
  proof (cases "BBLOCK y (sb s) = BBLOCK x (sb s)")
    case True
    have "unat y mod BPB = unat x mod BPB \<longleftrightarrow> y = x" using BBLOCK_same [OF True] by auto
    then show ?thesis
      using bit_mask_set [OF len, of "unat y mod BPB" "unat x mod BPB"] ne True
      by (simp add: bused_def sb t(1) mark_def Let_def)
  next
    case False
    then show ?thesis using ne by (auto simp: bused_def sb t(1))
  qed
qed

lemma fs_ok_mark:
  assumes ok: "fs_ok s" and t: "same_fs s t" "tkeep s t" "\<forall>y < sb_size (sb s). bused t y \<longleftrightarrow> y = x \<or> bused s y" and x: "x < sb_size (sb s)"
  shows "fs_ok t"
proof -
  have "0 < sb_size (sb s)" using x by (cases "sb_size (sb s) = 0") (simp_all add: word_gt_0)
  then show ?thesis using ok t same_fsD(1) [OF t(1)] tkeepD [OF t(2)] unfolding fs_ok_def by auto
qed


subsection \<open>The block allocator\<close>

lemma bzero_ok:
  assumes tr: "trans c i s" and b: "b < disksize s" "\<forall>k \<in> held s. blockno (bufs s ! k) \<noteq> b" "\<not> in_log s b" and rm: "room 2 s"
  shows "\<exists>t. bzero 1 b s = Inr t \<and> trans c i t \<and> tkeep s t \<and> same_fs s t \<and> hkeep s t \<and> bview t = (bview s)(b := replicate BSIZE 0) \<and>
    pinned t = insert b (pinned s)"
proof -
  from block_update [OF tr b rm, of "replicate BSIZE 0"] obtain k t u v where
    "bread 1 b s = Inr (k, t)" "log_write k (upd_buf k (\<lambda>x. x\<lparr>bdata := replicate BSIZE 0\<rparr>) t) = Inr u" "brelse k u = Inr v"
    "trans c i v" "tkeep s v" "same_fs s v" "hkeep s v" "bview v = (bview s)(b := replicate BSIZE 0)" "pinned v = insert b (pinned s)"
    by auto
  then show ?thesis by (simp add: bzero_def Let_def)
qed

text \<open>What an allocation of block \<open>x\<close> does.\<close>

definition allocated :: "nat \<Rightarrow> nat \<Rightarrow> u32 \<Rightarrow> 'a fsst_scheme \<Rightarrow> 'a fsst_scheme \<Rightarrow> bool" where
  "allocated c i x s t \<longleftrightarrow> trans c i t \<and> tkeep s t \<and> same_fs s t \<and> hkeep s t \<and>
     bview t = (bview s)(BBLOCK x (sb s) := mark x (bview s (BBLOCK x (sb s))), x := replicate BSIZE 0) \<and>
     pinned t = insert x (insert (BBLOCK x (sb s)) (pinned s))"

lemma balloc_take:
  assumes tr: "trans c i s" and ok: "fs_ok s" and hu: "held_used s" and rm: "room 4 s"
    and b: "b mod BPB = 0" and sc: "balloc_scan (sb_size (sb s)) b (bview s (BBLOCK (of_nat b) (sb s))) = Some bi"
  defines "x \<equiv> of_nat (b + bi)"
  shows "\<exists>t. balloc_loop 1 (b # bs) s = Inr (x, t) \<and> allocated c i x s t"
proof -
  note S = scan_Some [OF sc]
  have lim: "b + bi < 2 ^ 32" using S(2) unat32_less [of "sb_size (sb s)"] by simp
  have ux: "unat x = b + bi" unfolding x_def using lim by (rule unat_of_nat32)
  have x: "x < sb_size (sb s)" using S(2) ux by (simp add: word_less_nat_alt)
  have bb: "BBLOCK x (sb s) = BBLOCK (of_nat b) (sb s)" unfolding x_def by (rule BBLOCK_base [OF b S(1) lim])
  have free: "\<not> bused s x" using S(3) unfolding x_def bused_base [OF b S(1) lim] by simp
  note O = fs_okD [OF ok x]
  let ?d = "bview s (BBLOCK x (sb s))"
  have len: "length ?d = BSIZE" by (rule trans_length [OF tr])
  have m: "mark x ?d = ?d[bi div 8 := ?d ! (bi div 8) OR bit_mask bi]"
    using ux b S(1) by (simp add: mark_def Let_def mod_add_eq [of b BPB bi, symmetric])
  have hb: "\<forall>k \<in> held s. blockno (bufs s ! k) \<noteq> BBLOCK x (sb s)" "\<forall>k \<in> held s. blockno (bufs s ! k) \<noteq> x"
    using hu x free by (auto simp: held_used_def)
  from block_update [OF tr O(2) hb(1) O(3) room_weaken [OF rm], of "mark x ?d"] obtain k t u v where
    t: "bread 1 (BBLOCK x (sb s)) s = Inr (k, t)" "bdata (bufs t ! k) = ?d" "same_fs s t"
      "log_write k (upd_buf k (\<lambda>y. y\<lparr>bdata := mark x ?d\<rparr>) t) = Inr u" "brelse k u = Inr v"
    and v: "trans c i v" "tkeep s v" "same_fs s v" "hkeep s v" "bview v = (bview s)(BBLOCK x (sb s) := mark x ?d)"
      "pinned v = insert (BBLOCK x (sb s)) (pinned s)" using len by (auto simp: mark_def Let_def)
  note D = tkeepD [OF v(2)]
  have rv: "room 2 v" using room_weaken [OF room_insert [of 3 s v "BBLOCK x (sb s)"]] rm v D by (simp add: hkeep_def)
  have "x < disksize v" "\<not> in_log v x" "\<forall>k \<in> held v. blockno (bufs v ! k) \<noteq> x" using O(1,4) free D hb(2) v(4) by (auto simp: hkeep_def)
  from bzero_ok [OF v(1) this(1,3,2) rv] obtain w where
    w: "bzero 1 x v = Inr w" "trans c i w" "tkeep v w" "same_fs v w" "hkeep v w" "bview w = (bview v)(x := replicate BSIZE 0)"
      "pinned w = insert x (pinned v)" by blast
  have "tkeep s w" "same_fs s w" "hkeep s w"
    using tkeep_trans [OF v(2) w(3)] same_fs_trans [OF v(3) w(4)] hkeep_trans [OF v(4) w(5)] .
  then have "allocated c i x s w" using w v by (simp add: allocated_def)
  moreover have "of_nat b + of_nat bi = x" by (simp add: x_def)
  then have "balloc_loop 1 (b # bs) s = Inr (x, w)"
    using t w(1) sc same_fsD(1) [OF t(3)] m bb
    by (simp add: Let_def upd_buf_data [of k "\<lambda>z. z[bi div 8 := z ! (bi div 8) OR bit_mask bi]"])
  ultimately show ?thesis by blast
qed


lemma allocated_ro: "ro c i s t \<Longrightarrow> allocated c i x t u \<Longrightarrow> allocated c i x s u"
  using tkeep_trans [of s t u] same_fs_trans [of s t u] hkeep_trans [of s t u] same_fsD(1) [of s t] by (simp add: allocated_def ro_def)

text \<open>A bitmap block without a free bit is passed over.\<close>

lemma balloc_pass:
  assumes tr: "trans c i s" and ok: "fs_ok s" and hu: "held_used s" and rm: "room 4 s" and b: "b < unat (sb_size (sb s))"
    and sc: "balloc_scan (sb_size (sb s)) b (bview s (BBLOCK (of_nat b) (sb s))) = None"
  shows "\<exists>t. ro c i s t \<and> balloc_loop 1 (b # bs) s = balloc_loop 1 bs t"
proof -
  have x: "(of_nat b :: u32) < sb_size (sb s)"
    using b unat32_less [of "sb_size (sb s)"] by (simp add: word_less_nat_alt unat_of_nat32)
  note O = fs_okD [OF ok x]
  have hb: "\<forall>k \<in> held s. blockno (bufs s ! k) \<noteq> BBLOCK (of_nat b) (sb s)" using hu x by (auto simp: held_used_def)
  from block_peek [OF tr O(2) hb room_weaken [OF rm]] obtain k t u where
    "bread 1 (BBLOCK (of_nat b) (sb s)) s = Inr (k, t)" "bdata (bufs t ! k) = bview s (BBLOCK (of_nat b) (sb s))" "same_fs s t"
    "brelse k t = Inr u" "ro c i s u" by auto
  then show ?thesis using sc same_fsD(1) [of s t] by (intro exI [of _ u]) simp
qed

lemma balloc_loop_ok:
  assumes "trans c i s" and "fs_ok s" and "held_used s" and "room 4 s" and "n = (unat (sb_size (sb s)) + BPB - 1) div BPB"
  shows "if \<exists>y < sb_size (sb s). j0 * BPB \<le> unat y \<and> \<not> bused s y
    then \<exists>x t. balloc_loop 1 (map (\<lambda>j. j * BPB) [j0..<n]) s = Inr (x, t) \<and> x < sb_size (sb s) \<and> \<not> bused s x \<and>
      (\<forall>y < x. j0 * BPB \<le> unat y \<longrightarrow> bused s y) \<and> allocated c i x s t
    else balloc_loop 1 (map (\<lambda>j. j * BPB) [j0..<n]) s = Inl (Panic ''balloc: out of blocks'')"
  using assms
proof (induction "n - j0" arbitrary: j0 s)
  case 0
  have "unat (sb_size (sb s)) \<le> n * BPB" using 0(6) by simp
  moreover have "n * BPB \<le> j0 * BPB" using 0(1) by simp
  ultimately have "\<not> (\<exists>y < sb_size (sb s). j0 * BPB \<le> unat y \<and> \<not> bused s y)" by (auto simp: word_less_nat_alt)
  then show ?case using 0(1) by simp
next
  case (Suc m)
  let ?sz = "unat (sb_size (sb s))" and ?b = "j0 * BPB"
  have j0: "j0 < n" "[j0..<n] = j0 # [Suc j0..<n]" using Suc(2) by (simp_all add: upt_conv_Cons)
  then have b: "?b < ?sz" using Suc(7) by (simp add: less_eq_div_iff_mult_less_eq [symmetric] flip: not_le)
  show ?case
  proof (cases "balloc_scan (sb_size (sb s)) ?b (bview s (BBLOCK (of_nat ?b) (sb s)))")
    case (Some bi)
    define x :: u32 where "x = of_nat (?b + bi)"
    note S = scan_Some [OF Some]
    have lim: "?b + bi < 2 ^ 32" using S(2) unat32_less [of "sb_size (sb s)"] by simp
    have ux: "unat x = ?b + bi" unfolding x_def by (rule unat_of_nat32 [OF lim])
    obtain t where t: "balloc_loop 1 (map (\<lambda>j. j * BPB) [j0..<n]) s = Inr (x, t)" "allocated c i x s t"
      using balloc_take [OF Suc(3-6) _ Some, folded x_def] j0(2) by (auto simp del: balloc_loop.simps)
    have x: "x < sb_size (sb s)" "\<not> bused s x"
      using S(2,3) ux bused_base [OF _ S(1) lim, of s, folded x_def] by (simp_all add: word_less_nat_alt)
    have "bused s y" if "y < x" "?b \<le> unat y" for y
    proof -
      define yi where "yi = unat y - ?b"
      have yi: "unat y = ?b + yi" "yi < bi" using that ux by (simp_all add: yi_def word_less_nat_alt)
      have "y = of_nat (?b + yi)" unfolding yi(1) [symmetric] by simp
      then show ?thesis using bused_base [of ?b yi s] S(1) S(4) [OF yi(2)] yi(2) lim by simp
    qed
    moreover have "\<exists>y < sb_size (sb s). ?b \<le> unat y \<and> \<not> bused s y" using x ux by (intro exI [of _ x]) simp
    ultimately show ?thesis using t x by auto
  next
    case None
    obtain t where t: "ro c i s t" "balloc_loop 1 (map (\<lambda>j. j * BPB) [j0..<n]) s = balloc_loop 1 (map (\<lambda>j. j * BPB) [Suc j0..<n]) t"
      using balloc_pass [OF Suc(3-6) b None] j0(2) by (auto simp del: balloc_loop.simps)
    note R = roD [OF t(1)]
    have sb: "sb t = sb s" "bused t = bused s" using same_fsD(1) [OF R(3)] bused_cong [OF R(5,3)] .
    have used: "bused s y" if "y < sb_size (sb s)" "?b \<le> unat y" "unat y < Suc j0 * BPB" for y
    proof -
      define yi where "yi = unat y - ?b"
      have yi: "unat y = ?b + yi" "yi < BPB" using that by (simp_all add: yi_def)
      have "y = of_nat (?b + yi)" unfolding yi(1) [symmetric] by simp
      then show ?thesis using bused_base [of ?b yi s] scan_None [OF None yi(2)] yi that(1) unat32_less [of y] by (simp add: word_less_nat_alt)
    qed
    have iff: "(\<exists>y < sb_size (sb s). ?b \<le> unat y \<and> \<not> bused s y) \<longleftrightarrow> (\<exists>y < sb_size (sb s). Suc j0 * BPB \<le> unat y \<and> \<not> bused s y)"
      using used by (meson le_trans less_imp_le mult_le_mono1 not_le lessI)
    have F: "fs_ok t" "held_used t" "room 4 t"
      using fs_ok_cong [OF R(5,3,2)] held_used_cong [OF R(5,3,4)] R(8) Suc(4-6) by simp_all
    have "m = n - Suc j0" using Suc(2) by simp
    note IH = Suc(1) [OF this R(1) F, unfolded sb, OF Suc(7)]
    show ?thesis
    proof (cases "\<exists>y < sb_size (sb s). Suc j0 * BPB \<le> unat y \<and> \<not> bused s y")
      case True
      then obtain x u where x: "balloc_loop 1 (map (\<lambda>j. j * BPB) [Suc j0..<n]) t = Inr (x, u)" "x < sb_size (sb s)" "\<not> bused s x"
        "\<forall>y < x. Suc j0 * BPB \<le> unat y \<longrightarrow> bused s y" "allocated c i x t u" using IH by (simp only: if_P) blast
      have "bused s y" if "y < x" "?b \<le> unat y" for y
        using used [of y] x(2,4) that by (meson less_trans not_le)
      then show ?thesis using True iff x t(2) allocated_ro [OF t(1) x(5)] by auto
    next
      case False
      then show ?thesis using IH iff t(2) by (simp only: if_False)
    qed
  qed
qed


definition nfree :: "'a fsst_scheme \<Rightarrow> nat" where
  "nfree s = card {y. y < sb_size (sb s) \<and> \<not> bused s y}"

text \<open>A block that the bitmap calls used and that is no bitmap or log block: one that may belong to a file.\<close>

definition dblk :: "'a fsst_scheme \<Rightarrow> u32 \<Rightarrow> bool" where
  "dblk s a \<longleftrightarrow> a < sb_size (sb s) \<and> bused s a \<and> \<not> in_log s a \<and> (\<forall>y < sb_size (sb s). BBLOCK y (sb s) \<noteq> a)"

lemma dblk_cong: "bview t = bview s \<Longrightarrow> same_fs s t \<Longrightarrow> tkeep s t \<Longrightarrow> dblk t a = dblk s a"
  using same_fsD(1) [of s t] bused_cong [of t s] tkeepD [of s t] by (simp add: dblk_def)

lemma nfree_cong: "bview t = bview s \<Longrightarrow> same_fs s t \<Longrightarrow> nfree t = nfree s"
  using same_fsD(1) [of s t] bused_cong [of t s] by (simp add: nfree_def)

text \<open>A write to a block of a file does not change the bitmap.\<close>

lemma dblk_write:
  assumes a: "dblk s a" and t: "bview t = (bview s)(a := d)" "same_fs s t" "tkeep s t"
  shows "dblk t x = dblk s x" "fs_ok t = fs_ok s" "nfree t = nfree s"
proof -
  note sb = same_fsD(1) [OF t(2)] and D = tkeepD [OF t(3)]
  have u: "bused t y = bused s y" if "y < sb_size (sb s)" for y using a that sb by (auto simp: bused_def t(1) dblk_def)
  have "a < sb_size (sb s)" using a by (simp add: dblk_def)
  then have "0 < sb_size (sb s)" by (cases "sb_size (sb s) = 0") (simp_all add: word_gt_0)
  then show "dblk t x = dblk s x" "fs_ok t = fs_ok s" using u sb D unfolding dblk_def fs_ok_def by auto
  show "nfree t = nfree s" unfolding nfree_def sb by (rule arg_cong [where f = card]) (use u in auto)
qed

lemma allocated_facts:
  assumes ok: "fs_ok s" and x: "x < sb_size (sb s)" "\<not> bused s x" and len: "length (bview s (BBLOCK x (sb s))) = BSIZE" and t: "allocated c i x s t"
  shows "fs_ok t" "dblk t x" "x \<noteq> 0" "bview t x = replicate BSIZE 0" "Suc (nfree t) = nfree s"
    "dblk s a \<Longrightarrow> a \<noteq> x" "dblk s a \<Longrightarrow> dblk t a" "dblk s a \<Longrightarrow> bview t a = bview s a"
proof -
  have t': "same_fs s t" "tkeep s t" "bview t = (bview s)(BBLOCK x (sb s) := mark x (bview s (BBLOCK x (sb s))), x := replicate BSIZE 0)"
    using t by (simp_all add: allocated_def)
  note O = fs_okD [OF ok x(1)] and sb = same_fsD(1) [OF t'(1)] and D = tkeepD [OF t'(2)]
  have u: "bused t y \<longleftrightarrow> y = x \<or> bused s y" if "y < sb_size (sb s)" for y
    by (rule bused_mark [OF ok x len t'(3,1) that])
  show "fs_ok t" using fs_ok_mark [OF ok t'(1,2) _ x(1)] u by blast
  show "dblk t x" using O(4,5) x u [OF x(1)] sb D(6) by (simp add: dblk_def)
  show "x \<noteq> 0" using ok x by (auto simp: fs_ok_def)
  show "bview t x = replicate BSIZE 0" by (simp add: t'(3))
  have "{y. y < sb_size (sb s) \<and> \<not> bused s y} = insert x {y. y < sb_size (sb t) \<and> \<not> bused t y}" using u x sb by auto
  moreover have "x \<notin> {y. y < sb_size (sb t) \<and> \<not> bused t y}" using u [OF x(1)] by simp
  ultimately show "Suc (nfree t) = nfree s" by (simp add: nfree_def)
  show "dblk s a \<Longrightarrow> a \<noteq> x" "dblk s a \<Longrightarrow> dblk t a" using x u sb D(6) by (auto simp: dblk_def)
  show "dblk s a \<Longrightarrow> bview t a = bview s a" using x O(5) unfolding t'(3) by (auto simp: dblk_def)
qed

lemma balloc_ok:
  assumes tr: "trans c i s" and ok: "fs_ok s" and hu: "held_used s" and rm: "room 4 s"
  shows "if 0 < nfree s
    then \<exists>x t. balloc 1 s = Inr (x, t) \<and> x < sb_size (sb s) \<and> \<not> bused s x \<and> (\<forall>y < x. bused s y) \<and> allocated c i x s t
    else balloc 1 s = Inl (Panic ''balloc: out of blocks'')"
proof -
  have iff: "0 < nfree s \<longleftrightarrow> (\<exists>y < sb_size (sb s). \<not> bused s y)" by (auto simp: nfree_def card_gt_0_iff)
  show ?thesis unfolding iff balloc_def using balloc_loop_ok [OF assms refl, of 0] by (simp only: mult_0 le0 simp_thms)
qed


subsection \<open>The block map of an inode\<close>

text \<open>Changes of in-memory inodes do not touch the layers below.\<close>

lemma at_proc_inodes [simp]: "at_proc c i (s\<lparr>inodes := v\<rparr>) = at_proc c i s"
  by (rule at_proc_cong) simp_all

lemma bcache_inodes [simp]:
  "bcache_ok (s\<lparr>inodes := v\<rparr>) = bcache_ok s" "bview (s\<lparr>inodes := v\<rparr>) = bview s" "held (s\<lparr>inodes := v\<rparr>) = held s"
  "pinned (s\<lparr>inodes := v\<rparr>) = pinned s" "in_log (s\<lparr>inodes := v\<rparr>) b = in_log s b" "log_ok n (s\<lparr>inodes := v\<rparr>) = log_ok n s"
  "same_procs s (t\<lparr>inodes := v\<rparr>) = same_procs s t"
  by (rule bcache_ok_cong view_cong; simp)+ (simp_all add: in_log_def log_ok_def same_procs_def)

lemma fs_inodes [simp]:
  "trans c i (s\<lparr>inodes := v\<rparr>) = trans c i s" "tkeep s (t\<lparr>inodes := v\<rparr>) = tkeep s t" "hkeep s (t\<lparr>inodes := v\<rparr>) = hkeep s t"
  "room m (s\<lparr>inodes := v\<rparr>) = room m s" "bused (s\<lparr>inodes := v\<rparr>) = bused s" "nfree (s\<lparr>inodes := v\<rparr>) = nfree s"
  "fs_ok (s\<lparr>inodes := v\<rparr>) = fs_ok s" "dblk (s\<lparr>inodes := v\<rparr>) a = dblk s a" "held_used (s\<lparr>inodes := v\<rparr>) = held_used s"
  by (simp_all add: trans_def bio_def tkeep_def hkeep_def room_def bused_def nfree_def fs_ok_def dblk_def held_used_def fun_eq_iff)

lemma upd_inode_sel [simp]:
  "inodes (upd_inode k f s) = (inodes s)[k := f (inodes s ! k)]" "sb (upd_inode k f s) = sb s" "bufs (upd_inode k f s) = bufs s"
  by (simp_all add: upd_inode_def)

text \<open>Block \<open>n\<close> of the file with the in-memory inode \<open>k\<close>, \<open>0\<close> if it has none, and its indirect block.\<close>

abbreviation (input) MAXFILE :: nat where "MAXFILE \<equiv> 140"

definition ind :: "'a fsst_scheme \<Rightarrow> nat \<Rightarrow> u32" where
  "ind s k = addrs (inodes s ! k) ! NDIRECT"

definition blk :: "'a fsst_scheme \<Rightarrow> nat \<Rightarrow> nat \<Rightarrow> u32" where
  "blk s k n = (if n < NDIRECT then addrs (inodes s ! k) ! n
     else if ind s k = 0 then 0 else get32 (bview s (ind s k)) (4 * (n - NDIRECT)))"

text \<open>A file whose blocks are marked used, differ from each other and from the indirect block, and are no bitmap or log blocks.\<close>

definition file_ok :: "'a fsst_scheme \<Rightarrow> nat \<Rightarrow> bool" where
  "file_ok s k \<longleftrightarrow> k < length (inodes s) \<and> idev (inodes s ! k) = 1 \<and> length (addrs (inodes s ! k)) = NDIRECT + 1 \<and>
     (ind s k \<noteq> 0 \<longrightarrow> dblk s (ind s k)) \<and>
     (\<forall>n < MAXFILE. blk s k n \<noteq> 0 \<longrightarrow> dblk s (blk s k n) \<and> blk s k n \<noteq> ind s k \<and> (\<forall>m < MAXFILE. m \<noteq> n \<longrightarrow> blk s k m \<noteq> blk s k n))"

lemma file_okD:
  assumes "file_ok s k"
  shows "k < length (inodes s)" "idev (inodes s ! k) = 1" "length (addrs (inodes s ! k)) = NDIRECT + 1" "ind s k \<noteq> 0 \<Longrightarrow> dblk s (ind s k)"
    "n < MAXFILE \<Longrightarrow> blk s k n \<noteq> 0 \<Longrightarrow> dblk s (blk s k n)" "n < MAXFILE \<Longrightarrow> blk s k n \<noteq> 0 \<Longrightarrow> blk s k n \<noteq> ind s k"
    "n < MAXFILE \<Longrightarrow> m < MAXFILE \<Longrightarrow> blk s k n \<noteq> 0 \<Longrightarrow> m \<noteq> n \<Longrightarrow> blk s k m \<noteq> blk s k n"
  using assms unfolding file_ok_def by blast+

text \<open>The blocks of a file, the indirect block included.\<close>

definition owned :: "'a fsst_scheme \<Rightarrow> nat \<Rightarrow> u32 set" where
  "owned s k = ({blk s k n | n. n < MAXFILE} \<union> {ind s k}) - {0}"

text \<open>The effect of a step on a file: its block map gets at most new entries, with blocks that were not in use, the contents of no block that is in use
  change apart from those in \<open>W\<close>, and at most \<open>p\<close> blocks are logged and \<open>f\<close> blocks allocated.\<close>

definition fstep :: "nat \<Rightarrow> nat \<Rightarrow> nat \<Rightarrow> u32 set \<Rightarrow> nat \<Rightarrow> nat \<Rightarrow> 'a fsst_scheme \<Rightarrow> 'a fsst_scheme \<Rightarrow> bool" where
  "fstep c i k W p f s t \<longleftrightarrow> trans c i t \<and> tkeep s t \<and> held t = held s \<and> sb t = sb s \<and> fsst.more t = fsst.more s \<and>
     (\<exists>as. inodes t = (inodes s)[k := (inodes s ! k)\<lparr>addrs := as\<rparr>]) \<and> fs_ok t \<and> file_ok t k \<and>
     (\<forall>n < MAXFILE. blk s k n \<noteq> 0 \<longrightarrow> blk t k n = blk s k n) \<and> (ind s k \<noteq> 0 \<longrightarrow> ind t k = ind s k) \<and>
     (\<forall>a \<in> owned t k. a \<in> owned s k \<or> \<not> dblk s a) \<and>
     (\<forall>a. dblk s a \<longrightarrow> dblk t a \<and> (a \<notin> W \<longrightarrow> bview t a = bview s a)) \<and>
     card (pinned t) \<le> card (pinned s) + p \<and> nfree s \<le> nfree t + f"

lemma fstepD:
  assumes "fstep c i k W p f s t"
  shows "trans c i t" "tkeep s t" "held t = held s" "sb t = sb s" "fsst.more t = fsst.more s"
    "\<exists>as. inodes t = (inodes s)[k := (inodes s ! k)\<lparr>addrs := as\<rparr>]" "fs_ok t" "file_ok t k"
    "n < MAXFILE \<Longrightarrow> blk s k n \<noteq> 0 \<Longrightarrow> blk t k n = blk s k n" "dblk s a \<Longrightarrow> dblk t a" "dblk s a \<Longrightarrow> a \<notin> W \<Longrightarrow> bview t a = bview s a"
    "card (pinned t) \<le> card (pinned s) + p" "nfree s \<le> nfree t + f" "ind s k \<noteq> 0 \<Longrightarrow> ind t k = ind s k"
    "a \<in> owned t k \<Longrightarrow> a \<in> owned s k \<or> \<not> dblk s a"
  using assms unfolding fstep_def by blast+

lemma fstep_room: "fstep c i k W p f s t \<Longrightarrow> room (p + m) s \<Longrightarrow> room m t"
  using fstepD(12) [of c i k W p f s t] fstepD(3) [of c i k W p f s t] tkeepD(3) [OF fstepD(2) [of c i k W p f s t]] by (simp add: room_def)

lemma fstep_trans:
  assumes a: "fstep c i k V p f s t" and b: "fstep c i k W q g t u"
  shows "fstep c i k (V \<union> W) (p + q) (f + g) s u"
proof -
  note A = fstepD [OF a] and B = fstepD [OF b]
  obtain as bs where "inodes t = (inodes s)[k := (inodes s ! k)\<lparr>addrs := as\<rparr>]" "inodes u = (inodes t)[k := (inodes t ! k)\<lparr>addrs := bs\<rparr>]"
    using A(6) B(6) by blast
  then have "\<exists>as. inodes u = (inodes s)[k := (inodes s ! k)\<lparr>addrs := as\<rparr>]" using file_okD(1) [OF A(8)] by auto
  moreover have "blk u k n = blk s k n" if "n < MAXFILE" "blk s k n \<noteq> 0" for n using A(9) [OF that] B(9) [OF that(1)] that(2) by simp
  moreover have "dblk s x \<longrightarrow> dblk u x \<and> (x \<notin> V \<union> W \<longrightarrow> bview u x = bview s x)" for x using A(10,11) [of x] B(10,11) [of x] by auto
  moreover have "card (pinned u) \<le> card (pinned s) + (p + q)" "nfree s \<le> nfree u + (f + g)" using A(12,13) B(12,13) by simp_all
  moreover have "ind s k \<noteq> 0 \<longrightarrow> ind u k = ind s k" using A(14) B(14) by auto
  moreover have "\<forall>a \<in> owned u k. a \<in> owned s k \<or> \<not> dblk s a" using A(10,15) B(15) by blast
  ultimately show ?thesis using A(3-5) B(1,3-5,7,8) tkeep_trans [OF A(2) B(2)] unfolding fstep_def by simp
qed

lemma fstep_weaken: "fstep c i k V p f s t \<Longrightarrow> V \<subseteq> W \<Longrightarrow> p \<le> q \<Longrightarrow> f \<le> g \<Longrightarrow> fstep c i k W q g s t"
  unfolding fstep_def by (auto intro: order_trans)


lemma file_ok_add:
  assumes ok: "file_ok s k" and x: "dblk u x" "\<not> dblk s x" and keep: "\<And>a. dblk s a \<Longrightarrow> dblk u a"
    and u: "k < length (inodes u)" "idev (inodes u ! k) = 1" "length (addrs (inodes u ! k)) = NDIRECT + 1"
    and ind: "ind u k = ind s k \<or> ind u k = x"
    and blk: "\<And>n. n < MAXFILE \<Longrightarrow> blk u k n = blk s k n \<or> n = bn \<and> blk u k n = x \<and> ind u k = ind s k"
  shows "file_ok u k"
proof -
  note F = file_okD [OF ok]
  have i: "dblk u (ind u k)" if "ind u k \<noteq> 0" using ind F(4) keep x(1) that by auto
  have "dblk u (blk u k n)" "blk u k n \<noteq> ind u k" "m < MAXFILE \<Longrightarrow> m \<noteq> n \<Longrightarrow> blk u k m \<noteq> blk u k n"
    if n: "n < MAXFILE" "blk u k n \<noteq> 0" for n m
  proof -
    consider "blk u k n = blk s k n" | "n = bn" "blk u k n = x" "ind u k = ind s k" using blk [OF n(1)] by blast
    then have "dblk u (blk u k n) \<and> blk u k n \<noteq> ind u k \<and> (m < MAXFILE \<longrightarrow> m \<noteq> n \<longrightarrow> blk u k m \<noteq> blk u k n)"
    proof cases
      case 1
      then have d: "dblk s (blk s k n)" using F(5) n by simp
      moreover have "blk u k m \<noteq> blk u k n" if "m < MAXFILE" "m \<noteq> n" using blk [OF that(1)] F(7) [OF n(1) that(1)] d x(2) that 1 n(2) by auto
      ultimately show ?thesis using keep [OF d] F(6) [OF n(1)] n ind x(2) 1 by auto
    next
      case 2
      have "x \<noteq> ind s k" using F(4) x(2) 2 n(2) by auto
      moreover have "blk u k m \<noteq> x" if "m < MAXFILE" "m \<noteq> n"
        using blk [OF that(1)] F(5) [OF that(1)] x(2) 2 that n(2) by (cases "blk s k m = 0") auto
      ultimately show ?thesis using x(1) 2 by auto
    qed
    then show "dblk u (blk u k n)" "blk u k n \<noteq> ind u k" "m < MAXFILE \<Longrightarrow> m \<noteq> n \<Longrightarrow> blk u k m \<noteq> blk u k n" by auto
  qed
  then show ?thesis using u i unfolding file_ok_def by blast
qed

lemma get32_zeros: "n + 3 < m \<Longrightarrow> get32 (replicate m 0) n = 0"
  by (simp add: get32_def)

text \<open>An allocated block is entered among the addresses of the inode: as block \<open>bn\<close>, or as the indirect block.\<close>

lemma enter_addr:
  assumes ok: "fs_ok s" "file_ok s k" and x: "x < sb_size (sb s)" "\<not> bused s x" and t: "trans c i s" "allocated c i x s t"
    and j: "j \<le> NDIRECT" "addrs (inodes s ! k) ! j = 0"
  defines "u \<equiv> upd_inode k (\<lambda>ip. ip\<lparr>addrs := (addrs ip)[j := x]\<rparr>) t"
  shows "fstep c i k {} 2 1 s u" "addrs (inodes u ! k) ! j = x" "bview u x = replicate BSIZE 0" "x \<noteq> 0" "\<not> dblk s x"
    "\<And>n. n < MAXFILE \<Longrightarrow> blk u k n = (if n = j \<and> j < NDIRECT then x else blk s k n)"
proof -
  note A = allocated_facts [OF ok(1) x trans_length [OF t(1)] t(2)] and F = file_okD [OF ok(2)]
  have T: "trans c i t" "tkeep s t" "same_fs s t" "hkeep s t" "pinned t = insert x (insert (BBLOCK x (sb s)) (pinned s))"
    using t(2) by (simp_all add: allocated_def)
  note I = same_fsD [OF T(3)]
  have u: "bview u = bview t" "addrs (inodes u ! k) = (addrs (inodes s ! k))[j := x]" "inodes u = (inodes s)[k := (inodes s ! k)\<lparr>addrs := (addrs (inodes s ! k))[j := x]\<rparr>]"
    using F(1) I(2) by (simp_all add: u_def upd_inode_def)
  show "addrs (inodes u ! k) ! j = x" using u(2) F(3) j(1) by simp
  show "bview u x = replicate BSIZE 0" "x \<noteq> 0" "\<not> dblk s x" using A(3,4,6) u(1) by auto
  have iu: "ind u k = (if j = NDIRECT then x else ind s k)" using u(2) F(3) j(1) by (simp add: ind_def)
  show blk: "blk u k n = (if n = j \<and> j < NDIRECT then x else blk s k n)" if n: "n < MAXFILE" for n
  proof (cases "n < NDIRECT")
    case True
    then show ?thesis using u(2) F(3) j by (auto simp: blk_def)
  next
    case False
    then have off: "4 * (n - NDIRECT) + 3 < BSIZE" using n by simp
    show ?thesis
    proof (cases "j = NDIRECT")
      case True
      then have "ind s k = 0" "ind u k = x" using j(2) iu by (simp_all add: ind_def)
      then show ?thesis using False True \<open>bview u x = _\<close> \<open>x \<noteq> 0\<close> get32_zeros [OF off] by (simp add: blk_def)
    next
      case False
      then have "ind u k = ind s k" using iu by simp
      then show ?thesis using \<open>\<not> n < NDIRECT\<close> j A(8) [of "ind s k"] F(4) u(1) by (auto simp: blk_def)
    qed
  qed
  have dt: "dblk u a = dblk t a" "fs_ok u = fs_ok t" "nfree u = nfree t" for a by (simp_all add: u_def upd_inode_def)
  have "file_ok u k"
  proof (rule file_ok_add [OF ok(2), of u x j])
    show "dblk u x" "\<not> dblk s x" using A(2) dt \<open>\<not> dblk s x\<close> by simp_all
    show "dblk s a \<Longrightarrow> dblk u a" for a using A(7) dt by simp
    show "k < length (inodes u)" "idev (inodes u ! k) = 1" "length (addrs (inodes u ! k)) = NDIRECT + 1" using u F(1-3) by simp_all
    show "ind u k = ind s k \<or> ind u k = x" using iu by simp
    show "blk u k n = blk s k n \<or> n = j \<and> blk u k n = x \<and> ind u k = ind s k" if "n < MAXFILE" for n using blk [OF that] iu by auto
  qed
  moreover have "card (pinned t) \<le> card (pinned s) + 2" unfolding T(5) by (simp add: card_insert_if)
  moreover have "blk u k n = blk s k n" if "n < MAXFILE" "blk s k n \<noteq> 0" for n using blk [OF that(1)] that(2) j(2) by (auto simp: blk_def)
  moreover have "fsst.more u = fsst.more s" "sb u = sb s" "trans c i u" "tkeep s u" "held u = held s" "pinned u = pinned t"
    using I T by (simp_all add: u_def upd_inode_def hkeep_def)
  moreover have "ind s k \<noteq> 0 \<longrightarrow> ind u k = ind s k" using iu j(2) by (auto simp: ind_def)
  moreover have "owned u k \<subseteq> insert x (owned s k)" using blk iu by (auto simp: owned_def split: if_splits)
  then have "\<forall>a \<in> owned u k. a \<in> owned s k \<or> \<not> dblk s a" using \<open>\<not> dblk s x\<close> by blast
  ultimately show "fstep c i k {} 2 1 s u" unfolding fstep_def using u(1,3) A(1,5,7,8) dt by auto
qed


lemma blk_cong: "bview t = bview s \<Longrightarrow> inodes t = inodes s \<Longrightarrow> blk t k n = blk s k n \<and> ind t k = ind s k"
  by (simp add: blk_def ind_def)

lemma file_ok_cong:
  assumes "bview t = bview s" and "same_fs s t" and "tkeep s t"
  shows "file_ok t k = file_ok s k"
  using blk_cong [OF assms(1) same_fsD(2) [OF assms(2)]] dblk_cong [OF assms] same_fsD(2) [OF assms(2)] by (simp add: file_ok_def)

lemma ro_fstep:
  assumes "ro c i s t" and "fs_ok s" and "file_ok s k"
  shows "fstep c i k {} 0 0 s t"
proof -
  note R = roD [OF assms(1)]
  note I = same_fsD [OF R(3)]
  have "\<exists>as. inodes t = (inodes s)[k := (inodes s ! k)\<lparr>addrs := as\<rparr>]" using I(2) by (intro exI [of _ "addrs (inodes s ! k)"]) simp
  moreover have "owned t k = owned s k" using blk_cong [OF R(5) I(2)] by (simp add: owned_def)
  ultimately show ?thesis
    using R I assms(2,3) fs_ok_cong [OF R(5,3,2)] file_ok_cong [OF R(5,3,2)] blk_cong [OF R(5) I(2)] dblk_cong [OF R(5,3,2)] nfree_cong [OF R(5,3)]
    by (simp add: fstep_def)
qed

lemma file_ok_ind:
  assumes "file_ok s k" and "ind s k \<noteq> 0" and "fs_ok s"
  shows "ind s k < disksize s" "\<not> in_log s (ind s k)"
  using file_okD(4) [OF assms(1,2)] assms(3) by (auto simp: dblk_def fs_ok_def intro: less_le_trans)

text \<open>The last part of \<^verbatim>\<open>bmap\<close>: entry \<open>n\<close> of the indirect block, which is there.\<close>

definition bmap_indirect :: "nat \<Rightarrow> nat \<Rightarrow> u32 \<Rightarrow> 'a fsst_scheme \<Rightarrow> 'a fsst_scheme fault + u32 \<times> 'a fsst_scheme" where
  "bmap_indirect k n a s =
     kbind (bread (idev (inodes s ! k)) a s) (\<lambda>(bp, s).
     let a = get32 (bdata (bufs s ! bp)) (4 * n) in
     kbind (if a = 0 then
          kbind (balloc (idev (inodes s ! k)) s) (\<lambda>(a, s).
          kbind (log_write bp (upd_buf bp (\<lambda>x. x\<lparr>bdata := put32 (4 * n) a (bdata x)\<rparr>) s)) (\<lambda>s.
          Inr (a, s)))
        else Inr (a, s)) (\<lambda>(a, s).
     kbind (brelse bp s) (\<lambda>s. Inr (a, s))))"

lemma bmap_indirect_hit:
  assumes "trans c i s" and "fs_ok s" and "file_ok s k" and "held s = {}" and "room 0 s" and "ind s k \<noteq> 0"
    and "NDIRECT \<le> n" and "blk s k n \<noteq> 0"
  shows "\<exists>t. bmap_indirect k (n - NDIRECT) (ind s k) s = Inr (blk s k n, t) \<and> ro c i s t"
proof -
  obtain bp t u where t: "bread 1 (ind s k) s = Inr (bp, t)" "bdata (bufs t ! bp) = bview s (ind s k)" "same_fs s t" "brelse bp t = Inr u" "ro c i s u"
    using block_peek [OF assms(1) file_ok_ind(1) [OF assms(3,6,2)] _ assms(5)] assms(4) by auto
  then show ?thesis
    using assms(6-8) file_okD(2) [OF assms(3)] by (intro exI [of _ u]) (simp add: bmap_indirect_def Let_def blk_def)
qed

lemma bmap_indirect_new:
  assumes tr: "trans c i s" and ok: "fs_ok s" and fok: "file_ok s k" and h: "held s = {}" and rm: "room 5 s" and ind: "ind s k \<noteq> 0"
    and n: "NDIRECT \<le> n" "n < MAXFILE" "blk s k n = 0" and fr: "0 < nfree s"
  shows "\<exists>x t. bmap_indirect k (n - NDIRECT) (ind s k) s = Inr (x, t) \<and> fstep c i k {ind s k} 3 1 s t \<and> x \<noteq> 0 \<and> blk t k n = x \<and>
    bview t x = replicate BSIZE 0 \<and> \<not> dblk s x \<and> ind t k = ind s k \<and> (\<forall>m < MAXFILE. m \<noteq> n \<longrightarrow> blk t k m = blk s k m)"
proof -
  note F = file_okD [OF fok] and I = file_ok_ind [OF fok ind ok]
  let ?a = "ind s k" and ?d = "bview s (ind s k)" and ?o = "4 * (n - NDIRECT)"
  obtain bp t where t: "bread 1 ?a s = Inr (bp, t)" "trans c i t" "tkeep s t" "same_fs s t" "held t = {bp}" "blockno (bufs t ! bp) = ?a"
    "bdata (bufs t ! bp) = ?d" "bview t = bview s" "pinned t = pinned s" using block_read [OF tr I(1) _ room_weaken [OF rm]] h by auto
  note D = tkeepD [OF t(3)] and st = same_fsD [OF t(4)]
  have "room 4 t" by (rule room_hold [OF _ _ t(9) D(3)]) (use rm h t(5) in simp_all)
  moreover have "held_used t" using F(4) [OF ind] t(5,6) st bused_cong [OF t(8,4)] by (auto simp: held_used_def dblk_def)
  moreover have okt: "fs_ok t" using fs_ok_cong [OF t(8,4,3)] ok by simp
  moreover have "0 < nfree t" using nfree_cong [OF t(8,4)] fr by simp
  ultimately obtain x u where x: "balloc 1 t = Inr (x, u)" "x < sb_size (sb t)" "\<not> bused t x" "allocated c i x t u"
    using balloc_ok [OF t(2), of] by auto
  have u: "trans c i u" "tkeep t u" "same_fs t u" "hkeep t u" "pinned u = insert x (insert (BBLOCK x (sb t)) (pinned t))"
    using x(4) by (simp_all add: allocated_def)
  note A = allocated_facts [OF okt x(2,3) trans_length [OF t(2)] x(4)]
  have dt: "dblk t a = dblk s a" for a by (rule dblk_cong [OF t(8,4,3)])
  have ua: "bview u ?a = ?d" "bufs u ! bp = bufs t ! bp" "held u = {bp}" using A(8) dt F(4) [OF ind] t(5,8) u(4) by (auto simp: hkeep_def)
  define d where "d = put32 ?o x ?d"
  have ld: "length d = BSIZE" unfolding d_def using trans_length [OF tr] by simp
  have ru: "room 1 u"
    using \<open>room 4 t\<close> u(4,5) tkeepD(3) [OF u(2)] by (simp add: room_def hkeep_def card_insert_if split: if_splits)
  obtain v where v: "log_write bp (upd_buf bp (\<lambda>y. y\<lparr>bdata := d\<rparr>) u) = Inr v" "trans c i v" "tkeep u v" "same_fs u v" "held v = held u"
    "bview v = (bview u)(?a := d)" "pinned v = insert ?a (pinned u)" "blockno (bufs v ! bp) = ?a" "bdirty (bufs v ! bp)"
    using block_log [OF u(1) _ _ _ ld ru, of bp ?a] ua t(6) tkeepD(6) [OF u(2)] D(6) I(2) by auto
  obtain w where w: "brelse bp v = Inr w" "trans c i w" "tkeep v w" "same_fs v w" "held w = held v - {bp}" "bview w = bview v" "pinned w = pinned v"
    using block_release [OF v(2), of bp] v(5,9) ua(3) by auto
  have code: "bmap_indirect k (n - NDIRECT) ?a s = Inr (x, w)"
    using t(1,7) x(1) v(1) w(1) F(2) st(2) ind n ua
    by (simp add: bmap_indirect_def Let_def blk_def upd_buf_data [of bp "put32 ?o x"] d_def)
  have kw: "tkeep s w" "same_fs s w"
    using tkeep_trans [OF tkeep_trans [OF tkeep_trans [OF t(3) u(2)] v(3)] w(3)]
      same_fs_trans [OF same_fs_trans [OF same_fs_trans [OF t(4) u(3)] v(4)] w(4)] .
  note sw = same_fsD [OF kw(2)]
  have bw: "bview w = (bview u)(?a := d)" using v(6) w(6) by simp
  have xa: "x \<noteq> ?a" "\<not> dblk s x" "x \<noteq> 0" using A(3,6) dt F(4) [OF ind] by auto
  have uw: "same_fs u w" "tkeep u w" using same_fs_trans [OF v(4) w(4)] tkeep_trans [OF v(3) w(3)] .
  have "dblk u ?a" using A(7) dt F(4) [OF ind] by simp
  note W = dblk_write [OF this bw uw]
  have iw: "ind w k = ?a" using sw(2) by (simp add: ind_def)
  have blk: "blk w k m = (if m = n then x else blk s k m)" if m: "m < MAXFILE" for m
  proof (cases "m < NDIRECT")
    case True
    then show ?thesis using n(1) sw(2) by (simp add: blk_def)
  next
    case False
    have "m \<noteq> n \<Longrightarrow> 4 * (m - NDIRECT) + 4 \<le> ?o \<or> ?o + 4 \<le> 4 * (m - NDIRECT)" using n(1) False by presburger
    then have "get32 d (4 * (m - NDIRECT)) = (if m = n then x else get32 ?d (4 * (m - NDIRECT)))"
      using n(1,2) trans_length [OF tr, of ?a] False by (auto simp: d_def get32_put_other(1))
    then show ?thesis using False ind by (simp add: blk_def iw bw)
  qed
  have "file_ok w k"
  proof (rule file_ok_add [OF fok, of w x n])
    show "dblk w x" "\<not> dblk s x" using A(2) W(1) xa(2) by simp_all
    show "dblk s a \<Longrightarrow> dblk w a" for a using A(7) dt W(1) by simp
    show "k < length (inodes w)" "idev (inodes w ! k) = 1" "length (addrs (inodes w ! k)) = NDIRECT + 1" using sw(2) F(1-3) by simp_all
  qed (use iw blk in auto)
  moreover have "card (pinned w) \<le> card (pinned s) + 3" using w(7) v(7) u(5) t(9) by (simp add: card_insert_if)
  moreover have "nfree s \<le> nfree w + 1" using A(5) W(3) nfree_cong [OF t(8,4)] by simp
  moreover have "dblk s a \<longrightarrow> dblk w a \<and> (a \<notin> {?a} \<longrightarrow> bview w a = bview s a)" for a using A(7,8) dt W(1) bw t(8) by simp
  moreover have "\<exists>as. inodes w = (inodes s)[k := (inodes s ! k)\<lparr>addrs := as\<rparr>]" using sw(2) by (intro exI [of _ "addrs (inodes s ! k)"]) simp
  moreover have "held w = held s" "fs_ok w" using w(5) v(5) ua(3) h A(1) W(2) by auto
  moreover have "blk w k m = blk s k m" if "m < MAXFILE" "blk s k m \<noteq> 0" for m using blk [OF that(1)] that n(3) by auto
  moreover have "owned w k \<subseteq> insert x (owned s k)" using blk iw by (auto simp: owned_def split: if_splits)
  then have "\<forall>a \<in> owned w k. a \<in> owned s k \<or> \<not> dblk s a" using xa(2) by blast
  ultimately have "fstep c i k {?a} 3 1 s w" using w(2) kw(1) sw iw unfolding fstep_def by blast
  moreover have "bview w x = replicate BSIZE 0" using A(4) bw xa(1) by simp
  ultimately show ?thesis using code blk xa iw n(2) by auto
qed


lemma bmap_split:
  assumes "\<not> bn < NDIRECT" and "bn < MAXFILE"
  shows "bmap k bn s =
    kbind (if ind s k = 0 then
        kbind (balloc (idev (inodes s ! k)) s) (\<lambda>(a, s). Inr (a, upd_inode k (\<lambda>ip. ip\<lparr>addrs := (addrs ip)[NDIRECT := a]\<rparr>) s))
      else Inr (ind s k, s)) (\<lambda>(a, s). bmap_indirect k (bn - NDIRECT) a s)"
proof -
  have "bn - NDIRECT < NINDIRECT" using assms by simp
  then show ?thesis using assms(1) by (simp add: bmap_def bmap_indirect_def ind_def Let_def)
qed

text \<open>\<^verbatim>\<open>bmap\<close> of a block that is there only reads.\<close>

lemma bmap_hit:
  assumes "trans c i s" and "fs_ok s" and "file_ok s k" and "held s = {}" and "room 0 s" and "bn < MAXFILE" and "blk s k bn \<noteq> 0"
  shows "\<exists>t. bmap k bn s = Inr (blk s k bn, t) \<and> ro c i s t"
proof (cases "bn < NDIRECT")
  case True
  then show ?thesis using assms(7) ro_refl [OF assms(1)] by (simp add: bmap_def blk_def)
next
  case False
  then have "ind s k \<noteq> 0" using assms(7) by (auto simp: blk_def)
  then show ?thesis using bmap_indirect_hit [OF assms(1-5)] assms(7) False bmap_split [OF False assms(6), of k s] by simp
qed

lemma bmap_ok:
  assumes tr: "trans c i s" and ok: "fs_ok s" and fok: "file_ok s k" and h: "held s = {}" and rm: "room 7 s" and bn: "bn < MAXFILE"
    and fr: "2 \<le> nfree s"
  shows "\<exists>t. bmap k bn s = Inr (blk t k bn, t) \<and> fstep c i k ({ind t k} - {0}) 5 2 s t \<and> blk t k bn \<noteq> 0 \<and>
    (blk s k bn = 0 \<longrightarrow> bview t (blk t k bn) = replicate BSIZE 0 \<and> \<not> dblk s (blk t k bn)) \<and>
    (\<forall>m < MAXFILE. m \<noteq> bn \<longrightarrow> blk t k m = blk s k m)"
proof (cases "blk s k bn = 0")
  case False
  then obtain t where t: "bmap k bn s = Inr (blk s k bn, t)" "ro c i s t"
    using bmap_hit [OF tr ok fok h room_weaken [OF rm] bn] by auto
  have "blk t k m = blk s k m" for m using blk_cong [OF roD(5) [OF t(2)] same_fsD(2) [OF roD(3) [OF t(2)]]] by blast
  then show ?thesis using t(1) False fstep_weaken [OF ro_fstep [OF t(2) ok fok]] by (intro exI [of _ t]) auto
next
  case new: True
  have idev: "idev (inodes s ! k) = 1" using file_okD(2) [OF fok] .
  have hu: "held_used s" using h by (simp add: held_used_def)
  obtain x u where x: "balloc 1 s = Inr (x, u)" "x < sb_size (sb s)" "\<not> bused s x" "allocated c i x s u"
    using balloc_ok [OF tr ok hu room_weaken [OF rm]] fr by auto
  show ?thesis
  proof (cases "bn < NDIRECT")
    case True
    define t where "t = upd_inode k (\<lambda>ip. ip\<lparr>addrs := (addrs ip)[bn := x]\<rparr>) u"
    have a: "addrs (inodes s ! k) ! bn = 0" using new True by (simp add: blk_def)
    note E = enter_addr [OF ok fok x(2,3) tr x(4) _ a, folded t_def]
    have "bmap k bn s = Inr (x, t)" using True a x(1) idev by (simp add: bmap_def Let_def t_def)
    moreover have "blk t k bn = x" using E(6) [OF _ bn] True by simp
    moreover have "blk t k m = blk s k m" if "m < MAXFILE" "m \<noteq> bn" for m using E(6) [OF _ that(1)] that(2) True by simp
    ultimately show ?thesis using E(1,3-5) True fstep_weaken [of c i k "{}" 2 1 s t "{ind t k} - {0}" 5 2] by (intro exI [of _ t]) simp
  next
    case False
    have n: "NDIRECT \<le> bn" using False by simp
    show ?thesis
    proof (cases "ind s k = 0")
      case True
      define t where "t = upd_inode k (\<lambda>ip. ip\<lparr>addrs := (addrs ip)[NDIRECT := x]\<rparr>) u"
      note E = enter_addr [OF ok fok x(2,3) tr x(4), of NDIRECT, folded t_def, OF _ True [unfolded ind_def]]
      have it: "ind t k = x" using E(2) by (simp add: ind_def)
      have bt: "blk t k m = blk s k m" if "m < MAXFILE" for m using E(6) [OF _ that] by simp
      note T = fstepD [OF E(1), simplified]
      have "room 5 t" by (rule fstep_room [OF E(1)]) (use rm in simp_all)
      moreover have "0 < nfree t" using T(13) fr by simp
      ultimately obtain y v where y: "bmap_indirect k (bn - NDIRECT) (ind t k) t = Inr (y, v)" "fstep c i k {ind t k} 3 1 t v" "y \<noteq> 0"
        "blk v k bn = y" "bview v y = replicate BSIZE 0" "\<not> dblk t y" "ind v k = ind t k" "\<forall>m < MAXFILE. m \<noteq> bn \<longrightarrow> blk v k m = blk t k m"
        using bmap_indirect_new [OF T(1,7,8) _ _ _ n bn] T(3) h it E(4) bt [OF bn] new by auto
      have "fstep c i k ({ind v k} - {0}) 5 2 s v" using fstep_trans [OF E(1) y(2)] y(7) it E(4) by (simp add: numeral_2_eq_2)
      moreover have "bmap k bn s = Inr (y, v)" using bmap_split [OF False bn, of k s] True x(1) y(1) idev it by (simp add: t_def [symmetric])
      moreover have "\<not> dblk s y" using y(6) T(10) by blast
      ultimately show ?thesis using y bt by (intro exI [of _ v]) simp
    next
      case ind: False
      then obtain y v where y: "bmap_indirect k (bn - NDIRECT) (ind s k) s = Inr (y, v)" "fstep c i k {ind s k} 3 1 s v" "y \<noteq> 0"
        "blk v k bn = y" "bview v y = replicate BSIZE 0" "\<not> dblk s y" "ind v k = ind s k" "\<forall>m < MAXFILE. m \<noteq> bn \<longrightarrow> blk v k m = blk s k m"
        using bmap_indirect_new [OF tr ok fok h room_weaken [OF rm] ind n bn new] fr by auto
      then show ?thesis using bmap_split [OF False bn, of k s] ind fstep_weaken [OF y(2), of "{ind v k} - {0}" 5 2] by (intro exI [of _ v]) simp
    qed
  qed
qed

end
