(* ===== verification/Filedata.thy ===== *)
theory Filedata
  imports Fsprops
begin

section \<open>The contents of files\<close>

text \<open>
  \<^verbatim>\<open>readi\<close> and \<^verbatim>\<open>writei\<close> of \<^verbatim>\<open>src/fs.c\<close> refine reads and writes of an array of bytes: byte \<open>p\<close> of a file is byte
  \<open>p mod 512\<close> of the disk block that the block map gives for block \<open>p div 512\<close> of the file.
\<close>

definition fbyte :: "'a fsst_scheme \<Rightarrow> nat \<Rightarrow> nat \<Rightarrow> u8" where
  "fbyte s k p = bview s (blk s k (p div BSIZE)) ! (p mod BSIZE)"

definition mapped :: "'a fsst_scheme \<Rightarrow> nat \<Rightarrow> nat \<Rightarrow> bool" where
  "mapped s k p \<longleftrightarrow> blk s k (p div BSIZE) \<noteq> 0"

subsection \<open>Reading\<close>

lemma chunk_div:
  assumes "off \<le> p" and "p < off + m" and "m \<le> BSIZE - off mod BSIZE"
  shows "p div BSIZE = off div BSIZE" "p mod BSIZE = off mod BSIZE + (p - off)"
proof -
  have "off mod BSIZE < BSIZE" by simp
  then have p: "p = off div BSIZE * BSIZE + (off mod BSIZE + (p - off))" "off mod BSIZE + (p - off) < BSIZE"
    using assms div_mult_mod_eq [of off BSIZE] by linarith+
  have "(off div BSIZE * BSIZE + r) div BSIZE = off div BSIZE" "(off div BSIZE * BSIZE + r) mod BSIZE = r" if "r < BSIZE" for r
    using that by simp_all
  from this [OF p(2)] show "p div BSIZE = off div BSIZE" "p mod BSIZE = off mod BSIZE + (p - off)"
    by (simp_all only: p(1) [symmetric])
qed

lemma chunk_bytes:
  assumes len: "length (bview s (blk s k (off div BSIZE))) = BSIZE" and m: "m \<le> BSIZE - off mod BSIZE"
  shows "take m (drop (off mod BSIZE) (bview s (blk s k (off div BSIZE)))) = map (fbyte s k) [off..<off + m]"
proof (rule nth_equalityI)
  show "length (take m (drop (off mod BSIZE) (bview s (blk s k (off div BSIZE))))) = length (map (fbyte s k) [off..<off + m])"
    using len m by simp
next
  fix j assume "j < length (take m (drop (off mod BSIZE) (bview s (blk s k (off div BSIZE)))))"
  then have j: "j < m" by simp
  have "(off + j) div BSIZE = off div BSIZE" "(off + j) mod BSIZE = off mod BSIZE + j" using chunk_div [of off "off + j" m] j m by simp_all
  then show "take m (drop (off mod BSIZE) (bview s (blk s k (off div BSIZE)))) ! j = map (fbyte s k) [off..<off + m] ! j"
    using j m len by (simp add: fbyte_def)
qed

lemma fbyte_cong: "bview t = bview s \<Longrightarrow> inodes t = inodes s \<Longrightarrow> fbyte t k p = fbyte s k p \<and> mapped t k p = mapped s k p"
  using blk_cong [of t s] by (simp add: fbyte_def mapped_def)

lemma file_block:
  assumes "fs_ok s" and "file_ok s k" and "n < MAXFILE" and "blk s k n \<noteq> 0"
  shows "blk s k n < disksize s" "\<not> in_log s (blk s k n)"
  using file_okD(5) [OF assms(2-4)] assms(1) by (auto simp: dblk_def fs_ok_def intro: less_le_trans)

lemma readi_loop_ok:
  assumes "trans c i s" and "fs_ok s" and "file_ok s k" and "held s = {}" and "room 0 s" and "off + r \<le> MAXFILE * BSIZE"
    and "\<forall>p. off \<le> p \<and> p < off + r \<longrightarrow> mapped s k p"
  shows "\<exists>t. readi_loop k off r s = Inr (map (fbyte s k) [off..<off + r], t) \<and> ro c i s t"
  using assms
proof (induction r arbitrary: off s rule: less_induct)
  case (less r off s)
  show ?case
  proof (cases "r = 0")
    case True
    then show ?thesis using ro_refl [OF less.prems(1)] by (simp add: readi_loop.simps [of k off r])
  next
    case False
    define m where "m = min r (BSIZE - off mod BSIZE)"
    have m: "0 < m" "m \<le> r" "m \<le> BSIZE - off mod BSIZE" using False by (auto simp: m_def)
    let ?bn = "off div BSIZE"
    have bn: "?bn < MAXFILE" "blk s k ?bn \<noteq> 0" using less.prems(6,7) False by (auto simp: mapped_def)
    obtain t where t: "bmap k ?bn s = Inr (blk s k ?bn, t)" "ro c i s t" using bmap_hit [OF less.prems(1-5) bn] by blast
    note T = roD [OF t(2)]
    note st = same_fsD [OF T(3)]
    have a: "blk s k ?bn < disksize t" using file_block(1) [OF less.prems(2,3) bn] tkeepD(1) [OF T(2)] by simp
    obtain bp u v where v: "bread 1 (blk s k ?bn) t = Inr (bp, u)" "bdata (bufs u ! bp) = bview t (blk s k ?bn)" "brelse bp u = Inr v" "ro c i t v"
      using block_peek [OF T(1) a] T(7,8) less.prems(4,5) by auto
    have sv: "ro c i s v" by (rule ro_trans [OF t(2) v(4)])
    note V = roD [OF sv]
    note fv = fbyte_cong [OF V(5) same_fsD(2) [OF V(3)]]
    have "fs_ok v" "file_ok v k" "held v = {}" "room 0 v"
      using fs_ok_cong [OF V(5,3,2)] file_ok_cong [OF V(5,3,2)] V(7,8) less.prems by simp_all
    moreover have "off + m + (r - m) = off + r" using m by simp
    ultimately obtain w where w: "readi_loop k (off + m) (r - m) v = Inr (map (fbyte v k) [off + m..<off + r], w)" "ro c i v w"
      using less.IH [of "r - m" v "off + m"] less.prems(6,7) m fv V(1) by auto
    have "readi_loop k off r s = Inr (map (fbyte s k) [off..<off + m] @ map (fbyte s k) [off + m..<off + r], w)"
      using False t(1) v w(1) file_okD(2) [OF less.prems(3)] st(2) T(5) chunk_bytes [OF trans_length [OF less.prems(1)] m(3)] fv
      by (simp add: readi_loop.simps [of k off r] m_def [symmetric] Let_def)
    then have "readi_loop k off r s = Inr (map (fbyte s k) [off..<off + r], w)"
      using upt_add_eq_append [of off "off + m" "r - m"] m(2) by (simp flip: map_append)
    then show ?thesis using ro_trans [OF sv w(2)] by blast
  qed
qed


subsection \<open>Writing\<close>

lemma owned_mono: "fstep c i k W p f s t \<Longrightarrow> owned s k \<subseteq> owned t k"
proof
  fix a assume a: "fstep c i k W p f s t" "a \<in> owned s k"
  then have nz: "a \<noteq> 0" by (simp add: owned_def)
  consider n where "n < MAXFILE" "a = blk s k n" | "a = ind s k" using a(2) by (auto simp: owned_def)
  then show "a \<in> owned t k"
  proof cases
    case 1
    then have "blk t k n = a" using fstepD(9) [OF a(1)] nz by simp
    then show ?thesis using 1(1) nz by (auto simp: owned_def)
  next
    case 2
    then show ?thesis using fstepD(14) [OF a(1)] nz by (auto simp: owned_def)
  qed
qed

text \<open>New contents for a block of the file.\<close>

lemma data_write:
  assumes ok: "fs_ok s" "file_ok s k" and n: "n < MAXFILE" "blk s k n \<noteq> 0"
    and t: "trans c i t" "tkeep s t" "same_fs s t" "hkeep s t" "bview t = (bview s)(blk s k n := d)" "pinned t = insert (blk s k n) (pinned s)"
  shows "fstep c i k {blk s k n} 1 0 s t" "\<And>m. blk t k m = blk s k m" "ind t k = ind s k"
proof -
  note F = file_okD [OF ok(2)] and I = same_fsD [OF t(3)] and W = dblk_write [OF file_okD(5) [OF ok(2) n] t(5,3,2)]
  show ind: "ind t k = ind s k" using I(2) by (simp add: ind_def)
  have "ind s k \<noteq> blk s k n" using F(6) [OF n] by simp
  then show blk: "blk t k m = blk s k m" for m using I(2) t(5) ind by (simp add: blk_def)
  have "\<exists>as. inodes t = (inodes s)[k := (inodes s ! k)\<lparr>addrs := as\<rparr>]" using I(2) by (intro exI [of _ "addrs (inodes s ! k)"]) simp
  moreover have "file_ok t k" using ok(2) I(2) blk ind W(1) by (simp add: file_ok_def)
  moreover have "card (pinned t) \<le> card (pinned s) + 1" using t(6) by (simp add: card_insert_if)
  moreover have "owned t k = owned s k" using blk ind by (simp add: owned_def)
  ultimately show "fstep c i k {blk s k n} 1 0 s t"
    using t I ok W blk ind unfolding fstep_def by (simp add: hkeep_def)
qed

text \<open>One iteration of the loop of \<^verbatim>\<open>writei\<close>: the bytes \<open>xs\<close> at offset \<open>off\<close>, inside one block.\<close>

definition writei_body :: "nat \<Rightarrow> nat \<Rightarrow> u8 list \<Rightarrow> 'a fsst_scheme \<Rightarrow> 'a fsst_scheme fault + 'a fsst_scheme" where
  "writei_body k off xs s =
     kbind (bmap k (off div BSIZE) s) (\<lambda>(a, s).
     kbind (bread (idev (inodes s ! k)) a s) (\<lambda>(bp, s).
     kbind (log_write bp (upd_buf bp (\<lambda>x. x\<lparr>bdata := splice (off mod BSIZE) xs (bdata x)\<rparr>) s)) (brelse bp)))"

text \<open>What a write of \<open>xs\<close> at \<open>off\<close> does to the file.\<close>

definition written :: "nat \<Rightarrow> nat \<Rightarrow> nat \<Rightarrow> nat \<Rightarrow> (nat \<Rightarrow> u8) \<Rightarrow> nat \<Rightarrow> nat \<Rightarrow> 'a fsst_scheme \<Rightarrow> 'a fsst_scheme \<Rightarrow> bool" where
  "written c i k off src r q s t \<longleftrightarrow> fstep c i k (owned t k) (6 * q) (2 * q) s t \<and>
     (\<forall>p < MAXFILE * BSIZE. if off \<le> p \<and> p < off + r then mapped t k p \<and> fbyte t k p = src (p - off)
        else mapped s k p \<longrightarrow> fbyte t k p = fbyte s k p)"

lemma writei_body_ok:
  assumes ok: "trans c i s" "fs_ok s" "file_ok s k" "held s = {}" and rm: "room 7 s" and fr: "2 \<le> nfree s"
    and off: "off < MAXFILE * BSIZE" and m: "m \<le> BSIZE - off mod BSIZE"
  shows "\<exists>t. writei_body k off (map src [0..<m]) s = Inr t \<and> written c i k off src m 1 s t"
proof -
  let ?bn = "off div BSIZE" and ?o = "off mod BSIZE" and ?xs = "map src [0..<m]"
  have bn: "?bn < MAXFILE" using off by simp
  obtain t where t: "bmap k ?bn s = Inr (blk t k ?bn, t)" "fstep c i k ({ind t k} - {0}) 5 2 s t" "blk t k ?bn \<noteq> 0"
    "\<forall>n < MAXFILE. n \<noteq> ?bn \<longrightarrow> blk t k n = blk s k n" using bmap_ok [OF ok rm bn fr] by blast
  note T = fstepD [OF t(2)]
  note F = file_okD [OF T(8)]
  define a where "a = blk t k ?bn"
  define d where "d = splice ?o ?xs (bview t a)"
  have la: "length (bview t a) = BSIZE" by (rule trans_length [OF T(1)])
  have fit: "?o + length ?xs \<le> length (bview t a)" using m la mod_less_divisor [of BSIZE off] by simp
  have ld: "length d = BSIZE" using splice_length [OF fit] la by (simp add: d_def)
  have "a < disksize t" "\<not> in_log t a" using file_block [OF T(7,8) bn t(3)] by (simp_all add: a_def)
  moreover have "room 2 t" by (rule fstep_room [OF t(2)]) (use rm in simp)
  moreover have "\<forall>j \<in> held t. blockno (bufs t ! j) \<noteq> a" using T(3) ok(4) by simp
  ultimately obtain bp u v w where
    w: "bread 1 a t = Inr (bp, u)" "bdata (bufs u ! bp) = bview t a" "log_write bp (upd_buf bp (\<lambda>x. x\<lparr>bdata := d\<rparr>) u) = Inr v" "brelse bp v = Inr w"
      "trans c i w" "tkeep t w" "same_fs t w" "hkeep t w" "bview w = (bview t)(a := d)" "pinned w = insert a (pinned t)"
    using block_update [OF T(1) _ _ _ _ ld] by blast
  note D = data_write [OF T(7,8) bn t(3) w(5-8) w(9,10) [unfolded a_def]]
  have code: "writei_body k off ?xs s = Inr w"
    using t(1) w(1-4) F(2) by (simp add: writei_body_def a_def [symmetric] d_def upd_buf_data [of bp "splice ?o ?xs"])
  have "{ind t k} - {0} \<union> {a} \<subseteq> owned w k" using D(2,3) bn t(3) by (auto simp: owned_def a_def)
  then have step: "fstep c i k (owned w k) 6 2 s w" using fstep_weaken [OF fstep_trans [OF t(2) D(1)], of "owned w k" 6 2] by (simp add: a_def)
  have "if off \<le> p \<and> p < off + m then mapped w k p \<and> fbyte w k p = src (p - off) else mapped s k p \<longrightarrow> fbyte w k p = fbyte s k p"
    if p: "p < MAXFILE * BSIZE" for p
  proof (cases "p div BSIZE = ?bn")
    case True
    have nth: "fbyte w k p = (if ?o \<le> p mod BSIZE \<and> p mod BSIZE < ?o + m then src (p mod BSIZE - ?o) else bview t a ! (p mod BSIZE))"
      using nth_splice [OF fit, of "p mod BSIZE"] la True D(2) w(9) by (auto simp: fbyte_def a_def [symmetric] d_def)
    have "p = ?bn * BSIZE + p mod BSIZE" "off = ?bn * BSIZE + ?o" using True div_mult_mod_eq [of p BSIZE] div_mult_mod_eq [of off BSIZE] by simp_all
    then have iff: "?o \<le> p mod BSIZE \<longleftrightarrow> off \<le> p" "p mod BSIZE < ?o + m \<longleftrightarrow> p < off + m" "p mod BSIZE - ?o = p - off" by linarith+
    have "bview t a ! (p mod BSIZE) = fbyte s k p" if "mapped s k p"
      using that T(9) [OF bn] T(11) [of a] file_okD(5) [OF ok(3) bn] F(6) [OF bn t(3)] True
      by (auto simp: mapped_def fbyte_def a_def)
    then show ?thesis using nth iff True D(2) t(3) by (auto simp: mapped_def)
  next
    case False
    have pn: "p div BSIZE < MAXFILE" using p by simp
    have "\<not> (off \<le> p \<and> p < off + m)" using chunk_div(1) [of off p m] m False by blast
    moreover have "fbyte w k p = fbyte s k p" if mp: "mapped s k p"
    proof -
      have b: "blk s k (p div BSIZE) \<noteq> 0" "blk t k (p div BSIZE) = blk s k (p div BSIZE)" using mp t(4) pn False by (auto simp: mapped_def)
      have "blk t k (p div BSIZE) \<noteq> a" using F(7) [OF bn pn t(3) False] by (simp add: a_def)
      moreover have "blk t k (p div BSIZE) \<noteq> ind t k" using F(6) [OF pn] b by simp
      ultimately show ?thesis using b D(2) w(9) T(11) [OF file_okD(5) [OF ok(3) pn b(1)]] by (simp add: fbyte_def)
    qed
    ultimately show ?thesis by auto
  qed
  then show ?thesis using code step unfolding written_def by (intro exI [of _ w]) simp
qed


lemma writtenD:
  assumes "written c i k off src r q s t"
  shows "fstep c i k (owned t k) (6 * q) (2 * q) s t"
    "p < MAXFILE * BSIZE \<Longrightarrow> off \<le> p \<Longrightarrow> p < off + r \<Longrightarrow> mapped t k p \<and> fbyte t k p = src (p - off)"
    "p < MAXFILE * BSIZE \<Longrightarrow> \<not> (off \<le> p \<and> p < off + r) \<Longrightarrow> mapped s k p \<Longrightarrow> fbyte t k p = fbyte s k p"
    "p < MAXFILE * BSIZE \<Longrightarrow> mapped s k p \<Longrightarrow> mapped t k p"
proof -
  show s: "fstep c i k (owned t k) (6 * q) (2 * q) s t" using assms by (simp add: written_def)
  show "p < MAXFILE * BSIZE \<Longrightarrow> off \<le> p \<Longrightarrow> p < off + r \<Longrightarrow> mapped t k p \<and> fbyte t k p = src (p - off)"
    "p < MAXFILE * BSIZE \<Longrightarrow> \<not> (off \<le> p \<and> p < off + r) \<Longrightarrow> mapped s k p \<Longrightarrow> fbyte t k p = fbyte s k p"
    using assms by (auto simp: written_def split: if_splits)
  show "mapped t k p" if "p < MAXFILE * BSIZE" "mapped s k p"
  proof -
    have "p div BSIZE < MAXFILE" using that(1) by simp
    then show ?thesis using fstepD(9) [OF s, of "p div BSIZE"] that(2) by (simp add: mapped_def)
  qed
qed

lemma written_trans:
  assumes a: "written c i k off src m q s t" and b: "written c i k (off + m) (\<lambda>j. src (m + j)) r q' t u"
  shows "written c i k off src (m + r) (q + q') s u"
proof -
  note A = writtenD [OF a] and B = writtenD [OF b]
  have "fstep c i k (owned t k \<union> owned u k) (6 * q + 6 * q') (2 * q + 2 * q') s u" by (rule fstep_trans [OF A(1) B(1)])
  then have "fstep c i k (owned u k) (6 * (q + q')) (2 * (q + q')) s u"
    using owned_mono [OF B(1)] by (simp add: algebra_simps Un_absorb1)
  moreover have "if off \<le> p \<and> p < off + (m + r) then mapped u k p \<and> fbyte u k p = src (p - off) else mapped s k p \<longrightarrow> fbyte u k p = fbyte s k p"
    if p: "p < MAXFILE * BSIZE" for p
  proof -
    consider "off \<le> p" "p < off + m" | "off + m \<le> p" "p < off + m + r" | "\<not> (off \<le> p \<and> p < off + (m + r))" by linarith
    then show ?thesis
    proof cases
      case 1
      then have "mapped t k p" "fbyte t k p = src (p - off)" using A(2) [OF p] by auto
      moreover have "\<not> (off + m \<le> p \<and> p < off + m + r)" using 1 by simp
      ultimately show ?thesis using 1 B(3,4) [OF p] by simp
    next
      case 2
      have "m + (p - (off + m)) = p - off" using 2 by simp
      then show ?thesis using 2 B(2) [OF p] by simp
    next
      case 3
      have "\<not> (off + m \<le> p \<and> p < off + m + r)" "\<not> (off \<le> p \<and> p < off + m)" using 3 by auto
      then show ?thesis using 3 A(3,4) [OF p] B(3) [OF p] by auto
    qed
  qed
  ultimately show ?thesis unfolding written_def by blast
qed

text \<open>The number of blocks that a write touches.\<close>

definition nblk :: "nat \<Rightarrow> nat \<Rightarrow> nat" where
  "nblk off r = (if r = 0 then 0 else (off + r - 1) div BSIZE - off div BSIZE + 1)"

lemma nblk_step:
  assumes "0 < r" and "m = min r (BSIZE - off mod BSIZE)"
  shows "nblk (off + m) (r - m) + 1 \<le> nblk off r"
proof (cases "m = r")
  case True
  then show ?thesis using assms by (simp add: nblk_def)
next
  case False
  then have m: "m = BSIZE - off mod BSIZE" "m < r" using assms by (auto simp: min_def split: if_splits)
  define a b where "a = off div BSIZE" and "b = off mod BSIZE"
  have "off = a * BSIZE + b" "b < BSIZE" unfolding a_def b_def by simp_all
  then have "off + m = (off div BSIZE + 1) * BSIZE" using m(1) unfolding a_def [symmetric] b_def [symmetric] by simp
  then have "(off + m) div BSIZE = off div BSIZE + 1" by simp
  moreover have "off + m + (r - m) - 1 = off + r - 1" "off + m \<le> off + r - 1" using m by simp_all
  moreover from this(2) have "(off + m) div BSIZE \<le> (off + r - 1) div BSIZE" by (rule div_le_mono)
  ultimately show ?thesis using m(2) assms(1) by (simp add: nblk_def Suc_diff_Suc Suc_le_eq)
qed

lemma writei_loop_body:
  assumes "r \<noteq> 0" and "m = min r (BSIZE - off mod BSIZE)"
  shows "writei_loop k src off r s = kbind (writei_body k off (map src [0..<m]) s) (writei_loop k (\<lambda>j. src (m + j)) (off + m) (r - m))"
  using assms(1)
  by (subst writei_loop.simps) (simp add: writei_body_def assms(2) [symmetric] Let_def kbind_assoc case_prod_beta')

lemma writei_loop_ok:
  assumes "trans c i s" and "fs_ok s" and "file_ok s k" and "held s = {}" and "room (6 * nblk off r + 1) s" and "2 * nblk off r \<le> nfree s"
    and "off + r \<le> MAXFILE * BSIZE"
  shows "\<exists>t q. writei_loop k src off r s = Inr (off + r, t) \<and> written c i k off src r q s t \<and> q \<le> nblk off r"
  using assms
proof (induction r arbitrary: off src s rule: less_induct)
  case (less r off src s)
  show ?case
  proof (cases "r = 0")
    case True
    have "fstep c i k (owned s k) 0 0 s s" using fstep_weaken [OF ro_fstep [OF ro_refl [OF less.prems(1)] less.prems(2,3)]] by simp
    then have "written c i k off src 0 0 s s" by (auto simp: written_def)
    then show ?thesis using True by (intro exI [of _ s] exI [of _ 0]) (simp add: writei_loop.simps [of k src off 0])
  next
    case False
    define m where "m = min r (BSIZE - off mod BSIZE)"
    have m: "0 < m" "m \<le> r" "m \<le> BSIZE - off mod BSIZE" using False by (auto simp: m_def)
    have n1: "nblk (off + m) (r - m) + 1 \<le> nblk off r" using nblk_step [OF _ m_def] False by simp
    have "room 7 s" "2 \<le> nfree s" "off < MAXFILE * BSIZE"
      using room_weaken [OF less.prems(5), of 7] n1 less.prems(6,7) False by simp_all
    then obtain t where t: "writei_body k off (map src [0..<m]) s = Inr t" "written c i k off src m 1 s t"
      using writei_body_ok [OF less.prems(1-4) _ _ _ m(3)] by blast
    note W = writtenD(1) [OF t(2)]
    note T = fstepD [OF W]
    have "room (6 * nblk (off + m) (r - m) + 1) t"
      by (rule fstep_room [OF W]) (rule room_weaken [OF less.prems(5)], use n1 in simp)
    moreover have "2 * nblk (off + m) (r - m) \<le> nfree t" using T(13) less.prems(6) n1 by simp
    moreover have "off + m + (r - m) = off + r" using m(2) by simp
    ultimately obtain u q where u: "writei_loop k (\<lambda>j. src (m + j)) (off + m) (r - m) t = Inr (off + r, u)"
      "written c i k (off + m) (\<lambda>j. src (m + j)) (r - m) q t u" "q \<le> nblk (off + m) (r - m)"
      using less.IH [of "r - m" t "off + m" "\<lambda>j. src (m + j)"] m(1) False T(1,3,7,8) less.prems(4,7) by auto
    have "written c i k off src r (1 + q) s u" using written_trans [OF t(2) u(2)] m(2) by simp
    then show ?thesis using t(1) u(1,3) n1 writei_loop_body [OF False m_def, of k src s] by (intro exI [of _ u] exI [of _ "1 + q"]) simp
  qed
qed


subsection \<open>Inodes on the disk\<close>

text \<open>The block that holds the on-disk inode.\<close>

definition iblk :: "'a fsst_scheme \<Rightarrow> nat \<Rightarrow> u32" where
  "iblk s k = IBLOCK (inum (inodes s ! k)) (sb s)"

lemma put_dinode_length [simp]: "length (put_dinode o' ip d) = length d"
  by (simp add: put_dinode_def)

lemma dip_off_bound: "dip_off n + 64 \<le> BSIZE"
proof -
  have "n mod 8 < 8" by (simp add: word_less_nat_alt unat_mod_distrib)
  then have "unat (n mod 8) < 8" by (simp add: word_less_nat_alt)
  then show ?thesis by (simp add: dip_off_def)
qed

lemma get_put_dinode:
  assumes "length d = BSIZE" and "length (addrs ip) = NDIRECT + 1" and "o' + 64 \<le> BSIZE"
  shows "get_dinode o' (put_dinode o' ip d) jp = jp\<lparr>itype := itype ip, imajor := imajor ip, iminor := iminor ip, inlink := inlink ip,
    isize := isize ip, addrs := addrs ip\<rparr>"
proof -
  have "get16 (put32s b as e) j = get16 e j" if "j + 2 \<le> b" for as b e j
    using that by (induction as arbitrary: b e) (simp_all add: get16_put_other)
  then show ?thesis using assms
    by (simp add: get_dinode_def put_dinode_def get32s_put32s get32_put32s_before get16_put_other get32_put_other)
qed

lemma iupdate_ok:
  assumes tr: "trans c i s" and h: "held s = {}" and dev: "idev (inodes s ! k) = 1" and b: "iblk s k < disksize s" "\<not> in_log s (iblk s k)" and rm: "room 2 s"
  shows "\<exists>t. iupdate k s = Inr t \<and> trans c i t \<and> tkeep s t \<and> same_fs s t \<and> hkeep s t \<and> pinned t = insert (iblk s k) (pinned s) \<and>
    bview t = (bview s)(iblk s k := put_dinode (dip_off (inum (inodes s ! k))) (inodes s ! k) (bview s (iblk s k)))"
proof -
  let ?ip = "inodes s ! k"
  let ?d = "put_dinode (dip_off (inum ?ip)) ?ip (bview s (iblk s k))"
  have "length ?d = BSIZE" using trans_length [OF tr] by simp
  then obtain bp t u v where v: "bread 1 (iblk s k) s = Inr (bp, t)" "bdata (bufs t ! bp) = bview s (iblk s k)" "same_fs s t"
    "log_write bp (upd_buf bp (\<lambda>x. x\<lparr>bdata := ?d\<rparr>) t) = Inr u" "brelse bp u = Inr v" "trans c i v" "tkeep s v" "same_fs s v" "hkeep s v"
    "bview v = (bview s)(iblk s k := ?d)" "pinned v = insert (iblk s k) (pinned s)"
    using block_update [OF tr b(1) _ b(2) rm, where d = ?d] h by auto
  then have "iupdate k s = Inr v"
    using same_fsD(2) [OF v(3)] dev
    by (simp add: iupdate_def Let_def iblk_def [symmetric] upd_buf_data [of bp "put_dinode (dip_off (inum ?ip)) ?ip"])
  then show ?thesis using v by blast
qed


subsection \<open>Files as arrays of bytes\<close>

text \<open>The contents of a file. All its bytes are in blocks of its own, and its inode is in a block of its own.\<close>

definition contents :: "'a fsst_scheme \<Rightarrow> nat \<Rightarrow> u8 list" where
  "contents s k = map (fbyte s k) [0..<unat (isize (inodes s ! k))]"

definition data_ok :: "'a fsst_scheme \<Rightarrow> nat \<Rightarrow> bool" where
  "data_ok s k \<longleftrightarrow> fs_ok s \<and> file_ok s k \<and> unat (isize (inodes s ! k)) \<le> MAXFILE * BSIZE \<and>
     (\<forall>p < unat (isize (inodes s ! k)). mapped s k p) \<and> dblk s (iblk s k) \<and> iblk s k \<notin> owned s k"

lemma data_okD:
  assumes "data_ok s k"
  shows "fs_ok s" "file_ok s k" "unat (isize (inodes s ! k)) \<le> MAXFILE * BSIZE" "p < unat (isize (inodes s ! k)) \<Longrightarrow> mapped s k p"
    "dblk s (iblk s k)" "iblk s k \<notin> owned s k" "iblk s k < disksize s" "\<not> in_log s (iblk s k)"
  using assms by (auto simp: data_ok_def dblk_def fs_ok_def intro: less_le_trans)

text \<open>\<^verbatim>\<open>writei\<close> overwrites from \<open>off\<close> on and lengthens.\<close>

definition overwrite :: "nat \<Rightarrow> 'b list \<Rightarrow> 'b list \<Rightarrow> 'b list" where
  "overwrite off xs ys = take off ys @ xs @ drop (off + length xs) ys"

text \<open>The last part of \<^verbatim>\<open>writei\<close>, which records the new size.\<close>

definition set_size :: "nat \<Rightarrow> nat \<Rightarrow> nat \<Rightarrow> 'a fsst_scheme \<Rightarrow> 'a fsst_scheme fault + 'a fsst_scheme" where
  "set_size k n off s = (if n > 0 \<and> of_nat off > isize (inodes s ! k)
     then iupdate k (upd_inode k (\<lambda>ip. ip\<lparr>isize := of_nat off\<rparr>) s) else Inr s)"

lemma set_size_ok:
  assumes tr: "trans c i s" and h: "held s = {}" and rm: "room 2 s" and ok: "fs_ok s" "file_ok s k" "dblk s (iblk s k)" "iblk s k \<notin> owned s k"
    and off: "off \<le> MAXFILE * BSIZE" and n: "n = 0 \<longrightarrow> of_nat off \<le> isize (inodes s ! k)"
  shows "\<exists>t. set_size k n off s = Inr t \<and> trans c i t \<and> tkeep s t \<and> held t = {} \<and> fsst.more t = fsst.more s \<and> sb t = sb s \<and>
    inodes t = (inodes s)[k := (inodes s ! k)\<lparr>isize := max (isize (inodes s ! k)) (of_nat off)\<rparr>] \<and> fs_ok t \<and> file_ok t k \<and>
    (\<forall>m. blk t k m = blk s k m) \<and> ind t k = ind s k \<and> (\<forall>a. dblk t a = dblk s a) \<and> nfree t = nfree s \<and>
    (\<forall>a. a \<noteq> iblk s k \<longrightarrow> bview t a = bview s a) \<and> (\<forall>p. mapped s k p \<longrightarrow> p < MAXFILE * BSIZE \<longrightarrow> fbyte t k p = fbyte s k p)"
proof (cases "n > 0 \<and> of_nat off > isize (inodes s ! k)")
  case False
  then have "max (isize (inodes s ! k)) (of_nat off) = isize (inodes s ! k)" using n by (auto simp: max_def)
  moreover have "set_size k n off s = Inr s" unfolding set_size_def if_not_P [OF False] ..
  ultimately show ?thesis using tr h ok by (intro exI [of _ s]) simp
next
  case True
  define u where "u = upd_inode k (\<lambda>ip. ip\<lparr>isize := of_nat off\<rparr>) s"
  have kl: "k < length (inodes s)" "idev (inodes s ! k) = 1" using file_okD(1,2) [OF ok(2)] .
  have U: "trans c i u" "held u = {}" "tkeep s u" "room 2 u" "bview u = bview s" "sb u = sb s" "fsst.more u = fsst.more s"
    "idev (inodes u ! k) = 1" "iblk u k = iblk s k" "\<And>a. dblk u a = dblk s a" "fs_ok u = fs_ok s" "nfree u = nfree s"
    "inodes u = (inodes s)[k := (inodes s ! k)\<lparr>isize := of_nat off\<rparr>]"
    using tr h rm kl by (simp_all add: u_def upd_inode_def iblk_def)
  have bu: "ind u k = ind s k" "blk u k m = blk s k m" for m using kl U(5,13) by (simp_all add: ind_def blk_def)
  have b: "iblk s k < disksize u" "\<not> in_log u (iblk s k)"
    using ok(1,3) tkeepD [OF U(3)] by (auto simp: dblk_def fs_ok_def intro: less_le_trans)
  obtain t where t: "iupdate k u = Inr t" "trans c i t" "tkeep u t" "same_fs u t" "hkeep u t"
    "bview t = (bview u)(iblk s k := put_dinode (dip_off (inum (inodes u ! k))) (inodes u ! k) (bview u (iblk s k)))"
    using iupdate_ok [OF U(1,2,8) _ _ U(4), unfolded U(9), OF b] by blast
  have "dblk u (iblk s k)" using ok(3) U(10) by simp
  note W = dblk_write [OF this t(6,4,3)] and I = same_fsD [OF t(4)]
  have it: "ind t k = ind s k" using I(2) bu(1) by (simp add: ind_def)
  have "ind s k \<noteq> 0 \<Longrightarrow> ind s k \<noteq> iblk s k" using ok(4) by (auto simp: owned_def)
  then have bt: "blk t k m = blk s k m" for m using I(2) bu(2) [of m] bu(1) it t(6) U(5,13) kl by (auto simp: blk_def)
  have "file_ok t k" using ok(2) I(2) U(10,13) W(1) it bt kl by (simp add: file_ok_def)
  moreover have "fbyte t k p = fbyte s k p" if "mapped s k p" "p < MAXFILE * BSIZE" for p
  proof -
    have "p div BSIZE < MAXFILE" using that(2) by simp
    then have "blk s k (p div BSIZE) \<noteq> iblk s k" using ok(4) that(1) by (auto simp: owned_def mapped_def)
    then show ?thesis using bt t(6) U(5) by (simp add: fbyte_def)
  qed
  moreover have "max (isize (inodes s ! k)) (of_nat off) = of_nat off" using True by (simp add: max.absorb2 less_imp_le)
  moreover have "tkeep s t" by (rule tkeep_trans [OF U(3) t(3)])
  moreover have "held t = {}" using t(5) U(2) by (simp add: hkeep_def)
  moreover have "set_size k n off s = Inr t" using True t(1) by (simp add: set_size_def u_def)
  ultimately show ?thesis using t(2,6) I U W ok(1) bt it by (intro exI [of _ t]) simp
qed

end
