(* ===== verification/Fileprops.thy ===== *)
theory Fileprops
  imports Filedata
begin

text \<open>
  What \<^verbatim>\<open>readi\<close> and \<^verbatim>\<open>writei\<close> of \<^verbatim>\<open>src/fs.c\<close> do to a file, seen as the
  sequence of its bytes: a read returns a segment of the sequence, a write replaces a segment or
  extends the sequence, and neither disturbs the rest of the disk.
\<close>

lemma overwrite_nth:
  assumes "off \<le> length ys"
  shows "length (overwrite off xs ys) = max (length ys) (off + length xs)"
    "p < max (length ys) (off + length xs) \<Longrightarrow>
       overwrite off xs ys ! p = (if off \<le> p \<and> p < off + length xs then xs ! (p - off) else ys ! p)"
  using assms by (auto simp: overwrite_def nth_append min_def)

lemma overwrite_end: "overwrite (length ys) xs ys = ys @ xs"
  by (simp add: overwrite_def)

lemma unat_max: "unat (max a b) = max (unat a) (unat b)"
  by (simp add: max_def word_le_nat_alt)

declare writei_loop.simps [simp del] readi_loop.simps [simp del]

lemma sint_small:
  assumes "unat (n :: u32) < 2 ^ 31"
  shows "sint n = int (unat n)"
proof -
  have "uint n = int (unat n)" by simp
  moreover have "int (unat n) < int (2 ^ 31)" using assms by (simp only: of_nat_less_iff)
  then have "int (unat n) < 2 ^ 31" by simp
  moreover have "signed_take_bit 31 (int (unat n)) = int (unat n)"
    using \<open>int (unat n) < 2 ^ 31\<close> by (intro signed_take_bit_int_eq_self) (auto intro: order_trans [of _ 0])
  ultimately show ?thesis by (simp only: sint_uint) simp
qed

lemma writei_file_ok:
  assumes tr: "trans c i s" and h: "held s = {}" and ok: "data_ok s k" and off: "off \<le> isize (inodes s ! k)" "unat off + unat n \<le> MAXFILE * BSIZE"
    and rm: "room (6 * nblk (unat off) (unat n) + 2) s" and fr: "2 * nblk (unat off) (unat n) \<le> nfree s"
  shows "\<exists>t. writei_file k src off n s = Inr (int (unat n), t) \<and> trans c i t \<and> tkeep s t \<and> held t = {} \<and> data_ok t k \<and>
    contents t k = overwrite (unat off) (map src [0..<unat n]) (contents s k) \<and> sb t = sb s \<and>
    (\<forall>j. j \<noteq> k \<longrightarrow> inodes t ! j = inodes s ! j) \<and> (\<forall>a. dblk s a \<longrightarrow> a \<notin> owned s k \<longrightarrow> a \<noteq> iblk s k \<longrightarrow> bview t a = bview s a)"
proof -
  note K = data_okD [OF ok]
  let ?o = "unat off" and ?n = "unat n" and ?z = "unat (isize (inodes s ! k))"
  obtain t q where t: "writei_loop k src ?o ?n s = Inr (?o + ?n, t)" "written c i k ?o src ?n q s t" "q \<le> nblk ?o ?n"
    using writei_loop_ok [OF tr K(1,2) h room_weaken [OF rm] fr off(2), where src = src] by auto
  note W = writtenD [OF t(2)]
  note T = fstepD [OF W(1)]
  have kl: "k < length (inodes s)" using file_okD(1) [OF K(2)] .
  obtain as where ti: "inodes t = (inodes s)[k := (inodes s ! k)\<lparr>addrs := as\<rparr>]" using T(6) by blast
  have sz: "isize (inodes t ! k) = isize (inodes s ! k)" "iblk t k = iblk s k" using ti kl T(4) by (simp_all add: iblk_def)
  have un: "unat (of_nat (?o + ?n) :: u32) = ?o + ?n" by (rule unat_of_nat32) (use off(2) in simp)
  have r2: "room 2 t" by (rule fstep_room [OF W(1)]) (rule room_weaken [OF rm], use t(3) in simp)
  have ib: "dblk t (iblk t k)" "iblk t k \<notin> owned t k" using T(10,15) [of "iblk s k"] K(5,6) sz(2) by auto
  have z0: "?n = 0 \<longrightarrow> of_nat (?o + ?n) \<le> isize (inodes t ! k)" using off(1) sz(1) by simp
  have ht: "held t = {}" using T(3) h by simp
  note S = set_size_ok [where n = ?n, OF T(1) ht r2 T(7,8) ib off(2) z0]
  obtain u where u: "set_size k ?n (?o + ?n) t = Inr u" "trans c i u" "tkeep t u" "held u = {}" "sb u = sb t"
    "inodes u = (inodes t)[k := (inodes t ! k)\<lparr>isize := max (isize (inodes t ! k)) (of_nat (?o + ?n))\<rparr>]" "fs_ok u" "file_ok u k"
    "\<forall>m. blk u k m = blk t k m" "ind u k = ind t k" "\<forall>a. dblk u a = dblk t a"
    "\<forall>a. a \<noteq> iblk t k \<longrightarrow> bview u a = bview t a" "\<forall>p. mapped t k p \<longrightarrow> p < MAXFILE * BSIZE \<longrightarrow> fbyte u k p = fbyte t k p"
    using S by (elim exE conjE) (rule that)
  have zu: "unat (isize (inodes u ! k)) = max ?z (?o + ?n)" "iblk u k = iblk s k" using u(6,5) sz kl ti un T(4) by (simp_all add: unat_max iblk_def)
  have "\<not> (off > isize (inodes s ! k) \<or> off + n < off)" "\<not> off + n > of_nat ((NDIRECT + NINDIRECT) * BSIZE)"
    using off un by (auto simp: word_less_nat_alt word_le_nat_alt)
  then have code: "writei_file k src off n s = Inr (sint n, u)"
    using t(1) u(1) by (auto simp: writei_file_def set_size_def word_gt_0 unat_gt_0)
  have mp: "mapped u k p \<and> fbyte u k p = overwrite ?o (map src [0..<?n]) (contents s k) ! p" if "p < max ?z (?o + ?n)" for p
  proof -
    have p: "p < MAXFILE * BSIZE" using that K(3) off(2) by simp
    have ol: "?o \<le> length (contents s k)" using off(1) by (simp add: contents_def word_le_nat_alt)
    have ow: "overwrite ?o (map src [0..<?n]) (contents s k) ! p = (if ?o \<le> p \<and> p < ?o + ?n then src (p - ?o) else fbyte s k p)"
      using overwrite_nth(2) [OF ol, of p "map src [0..<?n]"] that ol by (auto simp: contents_def max_def split: if_splits)
    have "p < ?z" if "\<not> (?o \<le> p \<and> p < ?o + ?n)" using that \<open>p < max ?z (?o + ?n)\<close> ol by (auto simp: contents_def)
    then have "mapped t k p \<and> fbyte t k p = (if ?o \<le> p \<and> p < ?o + ?n then src (p - ?o) else fbyte s k p)"
      using W(2-4) [OF p] K(4) [of p] by (cases "?o \<le> p \<and> p < ?o + ?n") auto
    then show ?thesis using ow u(9,13) p by (simp add: mapped_def)
  qed
  have "contents u k = overwrite ?o (map src [0..<?n]) (contents s k)"
    using mp zu(1) overwrite_nth(1) [of ?o "contents s k" "map src [0..<?n]"] off(1)
    by (intro nth_equalityI) (simp_all add: contents_def word_le_nat_alt)
  moreover have "owned u k = owned t k" using u(9,10) by (simp add: owned_def)
  then have "data_ok u k"
    using u(7,8,11) mp zu K(3) off(2) ib sz(2) by (simp add: data_ok_def)
  moreover have "bview u a = bview s a" if "dblk s a" "a \<notin> owned s k" "a \<noteq> iblk s k" for a
    using T(15,11) [of a] u(12) that sz(2) by auto
  moreover have "inodes u ! j = inodes s ! j" if "j \<noteq> k" for j using u(6) ti that by simp
  moreover have "sint n = int ?n" by (rule sint_small) (use off(2) in simp)
  ultimately show ?thesis using code u(2-5) T(2,4) tkeep_trans by (intro exI [of _ u]) auto
qed


lemma readi_file_ok:
  assumes tr: "trans c i s" and h: "held s = {}" and ok: "data_ok s k" and rm: "room 0 s"
    and off: "off \<le> isize (inodes s ! k)" "unat off + unat n < 2 ^ 32"
    and that: "xs = take (unat n) (drop (unat off) (contents s k))"
  shows "\<exists>t. readi_file k off n s = Inr ((int (length xs), xs), t) \<and> ro c i s t"
proof -
  note K = data_okD [OF ok]
  let ?o = "unat off" and ?z = "unat (isize (inodes s ! k))"
  define m where "m = (if off + n > isize (inodes s ! k) then isize (inodes s ! k) - off else n)"
  have oz: "?o \<le> ?z" using off(1) by (simp add: word_le_nat_alt)
  have on: "unat (off + n) = ?o + unat n" using off(2) by (simp add: unat_word_ariths)
  have m: "unat m = min (unat n) (?z - ?o)" using oz on by (auto simp: m_def word_less_nat_alt unat_sub off(1))
  then have mz: "?o + unat m \<le> ?z" using oz by simp
  obtain t where t: "readi_loop k ?o (unat m) s = Inr (map (fbyte s k) [?o..<?o + unat m], t)" "ro c i s t"
    using readi_loop_ok [OF tr K(1,2) h rm, of ?o "unat m"] K(3,4) mz by fastforce
  have xs: "map (fbyte s k) [?o..<?o + unat m] = xs"
    unfolding that using m mz by (intro nth_equalityI) (auto simp: contents_def)
  have "sint m = int (unat m)" by (rule sint_small) (use mz K(3) in simp)
  moreover have "\<not> (off > isize (inodes s ! k) \<or> off + n < off)"
    using oz on by (auto simp: word_less_nat_alt)
  moreover have "length xs = unat m" using xs by auto
  ultimately show ?thesis using t xs that by (simp add: readi_file_def m_def [symmetric])
qed


subsection \<open>A file system with one open file\<close>

text \<open>An example state: the bitmap is in block 40 and marks the blocks \<open>b\<close> with \<open>b mod 8 < 3\<close> as used, the log is behind
  the blocks that the bitmap covers, and the inode in slot 0 has two data blocks and 600 bytes.\<close>

definition demo_sb :: superblock where
  "demo_sb = \<lparr>sb_size = 900, sb_nblocks = 800, sb_ninodes = 8, sb_nlog = 30, sb_logstart = 950, sb_inodestart = 33, sb_bmapstart = 40\<rparr>"

definition demo_inode :: inode where
  "demo_inode = \<lparr>idev = 1, inum = 1, iref = 1, ivalid = True, itype = 2, imajor = 0, iminor = 0, inlink = 1, isize = 600,
     addrs = [48, 49] @ replicate 11 0\<rparr>"

definition demo_fs :: fsst where
  "demo_fs = logst.extend (demo_log\<lparr>log_start := 950, outstanding := 1\<rparr>) (fsst.fields demo_sb [demo_inode])"

lemma extend_logst [simp]:
  "at_proc c i (logst.extend s x) = at_proc c i s" "bcache_ok (logst.extend s x) = bcache_ok s"
  "bview (logst.extend s x) = bview s" "held (logst.extend s x) = held s" "pinned (logst.extend s x) = pinned s"
  by (rule at_proc_cong bcache_ok_cong view_cong; simp add: logst.defs)+

lemma log_start_update [simp]:
  "at_proc c i (s\<lparr>log_start := x\<rparr>) = at_proc c i s" "bcache_ok (s\<lparr>log_start := x\<rparr>) = bcache_ok s" "bcache_ok (s\<lparr>outstanding := y\<rparr>) = bcache_ok s"
  "bview (s\<lparr>log_start := x\<rparr>) = bview s" "held (s\<lparr>log_start := x\<rparr>) = held s" "pinned (s\<lparr>log_start := x\<rparr>) = pinned s"
  by (rule at_proc_cong bcache_ok_cong view_cong; simp)+

lemma demo_fs_sel:
  "sb demo_fs = demo_sb" "inodes demo_fs = [demo_inode]" "disksize demo_fs = 1000" "log_start demo_fs = 950" "log_size demo_fs = 30"
  "held demo_fs = {}" "pinned demo_fs = {}" "bview demo_fs = (\<lambda>b. if b = 40 then replicate BSIZE 7 else replicate BSIZE 0)" "trans 0 0 demo_fs"
proof -
  show "sb demo_fs = demo_sb" "inodes demo_fs = [demo_inode]" "disksize demo_fs = 1000" "log_start demo_fs = 950" "log_size demo_fs = 30"
    by (simp_all add: demo_fs_def logst.defs fsst.defs demo_log_sel)
  show "held demo_fs = {}" "pinned demo_fs = {}" "bview demo_fs = (\<lambda>b. if b = 40 then replicate BSIZE 7 else replicate BSIZE 0)"
    using demo_log_sel(11-13) demo_raw_sel(5) by (simp_all add: demo_fs_def)
  then have "pinned demo_fs = {}" "bio 0 0 demo_fs" using demo_log_sel(10) by (simp_all add: demo_fs_def bio_def)
  moreover have "log_start demo_fs = 950" "log_size demo_fs = 30" "outstanding demo_fs = 1" "\<not> committing demo_fs" "log_dev demo_fs = 1"
    "lh_n demo_fs = 0" "lh_block demo_fs = replicate 30 0" "disksize demo_fs = 1000" "disk demo_fs = disk demo_raw"
    using demo_log_sel by (simp_all add: demo_fs_def logst.defs fsst.defs)
  ultimately show "trans 0 0 demo_fs" by (simp add: trans_def log_ok_def get32_def demo_raw_sel(5))
qed


lemma bit_seven: "n < 8 \<Longrightarrow> bit (7 :: u8) n \<longleftrightarrow> n < 3"
proof -
  assume "n < 8"
  then have "n \<in> {0, 1, 2, 3, 4, 5, 6, 7}" by auto
  then show ?thesis by (elim insertE) simp_all
qed

lemma demo_fs_used:
  assumes "x < 900"
  shows "BBLOCK x demo_sb = 40" "bused demo_fs x \<longleftrightarrow> unat x mod 8 < 3" "\<not> in_log demo_fs x"
proof -
  have ux: "unat x < 900" using assms by (simp add: word_less_nat_alt)
  have "unat (x div of_nat BPB) = 0" using ux by (simp add: unat_div_distrib)
  then show bb: "BBLOCK x demo_sb = 40" by (simp add: BBLOCK_def demo_sb_def unat_eq_0)
  have "unat x mod BPB = unat x" "unat x div 8 < BSIZE" using ux by simp_all
  then show "bused demo_fs x \<longleftrightarrow> unat x mod 8 < 3" using bit_seven [of "unat x mod 8"] by (simp add: bused_def demo_fs_sel bb bit_mask_test)
  show "\<not> in_log demo_fs x" using assms by (simp add: in_log_def demo_fs_sel word_less_def)
qed


lemma demo_fs_dblk: "x < 900 \<Longrightarrow> dblk demo_fs x \<longleftrightarrow> unat x mod 8 < 3 \<and> x \<noteq> 40"
  using demo_fs_used(1) by (auto simp: dblk_def demo_fs_used demo_fs_sel demo_sb_def [THEN arg_cong [of _ _ sb_size]])

lemma demo_fs_ok: "fs_ok demo_fs"
proof -
  have "sb_size demo_sb = 900" by (simp add: demo_sb_def)
  then show ?thesis using demo_fs_used by (auto simp: fs_ok_def demo_fs_sel)
qed

lemma demo_ind: "ind demo_fs 0 = 0"
  by (simp add: ind_def demo_fs_sel demo_inode_def)

lemma demo_blk: "blk demo_fs 0 n = (if n = 0 then 48 else if n = 1 then 49 else 0)"
proof -
  have "n < 12 \<Longrightarrow> addrs demo_inode ! n = (if n = 0 then 48 else if n = 1 then 49 else 0)"
    by (auto simp: demo_inode_def nth_Cons')
  then show ?thesis using demo_ind by (cases "n < 12") (simp_all only: blk_def demo_fs_sel nth_Cons_0 if_True if_False simp_thms, simp)
qed

lemma demo_data_ok: "data_ok demo_fs 0"
proof -
  have "file_ok demo_fs 0" using demo_ind by (auto simp: file_ok_def demo_blk demo_fs_dblk) (simp_all add: demo_fs_sel demo_inode_def)
  moreover have "isize demo_inode = 600" "IBLOCK (inum demo_inode) demo_sb = 33" by (simp_all add: demo_inode_def IBLOCK_def demo_sb_def)
  moreover have "p div BSIZE < 2" if "p < 600" for p using that by simp
  moreover have "owned demo_fs 0 \<subseteq> {48, 49}" using demo_ind by (auto simp: owned_def demo_blk split: if_splits)
  ultimately show ?thesis using demo_fs_ok demo_blk by (auto simp: data_ok_def mapped_def iblk_def demo_fs_sel demo_fs_dblk)
qed

lemma demo_contents: "contents demo_fs 0 = replicate 600 0"
proof -
  have "fbyte demo_fs 0 p = 0" if "p < 600" for p
  proof -
    have "p div BSIZE < 2" using that by simp
    then show ?thesis by (simp add: fbyte_def demo_blk demo_fs_sel)
  qed
  then show ?thesis by (intro nth_equalityI) (simp_all add: contents_def demo_fs_sel demo_inode_def)
qed

lemma demo_nfree: "4 \<le> nfree demo_fs"
proof -
  have "{3, 4, 5, 6} \<subseteq> {y. y < sb_size demo_sb \<and> \<not> bused demo_fs y}" by (simp add: demo_sb_def demo_fs_used)
  then have "card {3, 4, 5, 6 :: u32} \<le> nfree demo_fs" unfolding nfree_def demo_fs_sel(1) by (intro card_mono) simp_all
  then show ?thesis by simp
qed


lemma put_dinode_other:
  assumes "p < o' \<or> o' + 64 \<le> p" and "length (addrs ip) = NDIRECT + 1"
  shows "put_dinode o' ip d ! p = d ! p"
proof -
  have s: "put32s b vs e ! p = e ! p" if "p < b \<or> b + 4 * length vs \<le> p" for b vs e
    using that by (induction vs arbitrary: b e) (auto simp: put32_def)
  then show ?thesis using assms by (simp add: put_dinode_def) (auto simp: put16_def put32_def)
qed

subsection \<open>Properties\<close>

text \<open>C29. \<^verbatim>\<open>writei\<close> on a regular file or directory implements the overwriting of a byte sequence. Within a transaction that has
  room for the blocks involved and with enough free blocks, a write of \<open>n\<close> bytes at an offset not beyond the end, with the file
  not growing beyond 140 blocks, returns \<open>n\<close>; the file then consists of its old bytes with those from the offset on replaced by
  the bytes written, lengthened if the write passes the old end; no other inode changes, no block in use outside the file changes
  except the block that holds its on-disk inode, and the file remains well formed.\<close>

theorem writei_overwrites:
  assumes "trans c i s" and "held s = {}" and "data_ok s k" and "itype (inodes s ! k) \<noteq> T_DEV"
    and "off \<le> isize (inodes s ! k)" and "unat off + unat n \<le> MAXFILE * BSIZE"
    and "room (6 * nblk (unat off) (unat n) + 2) s" and "2 * nblk (unat off) (unat n) \<le> nfree s"
  shows "\<exists>t. writei dv k src off n s = Inr (int (unat n), t) \<and> contents t k = overwrite (unat off) (map src [0..<unat n]) (contents s k) \<and>
    (\<forall>j. j \<noteq> k \<longrightarrow> inodes t ! j = inodes s ! j) \<and> (\<forall>a. dblk s a \<and> a \<notin> owned s k \<and> a \<noteq> iblk s k \<longrightarrow> bview t a = bview s a) \<and>
    data_ok t k \<and> trans c i t \<and> held t = {}"
  using writei_file_ok [OF assms(1-3,5-8), where src = src] assms(4) by (auto simp: writei_def)

theorem writei_overwrites_witness:
  "\<exists>t. writei [] 0 of_nat 600 600 demo_fs = Inr (600, t) \<and> contents t 0 = replicate 600 0 @ map of_nat [0..<600] \<and> data_ok t 0"
proof -
  have u: "unat (600 :: u32) = 600" "int 600 = 600" "unat (600 :: u32) = length (contents demo_fs 0)" by (simp_all add: demo_contents)
  have a: "itype (inodes demo_fs ! 0) \<noteq> T_DEV" "600 \<le> isize (inodes demo_fs ! 0)"
      "unat (600 :: u32) + unat (600 :: u32) \<le> MAXFILE * BSIZE" "room (6 * nblk (unat (600 :: u32)) (unat (600 :: u32)) + 2) demo_fs"
      "2 * nblk (unat (600 :: u32)) (unat (600 :: u32)) \<le> nfree demo_fs"
    using demo_nfree by (simp_all add: demo_fs_sel demo_inode_def nblk_def room_def)
  obtain t where "writei [] 0 of_nat 600 600 demo_fs = Inr (int (unat (600 :: u32)), t)" "data_ok t 0"
    "contents t 0 = overwrite (unat (600 :: u32)) (map of_nat [0..<unat (600 :: u32)]) (contents demo_fs 0)"
    using writei_overwrites [OF demo_fs_sel(9,6) demo_data_ok a, where dv = "[]" and src = of_nat] by blast
  then show ?thesis unfolding u(3) overwrite_end unfolding demo_contents length_replicate u(2) by blast
qed

text \<open>C30. \<^verbatim>\<open>readi\<close> on a regular file or directory returns the segment of the file that starts at the offset and has the length
  asked for, cut at the end of the file, and its length as the result; no block and no inode changes. It returns -1 and reads
  nothing if the offset is beyond the end or offset plus length wraps around.\<close>

theorem readi_segment:
  assumes "trans c i s" and "held s = {}" and "data_ok s k" and "room 0 s" and "itype (inodes s ! k) \<noteq> T_DEV"
  shows "if off \<le> isize (inodes s ! k) \<and> unat off + unat n < 2 ^ 32
    then \<exists>t. readi dv k off n s = Inr ((int (min (unat n) (length (contents s k) - unat off)), take (unat n) (drop (unat off) (contents s k))), t) \<and>
      bview t = bview s \<and> inodes t = inodes s \<and> trans c i t \<and> held t = {}
    else readi dv k off n s = Inr ((-1, []), s)"
proof (cases "off \<le> isize (inodes s ! k) \<and> unat off + unat n < 2 ^ 32")
  case True
  then obtain t where t: "readi_file k off n s = Inr ((int (length (take (unat n) (drop (unat off) (contents s k)))),
      take (unat n) (drop (unat off) (contents s k))), t)" "ro c i s t"
    using readi_file_ok [OF assms(1-4) _ _ refl] by blast
  then have "inodes t = inodes s" using same_fsD(2) roD(3) by blast
  then show ?thesis using True t roD [OF t(2)] assms(2,5) by (auto simp: readi_def min.commute)
next
  case False
  have "off + n < off" if "2 ^ 32 \<le> unat off + unat n"
    using that unat32_less [of off] unat32_less [of n] by (simp add: word_less_nat_alt unat_word_ariths mod_if) linarith
  then have "off > isize (inodes s ! k) \<or> off + n < off" using False by fastforce
  then show ?thesis using False assms(5) by (auto simp: readi_def readi_file_def)
qed

theorem readi_segment_witness:
  "(\<exists>t. readi [] 0 500 200 demo_fs = Inr ((100, replicate 100 0), t) \<and> bview t = bview demo_fs) \<and> readi [] 0 601 1 demo_fs = Inr ((-1, []), demo_fs)"
proof -
  have a: "itype (inodes demo_fs ! 0) \<noteq> T_DEV" "room 0 demo_fs" and sz: "isize (inodes demo_fs ! 0) = 600"
    by (simp_all add: demo_fs_sel demo_inode_def room_def)
  note R = readi_segment [OF demo_fs_sel(9,6) demo_data_ok a(2,1), where dv = "[]", unfolded sz demo_contents]
  have "take 200 (drop 500 (replicate 600 0)) = (replicate 100 0 :: u8 list)" by (simp only: drop_replicate take_replicate) simp
  moreover from R [of 500 200] obtain t where "readi [] 0 500 200 demo_fs = Inr ((100, take 200 (drop 500 (replicate 600 0))), t)" "bview t = bview demo_fs"
    by (auto simp del: take_replicate drop_replicate)
  ultimately show ?thesis using R [of 601 1] by simp
qed

text \<open>C31. \<^verbatim>\<open>balloc\<close> returns the lowest block that the bitmap calls free and panics exactly if there is none. The block returned is
  marked in the bitmap and no other mark changes, it is zeroed, and every other block outside the bitmap keeps its contents.\<close>

theorem balloc_correct:
  assumes "trans c i s" and "fs_ok s" and "held_used s" and "room 4 s"
  shows "if \<forall>y < sb_size (sb s). bused s y then balloc 1 s = Inl (Panic ''balloc: out of blocks'')
    else \<exists>x t. balloc 1 s = Inr (x, t) \<and> x < sb_size (sb s) \<and> \<not> bused s x \<and> (\<forall>y < x. bused s y) \<and>
      (\<forall>y < sb_size (sb s). bused t y = (bused s y \<or> y = x)) \<and> bview t x = replicate BSIZE 0 \<and>
      (\<forall>y. y \<noteq> x \<and> y \<noteq> BBLOCK x (sb s) \<longrightarrow> bview t y = bview s y)"
proof -
  have n: "(\<forall>y < sb_size (sb s). bused s y) \<longleftrightarrow> \<not> 0 < nfree s" by (auto simp: nfree_def card_gt_0_iff)
  show ?thesis
  proof (cases "0 < nfree s")
    case True
    then obtain x t where x: "balloc 1 s = Inr (x, t)" "x < sb_size (sb s)" "\<not> bused s x" "\<forall>y < x. bused s y" "allocated c i x s t"
      using balloc_ok [OF assms] by auto
    then have t: "bview t = (bview s)(BBLOCK x (sb s) := mark x (bview s (BBLOCK x (sb s))), x := replicate BSIZE 0)" "same_fs s t"
      by (simp_all add: allocated_def)
    then have "bused t y = (bused s y \<or> y = x)" if "y < sb_size (sb s)" for y
      using bused_mark [OF assms(2) x(2,3) trans_length [OF assms(1)] t that] by blast
    moreover have "bview t x = replicate BSIZE 0" "y \<noteq> x \<and> y \<noteq> BBLOCK x (sb s) \<longrightarrow> bview t y = bview s y" for y
      using t(1) by simp_all
    ultimately show ?thesis unfolding n using True x(1-4) by auto
  next
    case False
    then show ?thesis unfolding n using balloc_ok [OF assms] by simp
  qed
qed

theorem balloc_correct_witness: "\<exists>t. balloc 1 demo_fs = Inr (3, t) \<and> bused t 3"
proof -
  have used: "held_used demo_fs" "room 4 demo_fs" by (simp_all add: held_used_def room_def demo_fs_sel)
  have sz: "sb_size (sb demo_fs) = 900" by (simp add: demo_fs_sel demo_sb_def)
  have three: "\<not> bused demo_fs 3" by (simp add: demo_fs_used)
  then have "\<not> (\<forall>y < sb_size (sb demo_fs). bused demo_fs y)" unfolding sz by (auto intro!: exI [of _ 3])
  then obtain x t where x: "balloc 1 demo_fs = Inr (x, t)" "x < 900" "\<not> bused demo_fs x" "\<forall>y < x. bused demo_fs y" "bused t x"
    using balloc_correct [OF demo_fs_sel(9) demo_fs_ok used] unfolding sz by (metis (no_types, lifting))
  have "x = 3"
  proof (rule ccontr)
    assume "x \<noteq> 3"
    moreover have "\<not> 3 < x" using x(4) three by blast
    ultimately have "x < 3" by (simp only: linorder_neq_iff simp_thms)
    then have "unat x < 3" by (simp add: word_less_nat_alt)
    then show False using x(3) demo_fs_used(2) [OF x(2)] by simp
  qed
  then show ?thesis using x by blast
qed

text \<open>C32. \<^verbatim>\<open>iupdate\<close> and the decoding of an on-disk inode are inverse: after \<^verbatim>\<open>iupdate\<close> of an inode the fields that
  \<^verbatim>\<open>ilock\<close> would load from its place on the disk are those of the inode in memory, and the other bytes of the block, which
  hold other inodes, are as before.\<close>

theorem iupdate_roundtrip:
  assumes "trans c i s" and "held s = {}" and "room 2 s" and "idev (inodes s ! k) = 1" and "length (addrs (inodes s ! k)) = NDIRECT + 1"
    and "iblk s k < disksize s" and "\<not> in_log s (iblk s k)"
  shows "\<exists>t. iupdate k s = Inr t \<and> inodes t = inodes s \<and>
    get_dinode (dip_off (inum (inodes s ! k))) (bview t (iblk s k)) jp = jp\<lparr>itype := itype (inodes s ! k), imajor := imajor (inodes s ! k),
      iminor := iminor (inodes s ! k), inlink := inlink (inodes s ! k), isize := isize (inodes s ! k), addrs := addrs (inodes s ! k)\<rparr> \<and>
    (\<forall>p. p < dip_off (inum (inodes s ! k)) \<or> dip_off (inum (inodes s ! k)) + 64 \<le> p \<longrightarrow> bview t (iblk s k) ! p = bview s (iblk s k) ! p) \<and>
    (\<forall>b. b \<noteq> iblk s k \<longrightarrow> bview t b = bview s b)"
proof -
  obtain t where t: "iupdate k s = Inr t" "same_fs s t"
    "bview t = (bview s)(iblk s k := put_dinode (dip_off (inum (inodes s ! k))) (inodes s ! k) (bview s (iblk s k)))"
    using iupdate_ok [OF assms(1,2,4,6,7,3)] by blast
  moreover have "length (bview s (iblk s k)) = BSIZE" using trans_length [OF assms(1)] by simp
  ultimately show ?thesis using get_put_dinode [OF _ assms(5) dip_off_bound] put_dinode_other [OF _ assms(5)] same_fsD(2)
    by (intro exI [of _ t]) auto
qed

theorem iupdate_roundtrip_witness:
  "\<exists>t. iupdate 0 demo_fs = Inr t \<and> get_dinode 64 (bview t 33) demo_inode = demo_inode \<and> (\<forall>p < 64. bview t 33 ! p = bview demo_fs 33 ! p)"
proof -
  have e: "iblk demo_fs 0 = 33" "dip_off (inum demo_inode) = 64" "idev (inodes demo_fs ! 0) = 1"
    "length (addrs (inodes demo_fs ! 0)) = NDIRECT + 1" "inodes demo_fs ! 0 = demo_inode"
    by (simp_all add: iblk_def IBLOCK_def dip_off_def demo_fs_sel demo_inode_def demo_sb_def)
  have "room 2 demo_fs" "33 < disksize demo_fs" "\<not> in_log demo_fs 33" by (simp_all add: room_def demo_fs_sel demo_fs_used)
  then show ?thesis using iupdate_roundtrip [of 0 0 demo_fs 0 demo_inode, OF demo_fs_sel(9,6) _ e(3,4), unfolded e] by auto
qed

end
