(* ===== verification/Consprops.thy ===== *)
theory Consprops
  imports Console Fileprops
begin

section \<open>The line discipline of the console\<close>

text \<open>
  The input ring of the console implements a line editor: a list of bytes that are ready to be read and the line that is
  being typed (\<open>edit\<close>). The ring counters wrap around, and nothing is lost or duplicated when they do. \<^verbatim>\<open>consoleread\<close> takes
  bytes from the ready list as \<open>take_line\<close> says. \<^verbatim>\<open>printint\<close> stays inside its buffer and prints a numeral that reads back
  as the number.
\<close>

subsection \<open>Output leaves the rest of the kernel alone\<close>

definition putc :: "u32 \<Rightarrow> 'a consst_scheme \<Rightarrow> 'a consst_scheme" where
  "putc c s = graphic_putc c (if c = BACKSPACE then uartputc 8 (uartputc 32 (uartputc 8 s)) else uartputc c s)"

lemma consputc_eq: "\<not> panicked s \<Longrightarrow> consputc c s = Inr (putc c s)"
  by (simp add: consputc_def putc_def)

lemma scroll_line_shows: "scroll_line s = s\<lparr>mem := mem (scroll_line s), console_pos := console_pos (scroll_line s)\<rparr>"
  by (simp add: scroll_line_def)

lemma graphic_putc_shows: "graphic_putc c s = s\<lparr>mem := mem (graphic_putc c s), console_pos := console_pos (graphic_putc c s)\<rparr>"
proof -
  have e: "\<exists>m p. graphic_putc c s = s\<lparr>mem := m, console_pos := p\<rparr>"
  proof -
    consider "c = NEWLINE" | "c = BACKSPACE" | "c \<noteq> NEWLINE" "c \<noteq> BACKSPACE" by blast
    then show ?thesis
    proof cases
      case 1
      let ?s = "s\<lparr>console_pos := console_pos s + (53 - console_pos s mod 53)\<rparr>"
      have "graphic_putc c s = s\<lparr>mem := mem (scroll_line ?s), console_pos := console_pos (scroll_line ?s)\<rparr>"
        using 1 scroll_line_shows [of ?s] by (simp add: graphic_putc_def)
      then show ?thesis by blast
    next
      case 2
      have "graphic_putc c s = s\<lparr>mem := mem s, console_pos := console_pos s - 1\<rparr>" using 2 by (simp add: graphic_putc_def)
      then show ?thesis by blast
    next
      case 3
      obtain m p where "scroll_line s = s\<lparr>mem := m, console_pos := p\<rparr>" using scroll_line_shows by blast
      then have "graphic_putc c s = s\<lparr>mem := font_render (gpu s) (font_addr s) (of_nat (p mod 53) * 15 + 2) (of_nat (p div 53) * 30) c m,
          console_pos := Suc p\<rparr>"
        using 3 by (simp add: graphic_putc_def Let_def)
      then show ?thesis by blast
    qed
  qed
  then show ?thesis by (elim exE) simp
qed

lemma uart_out_graphic_putc: "uart_out (graphic_putc c s) = uart_out s"
  by (subst graphic_putc_shows) simp

lemma uartputc_shows: "uartputc c s = s\<lparr>uart_out := uart_out (uartputc c s)\<rparr>"
  by (simp add: uartputc_def)

lemma shows_trans:
  assumes "t = s\<lparr>uart_out := u\<rparr>" and "p = t\<lparr>mem := mem p, console_pos := console_pos p\<rparr>"
  shows "p = s\<lparr>mem := mem p, uart_out := uart_out p, console_pos := console_pos p\<rparr>"
proof -
  obtain m q where "p = s\<lparr>uart_out := u\<rparr>\<lparr>mem := m, console_pos := q\<rparr>" using assms by blast
  then show ?thesis by simp
qed

lemma putc_shows:
  "putc c s = s\<lparr>mem := mem (putc c s), uart_out := uart_out (putc c s), console_pos := console_pos (putc c s)\<rparr>"
proof (rule shows_trans)
  let ?t = "if c = BACKSPACE then uartputc 8 (uartputc 32 (uartputc 8 s)) else uartputc c s"
  show "?t = s\<lparr>uart_out := uart_out ?t\<rparr>" by (simp add: uartputc_def)
  show "putc c s = ?t\<lparr>mem := mem (putc c s), console_pos := console_pos (putc c s)\<rparr>"
    unfolding putc_def by (rule graphic_putc_shows)
qed

lemma putc_frame [simp]:
  "input (putc c s) = input s" "ptable (putc c s) = ptable s" "panicked (putc c s) = panicked s" "locks (putc c s) = locks s"
  "cons_locking (putc c s) = cons_locking s" "inodes (putc c s) = inodes s" "at_proc k i (putc c s) = at_proc k i s"
proof -
  show "input (putc c s) = input s" "ptable (putc c s) = ptable s" "panicked (putc c s) = panicked s" "locks (putc c s) = locks s"
    "cons_locking (putc c s) = cons_locking s" "inodes (putc c s) = inodes s" by (subst putc_shows, simp)+
  show "at_proc k i (putc c s) = at_proc k i s" by (subst putc_shows, rule at_proc_cong) simp_all
qed

lemma hold_shows: "(hold l k s)\<lparr>mem := m, uart_out := u, console_pos := p\<rparr> = hold l k (s\<lparr>mem := m, uart_out := u, console_pos := p\<rparr>)"
  by (simp add: hold_def push_state_def)

lemma hold_cons_sel:
  "gpu (hold l k s) = gpu s" "font_addr (hold l k s) = font_addr s" "uart (hold l k s) = uart s" "uart_out (hold l k s) = uart_out s"
  "console_pos (hold l k s) = console_pos s" "mem (hold l k s) = mem s"
  by (simp_all add: hold_def push_state_def)

lemma graphic_putc_cong:
  assumes "gpu t = gpu s" "font_addr t = font_addr s" "console_pos t = console_pos s" "mem t = mem s"
  shows "mem (graphic_putc c t) = mem (graphic_putc c s) \<and> console_pos (graphic_putc c t) = console_pos (graphic_putc c s)"
proof -
  have sc: "mem (scroll_line (t\<lparr>console_pos := p\<rparr>)) = mem (scroll_line (s\<lparr>console_pos := p\<rparr>)) \<and>
      console_pos (scroll_line (t\<lparr>console_pos := p\<rparr>)) = console_pos (scroll_line (s\<lparr>console_pos := p\<rparr>)) \<and>
      gpu (scroll_line (t\<lparr>console_pos := p\<rparr>)) = gpu s \<and> font_addr (scroll_line (t\<lparr>console_pos := p\<rparr>)) = font_addr s \<and>
      gpu (scroll_line (s\<lparr>console_pos := p\<rparr>)) = gpu s \<and> font_addr (scroll_line (s\<lparr>console_pos := p\<rparr>)) = font_addr s" for p
    using assms by (simp add: scroll_line_def)
  have e: "t = t\<lparr>console_pos := console_pos s\<rparr>" "s = s\<lparr>console_pos := console_pos s\<rparr>" using assms(3) by simp_all
  consider "c = NEWLINE" | "c = BACKSPACE" | "c \<noteq> NEWLINE" "c \<noteq> BACKSPACE" by blast
  then show ?thesis
  proof cases
    case 1
    then show ?thesis using sc [of "console_pos s + (53 - console_pos s mod 53)"] assms(3) by (simp add: graphic_putc_def)
  next
    case 2
    then show ?thesis using assms by (simp add: graphic_putc_def)
  next
    case 3
    then show ?thesis using sc [of "console_pos s", folded e] by (simp add: graphic_putc_def Let_def)
  qed
qed

lemma putc_out_cong:
  assumes "gpu t = gpu s" "font_addr t = font_addr s" "uart t = uart s" "uart_out t = uart_out s" "console_pos t = console_pos s"
    "mem t = mem s"
  shows "mem (putc c t) = mem (putc c s) \<and> uart_out (putc c t) = uart_out (putc c s) \<and> console_pos (putc c t) = console_pos (putc c s)"
proof -
  let ?u = "\<lambda>x. if c = BACKSPACE then uartputc 8 (uartputc 32 (uartputc 8 x)) else uartputc c x"
  have "gpu (?u t) = gpu (?u s)" "font_addr (?u t) = font_addr (?u s)" "console_pos (?u t) = console_pos (?u s)"
    "mem (?u t) = mem (?u s)" "uart_out (?u t) = uart_out (?u s)"
    using assms by (simp_all add: uartputc_def)
  then show ?thesis unfolding putc_def uart_out_graphic_putc by (intro conjI graphic_putc_cong [THEN conjunct1] graphic_putc_cong [THEN conjunct2])
qed

lemma hold_putc [simp]: "putc c (hold l k s) = hold l k (putc c s)"
proof -
  note e = putc_out_cong [of "hold l k s" s c, OF hold_cons_sel]
  have "putc c (hold l k s) = (hold l k s)\<lparr>mem := mem (putc c (hold l k s)), uart_out := uart_out (putc c (hold l k s)),
      console_pos := console_pos (putc c (hold l k s))\<rparr>" by (rule putc_shows)
  also have "\<dots> = hold l k (s\<lparr>mem := mem (putc c s), uart_out := uart_out (putc c s), console_pos := console_pos (putc c s)\<rparr>)"
    by (simp only: e hold_shows)
  finally show ?thesis by (simp only: putc_shows [of c s, symmetric])
qed

lemma input_frame [simp]:
  "input (hold l c s) = input s" "panicked (hold l c s) = panicked s" "input (wakeup1 ch s) = input s" "panicked (wakeup1 ch s) = panicked s"
  by (simp_all add: hold_def push_state_def wakeup1_def)

lemma upd_input_frame [simp]:
  "input (upd_input f s) = f (input s)" "ptable (upd_input f s) = ptable s" "panicked (upd_input f s) = panicked s"
  "at_proc c i (upd_input f s) = at_proc c i s"
  by (simp_all add: upd_input_def at_proc_cong [of "s\<lparr>input := _\<rparr>" s])

lemma hold_upd_input [simp]: "upd_input f (hold l c s) = hold l c (upd_input f s)"
  by (cases s) (simp add: upd_input_def hold_def push_state_def)

subsection \<open>The input ring\<close>

definition in_len :: "inputbuf \<Rightarrow> nat" where
  "in_len q = unat (ie q - ir q)"

definition in_bytes :: "inputbuf \<Rightarrow> u8 list" where
  "in_bytes q = map (\<lambda>k. ibuf q ! (unat (ir q + of_nat k) mod INPUT_BUF)) [0..<in_len q]"

definition inring_ok :: "inputbuf \<Rightarrow> bool" where
  "inring_ok q \<longleftrightarrow> length (ibuf q) = INPUT_BUF \<and> in_len q \<le> INPUT_BUF"

definition in_full :: "inputbuf \<Rightarrow> bool" where
  "in_full q \<longleftrightarrow> \<not> ie q - ir q < of_nat INPUT_BUF"

lemma length_in_bytes [simp]: "length (in_bytes q) = in_len q"
  by (simp add: in_bytes_def)

lemma in_len_iff: "n < 2 ^ 32 \<Longrightarrow> in_len q = n \<longleftrightarrow> ie q = ir q + of_nat n"
  unfolding in_len_def by (rule word_distance)

lemma in_full_iff: "in_full q \<longleftrightarrow> \<not> in_len q < INPUT_BUF"
  by (simp add: in_full_def in_len_def word_less_nat_alt)

lemma input_mod: "unat (x + of_nat k :: u32) mod INPUT_BUF = (unat x + k) mod INPUT_BUF"
  by (rule unat_add_mod_dvd) simp

interpretation iq: bounded_queue inring_ok in_bytes INPUT_BUF in_full "\<lambda>q. ir q = ie q" input_put input_get
proof
  fix q :: inputbuf and b assume ok: "inring_ok q"
  show "length (in_bytes q) \<le> INPUT_BUF" using ok by (simp add: inring_ok_def)
  show "in_full q \<longleftrightarrow> length (in_bytes q) = INPUT_BUF" using ok by (auto simp: in_full_iff inring_ok_def)
  show "ir q = ie q \<longleftrightarrow> in_bytes q = []" using in_len_iff [of 0 q] by (auto simp: in_bytes_def)
  show "inring_ok (input_put b q) \<and> in_bytes (input_put b q) = in_bytes q @ [b]" if nf: "\<not> in_full q"
  proof -
    have lt: "in_len q < INPUT_BUF" using nf by (simp add: in_full_iff)
    then have e: "ie q = ir q + of_nat (in_len q)" using in_len_iff [of "in_len q" q] by simp
    then have len: "in_len (input_put b q) = Suc (in_len q)"
      using in_len_iff [of "Suc (in_len q)" "input_put b q"] lt by (simp add: input_put_def algebra_simps)
    have "(unat (ir q) + in_len q) mod INPUT_BUF \<noteq> (unat (ir q) + k) mod INPUT_BUF" if "k < in_len q" for k
      using mod_window [OF that lt] by metis
    then show ?thesis
      using ok len lt e by (auto simp: inring_ok_def in_bytes_def input_put_def input_mod)
  qed
  show "inring_ok (snd (input_get q)) \<and> in_bytes q = fst (input_get q) # in_bytes (snd (input_get q))" if ne: "ir q \<noteq> ie q"
  proof -
    obtain m where m: "in_len q = Suc m" "m < INPUT_BUF"
      using ne ok in_len_iff [of 0 q] by (cases "in_len q") (auto simp: inring_ok_def)
    then have e: "ie q = ir q + of_nat (Suc m)" using in_len_iff [of "Suc m" q] by simp
    then have len: "in_len (snd (input_get q)) = m"
      using in_len_iff [of m "snd (input_get q)"] m(2) by (simp add: input_get_def add.assoc)
    then show ?thesis
      unfolding in_bytes_def m(1) len map_upt_Suc
      using ok m(2) len by (simp add: inring_ok_def input_get_def add.assoc)
  qed
qed

subsection \<open>The line editor\<close>

text \<open>The specification: bytes ready to be read and the line being typed. Control-U drops the line, backspace its last
  character; a line is handed over at a newline, at end of file (control-D) or when the buffer is full. Characters that do
  not fit are ignored.\<close>

definition edit :: "u8 \<Rightarrow> u8 list \<times> u8 list \<Rightarrow> u8 list \<times> u8 list" where
  "edit c = (\<lambda>(ready, line).
     if c = 16 then (ready, line)
     else if c = 21 then (ready, [])
     else if c = 8 \<or> c = 127 then (ready, butlast line)
     else if c = 0 \<or> length ready + length line = INPUT_BUF then (ready, line)
     else
       let c = (if c = 13 then 10 else c); line = line @ [c] in
       if c = 10 \<or> c = 4 \<or> length ready + length line = INPUT_BUF then (ready @ line, []) else (ready, line))"

definition in_ready :: "inputbuf \<Rightarrow> u8 list" where
  "in_ready q = take (unat (iw q - ir q)) (in_bytes q)"

definition in_line :: "inputbuf \<Rightarrow> u8 list" where
  "in_line q = drop (unat (iw q - ir q)) (in_bytes q)"

definition in_abs :: "inputbuf \<Rightarrow> u8 list \<times> u8 list" where
  "in_abs q = (in_ready q, in_line q)"

text \<open>The invariant of the ring; the line being typed has no newline in it.\<close>

definition in_ok :: "inputbuf \<Rightarrow> bool" where
  "in_ok q \<longleftrightarrow> inring_ok q \<and> unat (iw q - ir q) \<le> in_len q \<and> 10 \<notin> set (in_line q)"

lemma in_okD:
  assumes "in_ok q"
  shows "inring_ok q" "unat (iw q - ir q) \<le> in_len q" "in_len q \<le> INPUT_BUF" "10 \<notin> set (in_line q)" "in_bytes q = in_ready q @ in_line q"
    "length (in_ready q) = unat (iw q - ir q)" "length (in_line q) = in_len q - unat (iw q - ir q)"
    "length (in_ready q) + length (in_line q) = in_len q"
  using assms by (auto simp: in_ok_def inring_ok_def in_ready_def in_line_def)

lemma line_empty_iff: "in_ok q \<Longrightarrow> in_line q = [] \<longleftrightarrow> ie q = iw q"
proof -
  assume ok: "in_ok q"
  note D = in_okD [OF ok]
  have "in_line q = [] \<longleftrightarrow> unat (ie q - ir q) = unat (iw q - ir q)" using D(2,7) by (auto simp: in_len_def simp flip: length_0_conv)
  also have "\<dots> \<longleftrightarrow> ie q = iw q" by (simp flip: word_unat_eq_iff)
  finally show ?thesis .
qed

lemma input_delete:
  assumes ok: "in_ok q" and ne: "ie q \<noteq> iw q"
  defines "q' \<equiv> q\<lparr>ie := ie q - 1\<rparr>"
  shows "in_ok q'" "in_abs q' = (in_ready q, butlast (in_line q))" "ibuf q ! (unat (ie q - 1) mod INPUT_BUF) = last (in_line q)"
proof -
  note D = in_okD [OF ok]
  have nl: "in_line q \<noteq> []" using ne line_empty_iff [OF ok] by simp
  then have lt: "unat (iw q - ir q) < in_len q" using D(2,7) by (simp flip: length_greater_0_conv)
  then obtain m where m: "in_len q = Suc m" "m < INPUT_BUF" using D(3) by (cases "in_len q") auto
  then have e: "ie q = ir q + of_nat (Suc m)" using in_len_iff [of "Suc m" q] by simp
  then have len: "in_len q' = m" using in_len_iff [of m q'] m(2) by (simp add: q'_def)
  have bytes: "in_bytes q = in_bytes q' @ [ibuf q ! (unat (ie q - 1) mod INPUT_BUF)]"
    using e len m(1) by (simp add: in_bytes_def q'_def)
  have w: "unat (iw q' - ir q') = unat (iw q - ir q)" by (simp add: q'_def)
  have ready: "in_ready q' = in_ready q" using lt m(1) len w by (simp add: in_ready_def bytes)
  have line: "in_line q = in_line q' @ [ibuf q ! (unat (ie q - 1) mod INPUT_BUF)]" using lt m(1) len w by (simp add: in_line_def bytes)
  show "ibuf q ! (unat (ie q - 1) mod INPUT_BUF) = last (in_line q)" by (simp add: line)
  show "in_abs q' = (in_ready q, butlast (in_line q))" by (simp add: in_abs_def ready line)
  show "in_ok q'" using D(1,4) lt m len w line by (auto simp: in_ok_def inring_ok_def q'_def)
qed

lemma input_append:
  assumes ok: "in_ok q" and nf: "\<not> in_full q"
  shows "in_abs (input_put b q) = (in_ready q, in_line q @ [b])" "inring_ok (input_put b q)" "in_len (input_put b q) = Suc (in_len q)"
    "unat (iw (input_put b q) - ir (input_put b q)) = unat (iw q - ir q)"
proof -
  note D = in_okD [OF ok]
  note p = iq.put_abs [OF D(1) nf, of b]
  show w: "unat (iw (input_put b q) - ir (input_put b q)) = unat (iw q - ir q)" by (simp add: input_put_def)
  show "inring_ok (input_put b q)" using p by simp
  have "length (in_bytes (input_put b q)) = Suc (length (in_bytes q))" using p by simp
  then show "in_len (input_put b q) = Suc (in_len q)" by simp
  show "in_abs (input_put b q) = (in_ready q, in_line q @ [b])" using D(2) by (simp add: in_abs_def in_ready_def in_line_def w p)
qed

lemma input_commit:
  assumes "inring_ok q"
  shows "in_ok (q\<lparr>iw := ie q\<rparr>)" "in_abs (q\<lparr>iw := ie q\<rparr>) = (in_bytes q, [])"
proof -
  let ?q = "q\<lparr>iw := ie q\<rparr>"
  have b: "in_bytes ?q = in_bytes q" "in_len ?q = in_len q" by (simp_all add: in_bytes_def in_len_def)
  have w: "unat (iw ?q - ir ?q) = in_len q" by (simp add: in_len_def)
  show "in_abs ?q = (in_bytes q, [])" by (simp add: in_abs_def in_ready_def in_line_def b flip: in_len_def)
  then show "in_ok ?q" using assms w b by (simp add: in_ok_def inring_ok_def in_abs_def)
qed

subsection \<open>Interrupts of the console\<close>

text \<open>Some process waits for input.\<close>

definition reader_waits :: "'a consst_scheme \<Rightarrow> bool" where
  "reader_waits s \<longleftrightarrow> (\<exists>p\<in>set (ptable s). state p = SLEEPING \<and> wchan p = Some ChanInput)"

text \<open>What a console interrupt leaves alone: processes are woken up and not changed otherwise, and no reader waits when there
  is new input for it.\<close>

definition cons_step :: "'a consst_scheme \<Rightarrow> 'a consst_scheme \<Rightarrow> bool" where
  "cons_step s t \<longleftrightarrow> same_procs s t \<and> panicked t = panicked s \<and> (\<forall>c i. at_proc c i t = at_proc c i s) \<and>
     (reader_waits t \<longrightarrow> reader_waits s \<and> in_ready (input t) = in_ready (input s))"

lemma cons_step_refl [simp]: "cons_step s s"
  by (simp add: cons_step_def)

lemma cons_step_trans [trans]: "cons_step s t \<Longrightarrow> cons_step t u \<Longrightarrow> cons_step s u"
  by (auto simp: cons_step_def intro: same_procs_trans)

lemma reader_waits_frame [simp]:
  "reader_waits (putc c s) = reader_waits s" "reader_waits (upd_input f s) = reader_waits s" "\<not> reader_waits (wakeup1 (Some ChanInput) s)"
  by (auto simp: reader_waits_def wakeup1_def split: if_splits)

lemma same_procs_frame [simp]: "same_procs s (putc c t) = same_procs s t" "same_procs s (upd_input f t) = same_procs s t"
  by (simp_all add: same_procs_def)

lemma cons_step_putc: "in_ready (f (input s)) = in_ready (input s) \<Longrightarrow> cons_step s (putc c (upd_input f s))"
  by (simp add: cons_step_def)

lemma cons_step_wake: "cons_step s (wakeup1 (Some ChanInput) (upd_input f (putc c (upd_input g s))))"
  by (simp add: cons_step_def)

lemma delete_char:
  assumes "at_proc c i s" and "\<not> panicked s" and "in_ok (input s)" and "ie (input s) \<noteq> iw (input s)"
  defines "t \<equiv> putc BACKSPACE (upd_input (\<lambda>q. q\<lparr>ie := ie q - 1\<rparr>) s)"
  shows "consputc BACKSPACE (upd_input (\<lambda>q. q\<lparr>ie := ie q - 1\<rparr>) (hold l c s)) = Inr (hold l c t)"
    "cons_step s t" "in_ok (input t)" "in_abs (input t) = (in_ready (input s), butlast (in_line (input s)))"
proof -
  note d = input_delete [OF assms(3,4)]
  show "consputc BACKSPACE (upd_input (\<lambda>q. q\<lparr>ie := ie q - 1\<rparr>) (hold l c s)) = Inr (hold l c t)"
    using assms(2) by (simp add: t_def consputc_eq)
  show "in_ok (input t)" "in_abs (input t) = (in_ready (input s), butlast (in_line (input s)))" using d(1,2) by (simp_all add: t_def)
  then show "cons_step s t" unfolding t_def by (intro cons_step_putc) (simp add: in_abs_def)
qed

lemma kill_line_edits:
  assumes "at_proc c i s" and "\<not> panicked s" and "in_ok (input s)" and "length (in_line (input s)) = n"
  shows "\<exists>t. kill_line n (hold l c s) = Inr (hold l c t) \<and> cons_step s t \<and> in_ok (input t) \<and> in_abs (input t) = (in_ready (input s), [])"
  using assms
proof (induction n arbitrary: s)
  case 0
  then show ?case by (intro exI [of _ s]) (simp add: in_abs_def)
next
  case (Suc n)
  let ?t = "putc BACKSPACE (upd_input (\<lambda>q. q\<lparr>ie := ie q - 1\<rparr>) s)"
  have nl: "in_line (input s) \<noteq> []" using Suc.prems(4) by auto
  then have ne: "ie (input s) \<noteq> iw (input s)" using line_empty_iff [OF Suc.prems(3)] by simp
  note d = delete_char [OF Suc.prems(1-3) ne]
  have "ibuf (input s) ! (unat (ie (input s) - 1) mod INPUT_BUF) \<noteq> 10"
    using input_delete(3) [OF Suc.prems(3) ne] in_okD(4) [OF Suc.prems(3)] last_in_set [OF nl] by metis
  then have e: "kill_line (Suc n) (hold l c s) = kill_line n (hold l c ?t)" using ne d(1) by simp
  have p: "at_proc c i ?t" "\<not> panicked ?t" "length (in_line (input ?t)) = n" "in_ready (input ?t) = in_ready (input s)"
    using Suc.prems d(4) by (simp_all add: in_abs_def)
  obtain u where "kill_line n (hold l c ?t) = Inr (hold l c u)" "cons_step ?t u" "in_ok (input u)" "in_abs (input u) = (in_ready (input ?t), [])"
    using Suc.IH [OF p(1,2) d(3) p(3)] by blast
  then show ?case using e p(4) cons_step_trans [OF d(2)] by (intro exI [of _ u]) simp
qed

text \<open>A character that is not an editing key, entered into a buffer with room for it.\<close>

lemma insert_edits:
  fixes ch :: u8
  assumes at: "at_proc c i s" and np: "\<not> panicked s" and ok: "in_ok (input s)" and nf: "\<not> in_full (input s)"
  shows "\<exists>t. kbind (consputc (ucast ch) (upd_input (input_put ch) (hold ConsLock c s))) (\<lambda>s.
        if ch = 10 \<or> ch = 4 \<or> ie (input s) = ir (input s) + of_nat INPUT_BUF
        then wakeup ChanInput (upd_input (\<lambda>q. q\<lparr>iw := ie q\<rparr>) s) else Inr s) = Inr (hold ConsLock c t) \<and>
      cons_step s t \<and> in_ok (input t) \<and> in_abs (input t) =
        (if ch = 10 \<or> ch = 4 \<or> in_len (input s) + 1 = INPUT_BUF then (in_ready (input s) @ in_line (input s) @ [ch], [])
         else (in_ready (input s), in_line (input s) @ [ch]))"
proof -
  let ?q = "input_put ch (input s)"
  let ?t = "putc (ucast ch) (upd_input (input_put ch) s)"
  let ?u = "upd_input (\<lambda>q. q\<lparr>iw := ie q\<rparr>) ?t"
  note a = input_append [OF ok nf, of ch]
  note D = in_okD [OF ok]
  have put: "consputc (ucast ch) (upd_input (input_put ch) (hold ConsLock c s)) = Inr (hold ConsLock c ?t)"
    using np by (simp add: consputc_eq)
  have full: "ie ?q = ir ?q + of_nat INPUT_BUF \<longleftrightarrow> in_len (input s) + 1 = INPUT_BUF"
    using in_len_iff [of INPUT_BUF ?q] a(3) by simp
  show ?thesis
  proof (cases "ch = 10 \<or> ch = 4 \<or> in_len (input s) + 1 = INPUT_BUF")
    case True
    have "in_bytes ?q = in_ready (input s) @ in_line (input s) @ [ch]" using iq.put_abs [OF D(1) nf, of ch] D(5) by simp
    then have "in_ok (input ?u)" "in_abs (input ?u) = (in_ready (input s) @ in_line (input s) @ [ch], [])"
      using input_commit [OF a(2)] by simp_all
    moreover have "wakeup ChanInput (hold ConsLock c ?u) = Inr (hold ConsLock c (wakeup1 (Some ChanInput) ?u))"
      using at by (intro wakeup_hold [of c i]) simp_all
    ultimately show ?thesis
      using put full True cons_step_wake [of s] by (intro exI [of _ "wakeup1 (Some ChanInput) ?u"]) simp
  next
    case False
    then have "in_ok ?q" using a D(2,4) by (auto simp: in_ok_def in_abs_def)
    then show ?thesis
      using put full False a(1) cons_step_putc [of "input_put ch" s] by (intro exI [of _ ?t]) (simp add: in_abs_def)
  qed
qed

lemma ucast_ucast_u8 [simp]: "ucast (ucast ch :: u32) = (ch :: u8)"
  by (rule bit_word_eqI) (simp add: bit_simps)

lemma unat_u8: "unat (b :: u8) < 256"
  by (rule order_less_le_trans [OF unsigned_less]) simp

lemma unat_ucast_u8: "unat (ucast b :: u32) = unat (b :: u8)"
  using unat_u8 [of b] by (simp add: unsigned_ucast_eq take_bit_nat_eq_self)

lemma ucast_key:
  fixes ch :: u8
  assumes "unat k < 256"
  shows "(ucast ch = (k :: u32)) = (ch = ucast k)"
proof
  assume "ucast ch = k"
  then show "ch = ucast k" using ucast_ucast_u8 [of ch] by simp
next
  assume "ch = ucast k"
  then show "ucast ch = k" using assms by (simp add: word_unat_eq_iff unsigned_ucast_eq take_bit_nat_eq_self)
qed

lemma ucast_keys [simp]:
  fixes ch :: u8
  shows "(ucast ch = (0 :: u32)) = (ch = 0)" "(ucast ch = (4 :: u32)) = (ch = 4)" "(ucast ch = (8 :: u32)) = (ch = 8)"
    "(ucast ch = (10 :: u32)) = (ch = 10)" "(ucast ch = (13 :: u32)) = (ch = 13)" "(ucast ch = (16 :: u32)) = (ch = 16)"
    "(ucast ch = (21 :: u32)) = (ch = 21)" "(ucast ch = (127 :: u32)) = (ch = 127)"
  by (simp_all add: ucast_key)

lemma consoleintr_char_edits:
  assumes at: "at_proc c i s" and np: "\<not> panicked s" and ok: "in_ok (input s)" and c: "ch \<noteq> 16"
  shows "\<exists>t. consoleintr_char (ucast ch) (hold ConsLock c s) = Inr (hold ConsLock c t) \<and> cons_step s t \<and> in_ok (input t) \<and>
     in_abs (input t) = edit ch (in_abs (input s))"
proof -
  note D = in_okD [OF ok]
  have full: "in_full (input s) \<longleftrightarrow> length (in_ready (input s)) + length (in_line (input s)) = INPUT_BUF"
    using D(3,8) by (auto simp: in_full_iff)
  consider "ch = 21" | "ch = 8 \<or> ch = 127" | "ch \<notin> {21, 8, 127}" "ch = 0 \<or> in_full (input s)"
    | "ch \<notin> {21, 8, 127, 0}" "\<not> in_full (input s)" by blast
  then show ?thesis
  proof cases
    case 1
    have "unat (ie (input s) - iw (input s)) = length (in_line (input s))"
      using unat_sub [of "iw (input s) - ir (input s)" "ie (input s) - ir (input s)"] D(2,7) by (simp add: in_len_def word_le_nat_alt)
    then show ?thesis using kill_line_edits [OF at np ok, of _ ConsLock] 1 by (auto simp: consoleintr_char_def edit_def in_abs_def)
  next
    case 2
    show ?thesis
    proof (cases "ie (input s) = iw (input s)")
      case True
      then have "in_line (input s) = []" using line_empty_iff [OF ok] by simp
      then show ?thesis using True 2 ok by (intro exI [of _ s]) (auto simp: consoleintr_char_def edit_def in_abs_def)
    next
      case False
      note d = delete_char [OF at np ok False]
      show ?thesis
        using 2 False d(1) [of ConsLock] d(2-4)
        by (intro exI [of _ "putc BACKSPACE (upd_input (\<lambda>q. q\<lparr>ie := ie q - 1\<rparr>) s)"]) (auto simp: consoleintr_char_def edit_def in_abs_def)
    qed
  next
    case 3
    have "ie (input s) - ir (input s) < 128 \<longleftrightarrow> \<not> in_full (input s)" by (simp add: in_full_def)
    then show ?thesis using 3 c full ok
      by (intro exI [of _ s]) (auto simp: consoleintr_char_def edit_def in_abs_def)
  next
    case 4
    let ?ch = "if ch = 13 then 10 else ch"
    have room: "ie (input s) - ir (input s) < 128" using 4(2) by (simp add: in_full_def)
    obtain t where t: "kbind (consputc (ucast ?ch) (upd_input (input_put ?ch) (hold ConsLock c s))) (\<lambda>s.
        if ?ch = 10 \<or> ?ch = 4 \<or> ie (input s) = ir (input s) + of_nat INPUT_BUF
        then wakeup ChanInput (upd_input (\<lambda>q. q\<lparr>iw := ie q\<rparr>) s) else Inr s) = Inr (hold ConsLock c t)"
      "cons_step s t" "in_ok (input t)" "in_abs (input t) =
        (if ?ch = 10 \<or> ?ch = 4 \<or> in_len (input s) + 1 = INPUT_BUF then (in_ready (input s) @ in_line (input s) @ [?ch], [])
         else (in_ready (input s), in_line (input s) @ [?ch]))"
      using insert_edits [OF at np ok 4(2), of ?ch] by (elim exE conjE) (rule that)
    have "consoleintr_char (ucast ch) (hold ConsLock c s) = Inr (hold ConsLock c t)"
      using t(1) 4(1) room by (cases "ch = 13") (simp_all add: consoleintr_char_def Let_def)
    moreover have "in_abs (input t) = edit ch (in_abs (input s))"
      using 4 c full unfolding t(4) D(8) [symmetric] by (simp add: edit_def in_abs_def Let_def)
    ultimately show ?thesis using t(2,3) by blast
  qed
qed

lemma consoleintr_loop_edits:
  assumes "at_proc c i s" and "\<not> panicked s" and "in_ok (input s)"
  shows "\<exists>t. consoleintr_loop (map ucast cs) d (hold ConsLock c s) = Inr (d \<or> 16 \<in> set cs, hold ConsLock c t) \<and> cons_step s t \<and>
     in_ok (input t) \<and> in_abs (input t) = fold edit cs (in_abs (input s))"
  using assms
proof (induction cs arbitrary: d s)
  case (Cons ch cs)
  show ?case
  proof (cases "ch = 16")
    case True
    then show ?thesis using Cons.IH [OF Cons.prems, of True] by (simp add: edit_def split_beta)
  next
    case False
    obtain t where t: "consoleintr_char (ucast ch) (hold ConsLock c s) = Inr (hold ConsLock c t)" "cons_step s t" "in_ok (input t)"
      "in_abs (input t) = edit ch (in_abs (input s))"
      using consoleintr_char_edits [OF Cons.prems False] by blast
    have "at_proc c i t" "\<not> panicked t" using t(2) Cons.prems by (simp_all add: cons_step_def)
    then obtain u where "consoleintr_loop (map ucast cs) d (hold ConsLock c t) = Inr (d \<or> 16 \<in> set cs, hold ConsLock c u)" "cons_step t u"
      "in_ok (input u)" "in_abs (input u) = fold edit cs (in_abs (input t))"
      using Cons.IH [OF _ _ t(3)] by blast
    then show ?thesis using t False cons_step_trans by (intro exI [of _ u]) auto
  qed
next
  case Nil
  then show ?case by (intro exI [of _ s]) simp
qed

text \<open>C36. The console interrupt handler implements the line editor: the bytes that are ready and the line that is being
  typed are what \<open>edit\<close> makes of them, character by character, whatever the wrap-around of the ring counters; the ring invariant is
  kept, processes are only woken up, and no reader is left asleep when there is new input. The process listing
  is printed afterwards exactly if control-P was typed.\<close>

theorem consoleintr_edits:
  assumes "at_proc c i s" and "\<not> panicked s" and "in_ok (input s)"
  shows "\<exists>t. consoleintr (map ucast cs) s = (if 16 \<in> set cs then procdump t else Inr t) \<and>
     in_ok (input t) \<and> in_abs (input t) = fold edit cs (in_abs (input s)) \<and> same_procs s t \<and>
     (in_ready (input t) \<noteq> in_ready (input s) \<longrightarrow> \<not> reader_waits t)"
proof -
  obtain t where t: "consoleintr_loop (map ucast cs) False (hold ConsLock c s) = Inr (16 \<in> set cs, hold ConsLock c t)" "cons_step s t"
    "in_ok (input t)" "in_abs (input t) = fold edit cs (in_abs (input s))"
    using consoleintr_loop_edits [OF assms, of cs False] by auto
  have "at_proc c i t" using t(2) assms(1) by (simp add: cons_step_def)
  then have "consoleintr (map ucast cs) s = (if 16 \<in> set cs then procdump t else Inr t)"
    using t(1) assms(1) by (simp add: consoleintr_def at_proc [of c i])
  then show ?thesis using t(2-4) by (intro exI [of _ t]) (auto simp: cons_step_def)
qed

subsection \<open>Reading lines\<close>

text \<open>What a read of \<open>n\<close> more bytes takes from the bytes that are ready, after those it has \<open>got\<close>: up to \<open>n\<close> bytes, but not
  beyond a newline, and not beyond the end-of-file character, which is used up only by a read that has nothing else.
  \<open>None\<close> means that the read has to wait.\<close>

fun take_line :: "nat \<Rightarrow> u8 list \<Rightarrow> u8 list \<Rightarrow> (u8 list \<times> u8 list) option" where
  "take_line 0 got ready = Some (got, ready)"
| "take_line (Suc n) got [] = None"
| "take_line (Suc n) got (b # ready) =
     (if b = 4 then Some (got, if got = [] then ready else b # ready)
      else if b = 10 then Some (got @ [b], ready)
      else take_line n (got @ [b]) ready)"

lemma ready_empty_iff: "in_ok q \<Longrightarrow> in_ready q = [] \<longleftrightarrow> ir q = iw q"
  using in_okD(6) [of q] by (cases "in_ready q") (auto simp: unat_eq_0)

lemma input_get_ready:
  assumes ok: "in_ok q" and ne: "ir q \<noteq> iw q"
  shows "in_ok (snd (input_get q))" "in_ready q = fst (input_get q) # in_ready (snd (input_get q))" "in_line (snd (input_get q)) = in_line q"
proof -
  let ?q = "snd (input_get q)"
  note D = in_okD [OF ok]
  have "in_ready q \<noteq> []" using ready_empty_iff [OF ok] ne by simp
  then obtain m where m: "unat (iw q - ir q) = Suc m" using D(6) by (cases "unat (iw q - ir q)") auto
  then have "ir q \<noteq> ie q" using D(2) by (auto simp: in_len_def)
  note g = iq.get_abs [OF D(1) this]
  have "Suc m < 2 ^ 32" using D(2,3) m by simp
  then have "iw q = ir q + of_nat (Suc m)" using word_distance [of "Suc m" "iw q" "ir q"] m by simp
  then have w: "unat (iw ?q - ir ?q) = m"
    using word_distance [of m "iw ?q" "ir ?q"] \<open>Suc m < 2 ^ 32\<close> by (simp add: input_get_def add.assoc)
  show r: "in_ready q = fst (input_get q) # in_ready ?q" using g by (simp add: in_ready_def m w)
  show l: "in_line ?q = in_line q" using g by (simp add: in_line_def m w)
  have "in_len q = Suc (in_len ?q)" using g length_in_bytes [of q] length_in_bytes [of ?q] by (simp del: length_in_bytes)
  then show "in_ok ?q" using g D(2,4) m w l by (simp add: in_ok_def)
qed

lemma consoleread_end_eq:
  assumes "at_proc c i s" and "length got < 2 ^ 31"
  shows "consoleread_end k (of_nat (n + length got)) (of_nat n) got (hold ConsLock c s) =
    kbind (ilock k s) (\<lambda>u. Inr ((int (length got), got), u))"
proof -
  have "sint (of_nat (length got) :: u32) = int (length got)"
    using assms(2) by (simp add: signed_of_nat signed_take_bit_int_eq_self)
  then show ?thesis using assms(1) by (simp add: consoleread_end_def at_proc [of c i])
qed

lemma input_update_frame [simp]:
  "at_proc c i (s\<lparr>input := q\<rparr>) = at_proc c i s" "(hold l c s)\<lparr>input := q\<rparr> = hold l c (s\<lparr>input := q\<rparr>)"
  using upd_input_frame(4) [of c i "\<lambda>_. q" s] hold_upd_input [of "\<lambda>_. q" l c s] by (simp_all add: upd_input_def)

text \<open>One byte taken out of the ring, by what it is.\<close>

lemma consoleread_byte:
  fixes s :: "'a consst_scheme"
  assumes "at_proc c i s" and ok: "in_ok (input s)" and ne: "ir (input s) \<noteq> iw (input s)" and len: "Suc n + length got < 2 ^ 31"
  defines "b \<equiv> fst (input_get (input s))" and "q \<equiv> snd (input_get (input s))"
  shows "consoleread_loop k (of_nat (Suc n + length got)) (Suc n) got (hold ConsLock c s) =
    (if b = 4 then kbind (ilock k (if got = [] then s\<lparr>input := q\<rparr> else s)) (\<lambda>u. Inr ((int (length got), got), u))
     else if b = 10 then kbind (ilock k (s\<lparr>input := q\<rparr>)) (\<lambda>u. Inr ((int (Suc (length got)), got @ [b]), u))
     else consoleread_loop k (of_nat (n + length (got @ [b]))) n (got @ [b]) (hold ConsLock c (s\<lparr>input := q\<rparr>)))"
proof -
  have less: "(of_nat (Suc n) :: u32) < of_nat (Suc n + length got) \<longleftrightarrow> got \<noteq> []"
    using len by (simp add: word_less_nat_alt unsigned_of_nat take_bit_nat_eq_self del: of_nat_Suc of_nat_add)
  have undo: "upd_input (\<lambda>q. q\<lparr>ir := ir q - 1\<rparr>) (s\<lparr>input := q\<rparr>) = s" by (simp add: q_def input_get_def upd_input_def)
  have e4: "consoleread_end k (of_nat (Suc n + length got)) (of_nat (Suc n)) got (hold ConsLock c t) =
      kbind (ilock k t) (\<lambda>u. Inr ((int (length got), got), u))" if "at_proc c i t" for t :: "'a consst_scheme"
    using consoleread_end_eq [OF that, of got k "Suc n"] len by simp
  have e10: "consoleread_end k (of_nat (Suc n + length got)) (of_nat n) (got @ [b]) (hold ConsLock c (s\<lparr>input := q\<rparr>)) =
      kbind (ilock k (s\<lparr>input := q\<rparr>)) (\<lambda>u. Inr ((int (Suc (length got)), got @ [b]), u))"
    using consoleread_end_eq [of c i "s\<lparr>input := q\<rparr>" "got @ [b]" k n] assms(1) len by simp
  have get: "input_get (input s) = (b, q)" by (simp add: b_def q_def)
  have "consoleread_loop k (of_nat (Suc n + length got)) (Suc n) got (hold ConsLock c s) =
    (if b = 4 then consoleread_end k (of_nat (Suc n + length got)) (of_nat (Suc n)) got (hold ConsLock c (if got \<noteq> [] then s else s\<lparr>input := q\<rparr>))
     else if b = 10 then consoleread_end k (of_nat (Suc n + length got)) (of_nat n) (got @ [b]) (hold ConsLock c (s\<lparr>input := q\<rparr>))
     else consoleread_loop k (of_nat (Suc n + length got)) n (got @ [b]) (hold ConsLock c (s\<lparr>input := q\<rparr>)))"
    unfolding consoleread_loop.simps Let_def input_frame get less using ne undo by simp
  then show ?thesis
    unfolding e10 using e4 [of s] e4 [of "s\<lparr>input := q\<rparr>"] assms(1)
    by (cases "got = []") (simp_all del: consoleread_loop.simps of_nat_Suc of_nat_add)
qed

lemma consoleread_loop_done:
  fixes s :: "'a consst_scheme"
  assumes "at_proc c i s" and "in_ok (input s)" and "n + length got < 2 ^ 31"
    and "take_line n got (in_ready (input s)) = Some (bs, rest)"
  shows "\<exists>q. in_ok q \<and> in_abs q = (rest, in_line (input s)) \<and>
     consoleread_loop k (of_nat (n + length got)) n got (hold ConsLock c s) =
       kbind (ilock k (s\<lparr>input := q\<rparr>)) (\<lambda>u. Inr ((int (length bs), bs), u))"
  using assms
proof (induction n arbitrary: s got)
  case 0
  then show ?case using consoleread_end_eq [of c i s got k 0] by (intro exI [of _ "input s"]) (simp add: in_abs_def)
next
  case (Suc n)
  let ?b = "fst (input_get (input s))" and ?q = "snd (input_get (input s))"
  have ne: "ir (input s) \<noteq> iw (input s)" using Suc.prems(4) ready_empty_iff [OF Suc.prems(2)] by auto
  note g = input_get_ready [OF Suc.prems(2) ne]
  note e = consoleread_byte [OF Suc.prems(1,2) ne Suc.prems(3), of k]
  have ready: "in_ready (input s) = ?b # in_ready ?q" by (rule g(2))
  consider "?b = 4" "got = []" | "?b = 4" "got \<noteq> []" | "?b = 10" | "?b \<noteq> 4" "?b \<noteq> 10" by blast
  then show ?case
  proof cases
    case 1
    then show ?thesis using g(1,3) Suc.prems(4) unfolding e ready by (intro exI [of _ ?q]) (simp add: in_abs_def)
  next
    case 2
    then show ?thesis using Suc.prems(2,4) ready unfolding e by (intro exI [of _ "input s"]) (simp add: in_abs_def)
  next
    case 3
    then show ?thesis using g(1,3) Suc.prems(4) unfolding e ready by (intro exI [of _ ?q]) (auto simp: in_abs_def)
  next
    case 4
    then have "take_line n (got @ [?b]) (in_ready (input (s\<lparr>input := ?q\<rparr>))) = Some (bs, rest)" using Suc.prems(4) unfolding ready by simp
    moreover have "at_proc c i (s\<lparr>input := ?q\<rparr>)" "in_ok (input (s\<lparr>input := ?q\<rparr>))" "n + length (got @ [?b]) < 2 ^ 31"
      using Suc.prems g(1) by simp_all
    ultimately obtain q where "in_ok q \<and> in_abs q = (rest, in_line (input (s\<lparr>input := ?q\<rparr>))) \<and>
        consoleread_loop k (of_nat (n + length (got @ [?b]))) n (got @ [?b]) (hold ConsLock c (s\<lparr>input := ?q\<rparr>)) =
        kbind (ilock k (s\<lparr>input := ?q\<rparr>\<lparr>input := q\<rparr>)) (\<lambda>u. Inr ((int (length bs), bs), u))"
      using Suc.IH [of "s\<lparr>input := ?q\<rparr>" "got @ [?b]"] by blast
    then show ?thesis using 4 g(3) unfolding e by (intro exI [of _ q]) (simp del: of_nat_add of_nat_Suc)
  qed
qed

lemma consoleread_loop_waits:
  fixes s :: "'a consst_scheme"
  assumes "at_proc c i s" and "in_ok (input s)" and "n + length got < 2 ^ 31"
    and "take_line n got (in_ready (input s)) = None"
  shows "\<exists>q. in_ok q \<and> in_abs q = ([], in_line (input s)) \<and>
     consoleread_loop k (of_nat (n + length got)) n got (hold ConsLock c s) =
       (if killed (ptable s ! i) then kbind (ilock k (s\<lparr>input := q\<rparr>)) (\<lambda>u. Inr ((-1, got @ in_ready (input s)), u))
        else Inl (Swtch (sleep_state c i ChanInput ConsLock (s\<lparr>input := q\<rparr>))))"
  using assms
proof (induction n arbitrary: s got)
  case (Suc n)
  let ?b = "fst (input_get (input s))" and ?q = "snd (input_get (input s))"
  show ?case
  proof (cases "ir (input s) = iw (input s)")
    case True
    then have "in_ready (input s) = []" using ready_empty_iff [OF Suc.prems(2)] by simp
    then show ?thesis
      using True Suc.prems by (intro exI [of _ "input s"]) (simp add: at_proc [of c i] deref_def in_abs_def)
  next
    case False
    note g = input_get_ready [OF Suc.prems(2) False]
    note e = consoleread_byte [OF Suc.prems(1,2) False Suc.prems(3), of k]
    have b: "?b \<noteq> 4" "?b \<noteq> 10" "take_line n (got @ [?b]) (in_ready (input (s\<lparr>input := ?q\<rparr>))) = None"
      using Suc.prems(4) unfolding g(2) by (auto split: if_splits)
    have "at_proc c i (s\<lparr>input := ?q\<rparr>)" "in_ok (input (s\<lparr>input := ?q\<rparr>))" "n + length (got @ [?b]) < 2 ^ 31"
      using Suc.prems g(1) by simp_all
    from Suc.IH [OF this b(3)] obtain q where "in_ok q \<and> in_abs q = ([], in_line (input (s\<lparr>input := ?q\<rparr>))) \<and>
        consoleread_loop k (of_nat (n + length (got @ [?b]))) n (got @ [?b]) (hold ConsLock c (s\<lparr>input := ?q\<rparr>)) =
       (if killed (ptable (s\<lparr>input := ?q\<rparr>) ! i)
        then kbind (ilock k (s\<lparr>input := ?q\<rparr>\<lparr>input := q\<rparr>)) (\<lambda>u. Inr ((-1, (got @ [?b]) @ in_ready (input (s\<lparr>input := ?q\<rparr>))), u))
        else Inl (Swtch (sleep_state c i ChanInput ConsLock (s\<lparr>input := ?q\<rparr>\<lparr>input := q\<rparr>))))"
      by blast
    then show ?thesis using b(1,2) g(3) unfolding e g(2) by (intro exI [of _ q]) (simp del: of_nat_add of_nat_Suc)
  qed
qed simp

lemma sint_cases: "sint (x :: u32) = (if uint x < 2 ^ 31 then uint x else uint x - 2 ^ 32)"
proof -
  have "uint x < 2 ^ 32" "0 \<le> uint x" using uint_lt2p [of x] by simp_all
  then have "uint x div 2 ^ 31 = (if uint x < 2 ^ 31 then 0 else 1)"
    using int_div_pos_eq [of "uint x" "2 ^ 31" 1 "uint x - 2 ^ 31"] by (simp add: div_pos_pos_trivial)
  then have "bit (uint x) 31 \<longleftrightarrow> \<not> uint x < 2 ^ 31" by (simp add: bit_iff_odd)
  then show ?thesis
    using \<open>uint x < 2 ^ 32\<close> \<open>0 \<le> uint x\<close>
    by (simp add: sint_uint signed_take_bit_eq_take_bit_minus take_bit_int_eq_self)
qed

lemma sless_positive:
  assumes "0 <s (x :: u32)"
  shows "unat x < 2 ^ 31"
proof -
  have "0 < sint x" using assms by (simp add: word_sless_alt)
  then have "uint x < 2 ^ 31" using sint_cases [of x] uint_lt2p [of x] by (simp split: if_splits)
  moreover have "int (unat x) = uint x" by simp
  ultimately have "int (unat x) < int (2 ^ 31)" by simp
  then show ?thesis by (simp only: of_nat_less_iff)
qed

text \<open>The inode lock around a read of the device.\<close>

lemma iunlock_at:
  assumes "at_proc c i s" and "slocked (slocks s (InodeSl k))" and "1 \<le> iref (inodes s ! k)"
  shows "iunlock k s = Inr (wakeup1 (Some (sl_chan (InodeSl k))) (upd_sl (InodeSl k) \<lparr>slocked = False, slpid = 0\<rparr> s))"
  using assms by (simp add: iunlock_def at_proc [of c i])

lemma ilock_at:
  fixes s :: "'a fsst_scheme"
  assumes "at_proc c i s" and "\<not> slocked (slocks s (InodeSl k))" and "1 \<le> iref (inodes s ! k)" and "ivalid (inodes s ! k)"
  shows "ilock k s = Inr (upd_sl (InodeSl k) \<lparr>slocked = True, slpid = pid (ptable s ! i)\<rparr> s)"
  using assms by (simp add: ilock_def at_proc [of c i] upd_sl_def)

lemma cons_frame [simp]:
  "input (upd_sl l x s) = input s" "inodes (upd_sl l x s) = inodes s" "inodes (wakeup1 ch s) = inodes s"
  "slocks (s\<lparr>input := q\<rparr>) = slocks s" "input (sleep_state c i ch' l' s) = input s"
  by (simp_all add: upd_sl_def wakeup1_def sleep_state_def upd_proc_def hold_def push_state_def unhold_def pop_state_def)

text \<open>C37. A read of the console takes what \<open>take_line\<close> says from the ready bytes: up to \<open>n\<close> bytes and no further than the end of
  the line or the end-of-file character. If that is not enough, the bytes read so far are consumed, and the process
  fails with -1 when it has been killed and otherwise sleeps until there is input, with the inode unlocked. The line being typed is not
  touched.\<close>

theorem consoleread_outcome:
  fixes s :: "'a consst_scheme"
  assumes at: "at_proc c i s" and ok: "in_ok (input s)" and n: "0 <s n"
    and ino: "slocked (slocks s (InodeSl k))" "1 \<le> iref (inodes s ! k)" "ivalid (inodes s ! k)"
  shows "case take_line (unat n) [] (in_ready (input s)) of
      Some (bs, rest) \<Rightarrow> \<exists>t. consoleread k n s = Inr ((int (length bs), bs), t) \<and> at_proc c i t \<and> slocked (slocks t (InodeSl k)) \<and>
        in_ok (input t) \<and> in_abs (input t) = (rest, in_line (input s))
    | None \<Rightarrow> \<exists>t. in_ok (input t) \<and> in_abs (input t) = ([], in_line (input s)) \<and>
        (if killed (ptable s ! i) then consoleread k n s = Inr ((-1, in_ready (input s)), t)
         else consoleread k n s = Inl (Swtch t) \<and> state (ptable t ! i) = SLEEPING \<and> wchan (ptable t ! i) = Some ChanInput \<and>
           \<not> slocked (slocks t (InodeSl k)))"
proof -
  let ?u = "wakeup1 (Some (sl_chan (InodeSl k))) (upd_sl (InodeSl k) \<lparr>slocked = False, slpid = 0\<rparr> s)"
  have bound: "unat n + length ([] :: u8 list) < 2 ^ 31" using sless_positive [OF n] by simp
  have pos: "\<not> n \<le>s 0" using n by (simp add: word_sless_alt word_sle_eq)
  have at': "at_proc c i ?u" "in_ok (input ?u)" "take_line (unat n) [] (in_ready (input ?u)) = take_line (unat n) [] (in_ready (input s))"
    using at ok by simp_all
  have e: "consoleread k n s = consoleread_loop k (of_nat (unat n + length ([] :: u8 list))) (unat n) [] (hold ConsLock c ?u)"
    using pos at' by (simp add: consoleread_def iunlock_at [OF at ino(1,2)] at_proc [of c i])
  have lk: "ilock k (?u\<lparr>input := q\<rparr>) = Inr (upd_sl (InodeSl k) \<lparr>slocked = True, slpid = pid (ptable ?u ! i)\<rparr> (?u\<lparr>input := q\<rparr>))" for q
    using at' ino(2,3) by (subst ilock_at [of c i]) simp_all
  have kl: "killed (ptable ?u ! i) = killed (ptable s ! i)"
    using same_procs_fields(4) [of s ?u i] at_procD(5) [OF at] by (simp add: same_procs_eq)
  show ?thesis
  proof (cases "take_line (unat n) [] (in_ready (input s))")
    case (Some p)
    then obtain bs rest where p: "take_line (unat n) [] (in_ready (input s)) = Some (bs, rest)" by (cases p) simp
    then obtain q where "in_ok q" "in_abs q = (rest, in_line (input s))"
      "consoleread k n s = kbind (ilock k (?u\<lparr>input := q\<rparr>)) (\<lambda>u. Inr ((int (length bs), bs), u))"
      using consoleread_loop_done [OF at'(1,2) bound, of bs rest k] at'(3) e by auto
    then show ?thesis
      using at'(1) unfolding lk p option.case prod.case
      by (intro exI [of _ "upd_sl (InodeSl k) \<lparr>slocked = True, slpid = pid (ptable ?u ! i)\<rparr> (?u\<lparr>input := q\<rparr>)"] conjI) simp_all
  next
    case None
    then obtain q where q: "in_ok q" "in_abs q = ([], in_line (input s))"
      "consoleread k n s = (if killed (ptable s ! i) then kbind (ilock k (?u\<lparr>input := q\<rparr>)) (\<lambda>u. Inr ((-1, in_ready (input s)), u))
        else Inl (Swtch (sleep_state c i ChanInput ConsLock (?u\<lparr>input := q\<rparr>))))"
      using consoleread_loop_waits [OF at'(1,2) bound, of k] at'(3) e kl by auto
    show ?thesis
    proof (cases "killed (ptable s ! i)")
      case True
      then show ?thesis using q unfolding lk None option.case
        by (intro exI [of _ "upd_sl (InodeSl k) \<lparr>slocked = True, slpid = pid (ptable ?u ! i)\<rparr> (?u\<lparr>input := q\<rparr>)"] conjI) simp_all
    next
      case False
      then show ?thesis using q at_procD(5) [OF at] unfolding None option.case
        by (intro exI [of _ "sleep_state c i ChanInput ConsLock (?u\<lparr>input := q\<rparr>)"] conjI) (simp_all add: sleep_state_asleep)
    qed
  qed
qed

subsection \<open>Numbers\<close>

text \<open>How a numeral is read: digits, the most significant first, and a sign.\<close>

definition digit_val :: "u8 \<Rightarrow> nat" where
  "digit_val d = (if d < 58 then unat d - 48 else unat d - 87)"

definition read_num :: "nat \<Rightarrow> u8 list \<Rightarrow> nat" where
  "read_num b ds = foldl (\<lambda>a d. b * a + digit_val d) 0 ds"

definition read_int :: "nat \<Rightarrow> u8 list \<Rightarrow> int" where
  "read_int b ds = (case ds of [] \<Rightarrow> 0 | d # ds' \<Rightarrow> if d = 45 then - int (read_num b ds') else int (read_num b ds))"

lemma digits_eq: "digits = [48, 49, 50, 51, 52, 53, 54, 55, 56, 57, 97, 98, 99, 100, 101, 102]"
  by (simp add: digits_def cstring_def of_char_def)

lemma digits_map: "map digit_val digits = [0..<16]" "45 \<notin> set digits"
  by (simp_all add: digits_eq digit_val_def upt_rec)

lemma digits_val:
  assumes "k < 16"
  shows "digit_val (digits ! k) = k" "digits ! k \<noteq> 45"
proof -
  have k: "k < length digits" using assms by (simp add: digits_eq)
  then show "digit_val (digits ! k) = k" using assms nth_map [of k digits digit_val] by (simp add: digits_map)
  show "digits ! k \<noteq> 45" using nth_mem [OF k] digits_map(2) by metis
qed

lemma read_num_snoc: "read_num b (ds @ [d]) = b * read_num b ds + digit_val d"
  by (simp add: read_num_def)

lemma printint_loop_ok:
  assumes "2 \<le> unat base" "unat base \<le> 16" and "unat x < unat base ^ r" "0 < r" "r \<le> free"
  shows "\<exists>ds. printint_loop free base x = Some ds \<and> ds \<noteq> [] \<and> length ds \<le> r \<and> read_num (unat base) (rev ds) = unat x \<and> 45 \<notin> set ds"
  using assms(3-)
proof (induction free arbitrary: x r)
  case (Suc free)
  let ?d = "digits ! unat (x mod base)"
  have "unat x mod unat base < unat base" using assms(1) by (intro mod_less_divisor) simp
  then have "unat (x mod base) < 16" using assms(2) by (simp add: unat_mod)
  note d = digits_val [OF this]
  show ?case
  proof (cases "x div base = 0")
    case True
    then have "unat x < unat base" using assms(1) by (simp add: word_unat_eq_iff unat_div div_eq_0_iff)
    then show ?thesis using True d Suc.prems by (intro exI [of _ "[?d]"]) (simp add: read_num_def unat_mod)
  next
    case False
    then have big: "unat x div unat base \<noteq> 0" by (simp add: word_unat_eq_iff unat_div)
    then have r: "r \<noteq> 1" using Suc.prems(1) by auto
    have r': "0 < r - 1" "r - 1 \<le> free" using r Suc.prems(2,3) by auto
    have lt: "unat (x div base) < unat base ^ (r - 1)"
      using Suc.prems(1,2) by (cases r) (simp_all add: unat_div less_mult_imp_div_less mult.commute)
    obtain ds where "printint_loop free base (x div base) = Some ds" "ds \<noteq> []" "length ds \<le> r - 1"
      "read_num (unat base) (rev ds) = unat (x div base)" "45 \<notin> set ds"
      using Suc.IH [OF lt r'] by blast
    then show ?thesis
      using False d Suc.prems(2) by (intro exI [of _ "?d # ds"]) (simp add: Let_def read_num_snoc unat_div unat_mod)
  qed
qed simp

lemma printint_buf_ok:
  assumes "base = 10 \<or> base = 16"
  shows "\<exists>buf. printint_buf xx base sign = Some buf \<and> length buf \<le> 11 \<and>
     read_int (unat base) (rev buf) = (if sign then sint xx else uint xx)"
proof -
  let ?neg = "sign \<and> xx <s 0"
  let ?x = "if ?neg then - xx else xx"
  have "unat y < 2 ^ 32" for y :: u32 using unsigned_less [of y] by simp
  then have "unat ?x < 2 ^ 32" .
  then have "unat ?x < 10 ^ 10" "unat ?x < 16 ^ 10" by simp_all
  then have "unat ?x < unat base ^ 10" using assms by auto
  then obtain ds where ds: "printint_loop 16 base ?x = Some ds" "ds \<noteq> []" "length ds \<le> 10" "read_num (unat base) (rev ds) = unat ?x" "45 \<notin> set ds"
    using printint_loop_ok [of base ?x 10 16] assms by auto
  have pos: "read_int (unat base) (rev ds) = uint ?x"
  proof -
    have "rev ds \<noteq> []" "hd (rev ds) \<noteq> 45" using ds(2) ds(5) last_in_set [OF ds(2)] hd_rev [of ds] by (simp, metis)
    then show ?thesis using ds(4) by (cases "rev ds") (auto simp: read_int_def)
  qed
  have neg: "read_int (unat base) (45 # rev ds) = - uint ?x" using ds(4) by (simp add: read_int_def)
  show ?thesis
  proof (cases ?neg)
    case True
    then have "\<not> uint xx < 2 ^ 31" using sint_cases [of xx] by (auto simp: word_sless_alt split: if_splits)
    then have "sint xx = - uint (- xx)" using sint_cases [of xx] uint_lt2p [of xx] by (simp add: uint_word_ariths(4) zmod_zminus1_eq_if)
    then show ?thesis using True ds(1,3) neg by (intro exI [of _ "ds @ [45]"]) (simp add: printint_buf_def Let_def)
  next
    case False
    have "sint xx = uint xx" if sign
    proof -
      have "0 \<le> sint xx" using False that by (simp add: word_sless_alt)
      then show ?thesis using sint_cases [of xx] uint_lt2p [of xx] by (simp split: if_splits)
    qed
    then show ?thesis using False ds(1,3) pos by (intro exI [of _ ds]) (auto simp: printint_buf_def Let_def)
  qed
qed

lemma consputs_uart:
  fixes s :: "'a consst_scheme"
  assumes "\<not> panicked s" and "uart s"
  shows "\<exists>t. consputs (map ucast bs) s = Inr t \<and> uart_out t = uart_out s @ bs \<and> \<not> panicked t \<and> uart t"
  using assms
proof (induction bs arbitrary: s)
  case (Cons b bs)
  let ?t = "putc (ucast b) s"
  have nb: "ucast b \<noteq> (BACKSPACE :: u32)"
  proof
    assume "ucast b = (BACKSPACE :: u32)"
    then have "unat b = 256" using unat_ucast_u8 [of b] by simp
    then show False using unat_u8 [of b] by simp
  qed
  have "uart ?t" using Cons.prems(2) by (subst putc_shows) simp
  moreover have "uart_out ?t = uart_out s @ [b]"
    using Cons.prems(2) nb by (simp add: putc_def uart_out_graphic_putc uartputc_def)
  ultimately obtain t where "consputs (map ucast bs) ?t = Inr t \<and> uart_out t = uart_out ?t @ bs \<and> \<not> panicked t \<and> uart t"
    using Cons.IH [of ?t] Cons.prems(1) by auto
  then show ?case using Cons.prems(1) \<open>uart_out ?t = _\<close> by (simp add: consputc_eq)
qed simp

text \<open>C38. \<^verbatim>\<open>printint\<close> stays inside its buffer for every number, also for the smallest one, and what it sends reads back as the
  number: signed if asked for, unsigned otherwise.\<close>

theorem printint_reads_back:
  fixes s :: "'a consst_scheme"
  assumes "base = 10 \<or> base = 16" and "\<not> panicked s" and "uart s"
  shows "\<exists>t str. printint xx base sign s = Inr t \<and> uart_out t = uart_out s @ str \<and> length str \<le> 11 \<and>
     read_int (unat base) str = (if sign then sint xx else uint xx)"
proof -
  obtain buf where buf: "printint_buf xx base sign = Some buf" "length buf \<le> 11"
    "read_int (unat base) (rev buf) = (if sign then sint xx else uint xx)"
    using printint_buf_ok [OF assms(1), of xx sign] by blast
  obtain t where "consputs (map ucast (rev buf)) s = Inr t" "uart_out t = uart_out s @ rev buf"
    using consputs_uart [OF assms(2,3)] by blast
  then show ?thesis using buf by (intro exI [of _ t] exI [of _ "rev buf"]) (simp add: printint_def)
qed

subsection \<open>An example state\<close>

text \<open>The line ``hi'' is ready; its bytes lie across the wrap-around of the counters and of the ring.\<close>

definition demo_input :: inputbuf where
  "demo_input = \<lparr>ibuf = (replicate 128 0)[126 := 104, 127 := 105, 0 := 10], ir = 0xFFFFFFFE, iw = 1, ie = 1\<rparr>"

definition demo_gpu :: gpu where
  "demo_gpu = \<lparr>pvram_addr = 0xF0000000, vvram_addr = 0xFD000000, vram_size = 0x1000000, horizontal_resolution = 800,
     vertical_resolution = 600, pixels_per_line = 800\<rparr>"

definition demo_cons :: consst where
  "demo_cons = kst.extend (filest.extend (fsst.extend (upd_sl (InodeSl 0) \<lparr>slocked = True, slpid = 1\<rparr> demo_fs)
       (filest.fields [])) (kst.fields False))
     (consst.fields demo_gpu 0x80100000 True [] [] [] 0 0 False True demo_input)"

lemma demo_cons_sel:
  "input demo_cons = demo_input" "\<not> panicked demo_cons" "uart demo_cons" "uart_out demo_cons = []" "inodes demo_cons = [demo_inode]"
  "slocked (slocks demo_cons (InodeSl 0))"
  by (simp_all add: demo_cons_def kst.defs filest.defs fsst.defs consst.defs demo_fs_sel upd_sl_def)

lemma demo_cons_at: "at_proc 0 0 demo_cons"
proof -
  have "at_proc 0 0 (upd_sl (InodeSl 0) \<lparr>slocked = True, slpid = 1\<rparr> demo_fs)" using demo_fs_sel(9) by (simp add: trans_def bio_def)
  then show ?thesis
    by (subst at_proc_cong [of demo_cons "upd_sl (InodeSl 0) \<lparr>slocked = True, slpid = 1\<rparr> demo_fs"])
       (simp_all add: demo_cons_def kst.defs filest.defs fsst.defs)
qed

lemma demo_input_abs: "in_ok demo_input" "in_abs demo_input = ([104, 105, 10], [])"
proof -
  have len: "in_len demo_input = 3" "unat (iw demo_input - ir demo_input) = 3" by (simp_all add: in_len_def demo_input_def)
  have "in_bytes demo_input = [104, 105, 10]"
    unfolding in_bytes_def len by (simp add: demo_input_def upt_rec)
  then show "in_abs demo_input = ([104, 105, 10], [])" by (simp add: in_abs_def in_ready_def in_line_def len)
  then show "in_ok demo_input" using len by (simp add: in_ok_def inring_ok_def in_abs_def demo_input_def)
qed

theorem consoleintr_edits_witness:
  "\<exists>t. consoleintr [97, 98, 8, 13] demo_cons = Inr t \<and> in_abs (input t) = ([104, 105, 10, 97, 10], [])"
  using consoleintr_edits [OF demo_cons_at demo_cons_sel(2), of "[97, 98, 8, 13]"] demo_input_abs
  by (auto simp: demo_cons_sel edit_def Let_def)

theorem consoleread_outcome_witness:
  "\<exists>t. consoleread 0 100 demo_cons = Inr ((3, [104, 105, 10]), t) \<and> in_abs (input t) = ([], [])"
proof -
  have "take_line (Suc (Suc (Suc m))) [] [104, 105, 10] = Some ([104, 105, 10], [])" for m by simp
  from this [of 97] have "take_line 100 [] [104, 105, 10] = Some ([104, 105, 10], [])" by simp
  moreover have "in_ready (input demo_cons) = [104, 105, 10]" using demo_input_abs(2) by (simp add: demo_cons_sel in_abs_def)
  moreover have "0 <s (100 :: u32)" by (simp add: word_sless_alt)
  ultimately show ?thesis
    using consoleread_outcome [OF demo_cons_at, of 100 0] demo_input_abs by (auto simp: demo_cons_sel demo_inode_def in_abs_def)
qed

theorem printint_reads_back_witness:
  "\<exists>t str. printint 0x80000000 10 True demo_cons = Inr t \<and> uart_out t = str \<and> read_int 10 str = -2147483648"
  using printint_reads_back [of 10 demo_cons "0x80000000" True] by (auto simp: demo_cons_sel)

end
