(* ===== verification/Vmprops.thy ===== *)
theory Vmprops
  imports Vm
begin

text \<open>
  The page tables of \<^verbatim>\<open>src/vm.c\<close> as functions from virtual addresses to page table entries: what
  \<^verbatim>\<open>walkpgdir\<close>, \<^verbatim>\<open>mappages\<close> and \<^verbatim>\<open>setupkvm\<close> do to them and to the memory
  they map, on top of the page allocator's contract.
\<close>

unbundle bit_operations_syntax

subsection \<open>Entries of a table page\<close>

lemma and_1023_bound: "unat (x AND 0x3FF :: u32) < 1024"
proof -
  have "x AND 0x3FF = take_bit 10 x" by (simp add: take_bit_eq_mask mask_eq_exp_minus_1)
  then show ?thesis using take_bit_nat_less_exp [of 10 "unat x"] by (simp add: unsigned_take_bit_eq)
qed

lemma idx_bounds: "unat (PDX va) < 1024" "unat (PTX va) < 1024"
  by (simp_all only: PDX_def PTX_def and_1023_bound)

lemma entry_offset:
  fixes i :: u32
  shows "p + 4 * i + of_nat k = p + of_nat (4 * unat i + k)"
  by simp

lemma store_entry_other:
  fixes i :: u32
  assumes "page_aligned p" and "page_aligned q" and "unat i < 1024" and "o' < 4096" and "\<not> (p = q \<and> 4 * unat i \<le> o' \<and> o' < 4 * unat i + 4)"
  shows "store32 (p + 4 * i) v m (q + of_nat o') = m (q + of_nat o')"
proof -
  have ne: "q + of_nat o' \<noteq> p + 4 * i + of_nat k" if "k < 4" for k
    using that assms page_offset_eq_iff [OF assms(2,1), of o' "4 * unat i + k"] unfolding entry_offset by auto
  show ?thesis using ne [of 0] ne [of 1] ne [of 2] ne [of 3] by (intro store32_other) simp_all
qed

lemma load_store_entry:
  assumes "page_aligned p" and "page_aligned q" and "unat i < 1024" and "unat j < 1024"
  shows "load32 (store32 (p + 4 * i) v m) (q + 4 * j) = (if p = q \<and> i = j then v else load32 m (q + 4 * j))"
proof (cases "p = q \<and> i = j")
  case False
  have "unat i \<noteq> unat j" if "i \<noteq> j" using that by (simp add: word_unat_eq_iff)
  then have "store32 (p + 4 * i) v m (q + 4 * j + of_nat k) = m (q + 4 * j + of_nat k)" if "k < 4" for k
    unfolding entry_offset [of q j k] using assms that False by (intro store_entry_other) auto
  then show ?thesis using False by (auto intro: load32_cong)
qed simp

lemma load_page_cong:
  assumes "\<forall>x. x - q < PGSIZE \<longrightarrow> m' x = m x" and "page_aligned q" and "unat j < 1024"
  shows "load32 m' (q + 4 * j) = load32 m (q + 4 * j)"
proof (rule load32_cong)
  fix k :: nat assume "k < 4"
  then have n: "4 * unat j + k < 4096" using assms(3) by simp
  have "of_nat n < PGSIZE" if "n < 4096" for n using that unat_page_offset [of 0 n] by (simp add: page_aligned_def word_less_nat_alt)
  then have "q + of_nat (4 * unat j + k) - q < PGSIZE" using n by (metis add_diff_cancel_left')
  then show "m' (q + 4 * j + of_nat k) = m (q + 4 * j + of_nat k)" unfolding entry_offset using assms(1) by blast
qed


subsection \<open>The page table as a map\<close>

definition present :: "u32 \<Rightarrow> bool" where
  "present e \<longleftrightarrow> e AND PTE_P \<noteq> 0"

text \<open>The page directory entry of an address, the table page it names, and the page table entry; the entry counts as 0 where there
  is no table page.\<close>

definition pde :: "'a kmem_scheme \<Rightarrow> u32 \<Rightarrow> u32 \<Rightarrow> u32" where
  "pde s d i = load32 (mem s) (d + 4 * i)"

definition pgtab :: "'a kmem_scheme \<Rightarrow> u32 \<Rightarrow> u32 \<Rightarrow> u32" where
  "pgtab s d i = P2V (PTE_ADDR (pde s d i))"

definition pte :: "'a kmem_scheme \<Rightarrow> u32 \<Rightarrow> u32 \<Rightarrow> u32" where
  "pte s d va = (if present (pde s d (PDX va)) then load32 (mem s) (pgtab s d (PDX va) + 4 * PTX va) else 0)"

text \<open>The pages of the directory and of its tables are different pages of the allocator, none of them free.\<close>

definition pt_ok :: "nat \<Rightarrow> 'a kmem_scheme \<Rightarrow> u32 \<Rightarrow> u32 list \<Rightarrow> bool" where
  "pt_ok c s d ps \<longleftrightarrow> kmem_ok c s ps \<and> kpage s d \<and> d \<notin> set ps \<and>
     (\<forall>i < 1024. present (pde s d i) \<longrightarrow> kpage s (pgtab s d i) \<and> pgtab s d i \<noteq> d \<and> pgtab s d i \<notin> set ps \<and>
       (\<forall>j < 1024. j \<noteq> i \<longrightarrow> present (pde s d j) \<longrightarrow> pgtab s d j \<noteq> pgtab s d i))"

lemma pt_okD:
  assumes "pt_ok c s d ps"
  shows "kmem_ok c s ps" "kpage s d" "d \<notin> set ps" "page_aligned d"
    "i < 1024 \<Longrightarrow> present (pde s d i) \<Longrightarrow> kpage s (pgtab s d i) \<and> page_aligned (pgtab s d i) \<and> pgtab s d i \<noteq> d \<and> pgtab s d i \<notin> set ps"
    "i < 1024 \<Longrightarrow> j < 1024 \<Longrightarrow> present (pde s d i) \<Longrightarrow> present (pde s d j) \<Longrightarrow> j \<noteq> i \<Longrightarrow> pgtab s d j \<noteq> pgtab s d i"
  using assms unfolding pt_ok_def by (auto intro: kpage_aligned)

lemma idx_less: "PDX va < 1024" "PTX va < 1024"
  using idx_bounds by (simp_all add: word_less_nat_alt)

lemma kmem_ok_mem:
  assumes "kmem_ok c s ps" and "\<And>q x. q \<in> set ps \<Longrightarrow> x - q < PGSIZE \<Longrightarrow> m x = mem s x"
  shows "kmem_ok c (s\<lparr>mem := m\<rparr>) ps"
proof -
  have "m (q + of_nat i) = mem s (q + of_nat i)" if "q \<in> set ps" "i < 4" for q i
    by (rule assms(2) [OF that(1)]) (use that(2) in \<open>simp add: word_less_nat_alt unat_of_nat take_bit_nat_eq_self\<close>)
  then have "free_path m (freelist s) ps" using assms(1) by (auto simp: kmem_ok_def free_pages_def intro: free_path_other)
  then show ?thesis using assms(1) by (simp add: kmem_ok_def free_pages_def kpage_def)
qed

text \<open>The pages of a page table.\<close>

definition tabs :: "'a kmem_scheme \<Rightarrow> u32 \<Rightarrow> u32 set" where
  "tabs s d = insert d {pgtab s d i | i. i < 1024 \<and> present (pde s d i)}"

text \<open>Two memories that agree on the directory and its tables describe the same page table.\<close>

lemma pt_frame:
  assumes "pt_ok c s d ps" and "\<And>x. x - d < PGSIZE \<Longrightarrow> mem t x = mem s x"
    and "\<And>x i. i < 1024 \<Longrightarrow> present (pde s d i) \<Longrightarrow> x - pgtab s d i < PGSIZE \<Longrightarrow> mem t x = mem s x"
  shows "i < 1024 \<Longrightarrow> pde t d i = pde s d i" "i < 1024 \<Longrightarrow> pgtab t d i = pgtab s d i" "pte t d = pte s d"
proof -
  note P = pt_okD [OF assms(1)]
  have e: "pde t d i = pde s d i" if "i < 1024" for i
    unfolding pde_def by (rule load_page_cong) (use assms(2) P(4) that in \<open>auto simp: word_less_nat_alt\<close>)
  then show "i < 1024 \<Longrightarrow> pde t d i = pde s d i" "i < 1024 \<Longrightarrow> pgtab t d i = pgtab s d i" by (simp_all add: pgtab_def)
  have "load32 (mem t) (pgtab s d (PDX va) + 4 * PTX va) = load32 (mem s) (pgtab s d (PDX va) + 4 * PTX va)" if "present (pde s d (PDX va))" for va
    by (rule load_page_cong) (use assms(3) [OF idx_less(1) that] P(5) [OF idx_less(1) that] idx_bounds in auto)
  then show "pte t d = pte s d" by (simp add: fun_eq_iff pte_def e pgtab_def idx_less)
qed


subsection \<open>Building the tables\<close>

lemma present_odd: "present e \<longleftrightarrow> odd e"
  by (simp add: present_def and_one_eq odd_iff_mod_2_eq_one)

lemma page_disjoint:
  assumes "page_aligned p" and "page_aligned q" and "p \<noteq> q" and "x - q < PGSIZE"
  shows "\<not> x - p < PGSIZE"
proof -
  have "x = q + of_nat (unat (x - q))" by simp
  moreover have "unat (x - q) < 4096" using assms(4) by (simp add: word_less_nat_alt)
  ultimately show ?thesis using outside_page [OF assms(1-3)] by metis
qed

lemma page_aligned_bits: "page_aligned a \<longleftrightarrow> take_bit 12 a = 0"
  by (simp add: page_aligned_def take_bit_eq_mod)

lemma PTE_ADDR_or: "page_aligned a \<Longrightarrow> f AND NOT 0xFFF = 0 \<Longrightarrow> PTE_ADDR (a OR f) = a"
proof -
  assume a: "page_aligned a" and f: "f AND NOT 0xFFF = 0"
  have "NOT 0xFFF = (NOT (mask 12) :: u32)" by (simp add: mask_eq_exp_minus_1)
  then have "PTE_ADDR (a OR f) = (a AND NOT (mask 12)) OR (f AND NOT 0xFFF)"
    by (simp add: PTE_ADDR_def bit.conj_disj_distrib2)
  also have "\<dots> = a AND NOT (mask 12)" using f by simp
  also have "\<dots> = a" using a unfolding page_aligned_bits by (simp add: take_bit_eq_mask bit_eq_iff bit_simps) blast
  finally show ?thesis .
qed

lemma V2P_aligned: "page_aligned a \<Longrightarrow> page_aligned (V2P a)" "page_aligned a \<Longrightarrow> page_aligned (P2V a)" "P2V (V2P a) = a" "V2P (P2V a) = a"
proof -
  show p: "page_aligned (P2V a)" if "page_aligned a" for a
  proof -
    have "unat (a + KERNBASE) = (unat a + 0x80000000) mod 4294967296" by (simp add: unat_word_ariths)
    moreover have "n mod 4294967296 mod 4096 = n mod (4096 :: nat)" for n by (rule mod_mod_cancel) simp
    ultimately have "unat (a + KERNBASE) mod 4096 = (unat a + 0x80000000) mod 4096" by simp
    also have "\<dots> = 0" using that by (simp add: page_aligned_unat mod_add_eq [symmetric])
    finally show ?thesis by (simp add: page_aligned_unat P2V_def)
  qed
  have e: "a - KERNBASE = a + KERNBASE" by (simp add: diff_conv_add_uminus del: add_uminus_conv_diff)
  show "page_aligned (V2P a)" if "page_aligned a" using p [OF that] unfolding V2P_def P2V_def e .
qed (simp_all add: V2P_def P2V_def)


text \<open>A new table page, cleared and entered into the directory.\<close>

lemma new_table:
  assumes ok: "pt_ok c s d (p # qs)" and i: "i < 1024" "\<not> present (pde s d i)" and k: "kmem_ok c t qs" "mem t = mem s" "kpage t = kpage s"
  defines "u \<equiv> t\<lparr>mem := store32 (d + 4 * i) (V2P p OR PTE_P OR PTE_W OR PTE_U) (memset p 0 PGSIZE (mem t))\<rparr>"
  shows "pt_ok c u d qs" "present (pde u d i)" "pgtab u d i = p" "pte u d = pte s d"
    "\<not> x - d < PGSIZE \<Longrightarrow> \<not> x - p < PGSIZE \<Longrightarrow> mem u x = mem s x"
    "tabs u d \<subseteq> insert p (tabs s d)" "j < 1024 \<Longrightarrow> present (pde u d j) \<longleftrightarrow> j = i \<or> present (pde s d j)"
proof -
  note P = pt_okD [OF ok]
  have p: "kpage s p" "page_aligned p" "p \<noteq> d" "p \<notin> set qs" "\<And>q. q \<in> set qs \<Longrightarrow> kpage s q"
    using P(1,3) by (auto simp: kmem_ok_def free_pages_def intro: kpage_aligned)
  have ui: "unat j < 1024" if "j < 1024" for j :: u32 using that by (simp add: word_less_nat_alt)
  let ?m = "memset p 0 PGSIZE (mem s)"
  have off: "mem u x = ?m x" if "\<not> x - d < PGSIZE" for x
  proof -
    have "x \<noteq> d + 4 * i + of_nat k" if "k < 4" for k
    proof
      assume "x = d + 4 * i + of_nat k"
      then have "x - d = of_nat (4 * unat i + k)" by simp
      then show False using \<open>\<not> x - d < PGSIZE\<close> ui [OF i(1)] that unat_page_offset [of 0 "4 * unat i + k"]
        by (simp add: page_aligned_def word_less_nat_alt)
    qed
    from this [of 0] this [of 1] this [of 2] this [of 3] show ?thesis unfolding u_def k(2) by (simp add: store32_other)
  qed
  show fr: "mem u x = mem s x" if "\<not> x - d < PGSIZE" "\<not> x - p < PGSIZE" for x using off [OF that(1)] that(2) by (simp add: memset_apply)
  have dir: "pde u d j = (if j = i then V2P p OR PTE_P OR PTE_W OR PTE_U else pde s d j)" if "j < 1024" for j
  proof -
    have "load32 ?m (d + 4 * j) = load32 (mem s) (d + 4 * j)"
      by (rule load_page_cong) (use page_disjoint [OF p(2) P(4) p(3)] ui [OF that] P(4) in \<open>simp_all add: memset_apply\<close>)
    then show ?thesis using load_store_entry [OF P(4) P(4) ui [OF i(1)] ui [OF that]] k(2) by (simp add: pde_def u_def)
  qed
  have "PTE_ADDR (V2P p OR (PTE_P OR PTE_W OR PTE_U)) = V2P p" by (rule PTE_ADDR_or [OF V2P_aligned(1) [OF p(2)]]) simp
  then have tab: "pgtab u d j = (if j = i then p else pgtab s d j)" if "j < 1024" for j
    using dir [OF that] by (simp add: pgtab_def V2P_aligned)
  then show "pgtab u d i = p" using i(1) by simp
  have pr: "present (pde u d j) \<longleftrightarrow> j = i \<or> present (pde s d j)" if "j < 1024" for j
    using dir [OF that] by (simp add: present_odd even_or_iff)
  then show "present (pde u d i)" "j < 1024 \<Longrightarrow> present (pde u d j) \<longleftrightarrow> j = i \<or> present (pde s d j)" using i(1) by simp_all
  show "tabs u d \<subseteq> insert p (tabs s d)" using tab pr by (auto simp: tabs_def)
  have K: "kmem_ok c u qs"
  proof -
    have "mem u x = mem t x" if "q \<in> set qs" "x - q < PGSIZE" for q x
    proof -
      have "d \<noteq> q" "p \<noteq> q" using that(1) P(3) p(4) by auto
      then show ?thesis unfolding k(2) using fr page_disjoint [OF _ kpage_aligned [OF p(5) [OF that(1)]] _ that(2)] P(4) p(2) by blast
    qed
    then show ?thesis using kmem_ok_mem [OF k(1)] unfolding u_def by simp
  qed
  have "kpage u = kpage s" using k(3) kpage_cong [of u t] by (simp add: u_def)
  then show "pt_ok c u d qs" unfolding pt_ok_def using K P(2,3,5,6) p(1,3,4) tab pr by auto
  have "pte u d va = pte s d va" for va
  proof (cases "PDX va = i")
    case True
    have "load32 (mem u) (p + 4 * PTX va) = load32 (\<lambda>_. 0) (p + 4 * PTX va)"
      by (rule load_page_cong) (use off page_disjoint [OF P(4) p(2)] p(2,3) idx_bounds in \<open>auto simp: memset_apply\<close>)
    then show ?thesis using True i tab pr by (simp add: pte_def load32_def)
  next
    case False
    show ?thesis
    proof (cases "present (pde s d (PDX va))")
      case True
      then have q: "page_aligned (pgtab s d (PDX va))" "pgtab s d (PDX va) \<noteq> d" "pgtab s d (PDX va) \<noteq> p" using P(5) [OF idx_less(1) True] by auto
      have "load32 (mem u) (pgtab s d (PDX va) + 4 * PTX va) = load32 (mem s) (pgtab s d (PDX va) + 4 * PTX va)"
        by (rule load_page_cong) (use fr page_disjoint [OF P(4) q(1)] page_disjoint [OF p(2) q(1)] q idx_bounds in auto)
      then show ?thesis using False True tab pr idx_less by (simp add: pte_def)
    qed (use False pr idx_less in \<open>simp add: pte_def\<close>)
  qed
  then show "pte u d = pte s d" by (rule ext)
qed

text \<open>A step that changes a page table with the help of the free pages \<open>zs\<close>: it leaves the other
  free pages \<open>qs\<close> and all memory outside these pages as they are.\<close>

definition pt_step :: "nat \<Rightarrow> u32 \<Rightarrow> 'a kmem_scheme \<Rightarrow> 'a kmem_scheme \<Rightarrow> u32 list \<Rightarrow> u32 list \<Rightarrow> bool" where
  "pt_step c d s t zs qs \<longleftrightarrow> pt_ok c t d qs \<and> kpage t = kpage s \<and> tabs t d \<subseteq> tabs s d \<union> set zs \<and>
     (\<forall>x. (\<forall>p \<in> tabs s d \<union> set zs. \<not> x - p < PGSIZE) \<longrightarrow> mem t x = mem s x)"

lemma pt_stepD:
  assumes "pt_step c d s t zs qs"
  shows "pt_ok c t d qs" "kpage t = kpage s" "tabs t d \<subseteq> tabs s d \<union> set zs"
    "(\<And>p. p \<in> tabs s d \<or> p \<in> set zs \<Longrightarrow> \<not> x - p < PGSIZE) \<Longrightarrow> mem t x = mem s x"
  using assms unfolding pt_step_def by blast+

lemma pt_step_trans:
  assumes "pt_step c d s t ys (zs @ qs)" and "pt_step c d t u zs qs"
  shows "pt_step c d s u (ys @ zs) qs"
proof -
  note S = pt_stepD [OF assms(1)] and T = pt_stepD [OF assms(2)]
  have "mem u x = mem s x" if "\<forall>p \<in> tabs s d \<union> set (ys @ zs). \<not> x - p < PGSIZE" for x
    using S(4) [of x] T(4) [of x] S(3) that by (metis (no_types, lifting) Un_iff set_append subsetD)
  moreover have "tabs u d \<subseteq> tabs s d \<union> set (ys @ zs)" using S(3) T(3) by auto
  ultimately show ?thesis using S(2) T(1,2) by (simp add: pt_step_def)
qed

lemma walkpgdir_ok:
  assumes ok: "pt_ok c s d ps" and av: "present (pde s d (PDX va)) \<or> ps \<noteq> []"
  shows "\<exists>r t zs qs. walkpgdir d va True s = Inr (r, t) \<and> r = pgtab t d (PDX va) + 4 * PTX va \<and> r \<noteq> 0 \<and> present (pde t d (PDX va)) \<and>
    pt_step c d s t zs qs \<and> ps = zs @ qs \<and> length zs = (if present (pde s d (PDX va)) then 0 else 1) \<and> pte t d = pte s d \<and>
    (\<forall>j < 1024. present (pde t d j) \<longleftrightarrow> j = PDX va \<or> present (pde s d j))"
proof -
  have nz: "q + 4 * PTX va \<noteq> 0" if "kpage z q" for q and z :: "'a kmem_scheme"
    using unat_page_offset [OF kpage_aligned [OF that], of "4 * unat (PTX va)"] kpage_nz [OF that] idx_bounds(2) [of va]
    by (auto simp: unat_eq_0)
  show ?thesis
  proof (cases "present (pde s d (PDX va))")
    case True
    have "walkpgdir d va True s = Inr (pgtab s d (PDX va) + 4 * PTX va, s)"
      using True by (simp add: walkpgdir_def pde_def pgtab_def present_def)
    moreover have "pt_step c d s s [] ps" using ok by (simp add: pt_step_def)
    moreover have "pgtab s d (PDX va) + 4 * PTX va \<noteq> 0" using nz pt_okD(5) [OF ok idx_less(1) True] by blast
    ultimately show ?thesis using True by (intro exI [of _ "pgtab s d (PDX va) + 4 * PTX va"] exI [of _ s] exI [of _ "[]"] exI [of _ ps]) auto
  next
    case False
    then obtain p qs where ps: "ps = p # qs" using av by (cases ps) auto
    obtain t where t: "kalloc s = Inr (p, t)" "kmem_ok c t qs" "mem t = mem s" "kpage t = kpage s"
      using kmem_ok_kalloc_page pt_okD(1) [OF ok] unfolding ps by blast
    define u where "u = t\<lparr>mem := store32 (d + 4 * PDX va) (V2P p OR PTE_P OR PTE_W OR PTE_U) (memset p 0 PGSIZE (mem t))\<rparr>"
    note N = new_table [OF ok [unfolded ps] idx_less(1) False t(2-4), folded u_def]
    have kp: "kpage s p" "p \<noteq> 0" using pt_okD(1) [OF ok] unfolding ps by (auto simp: kmem_ok_def free_pages_def dest: kpage_nz)
    have "walkpgdir d va True s = Inr (p + 4 * PTX va, u)"
      using False t(1) kp(2) by (simp add: walkpgdir_def pde_def present_def u_def)
    moreover have "kpage u = kpage s" using kpage_cong [of u t] t(4) by (simp add: u_def)
    then have "pt_step c d s u [p] qs" using N(1,5,6) by (auto simp: pt_step_def tabs_def)
    ultimately show ?thesis using N(2-4,7) ps nz [OF kp(1)] False
      by (intro exI [of _ "p + 4 * PTX va"] exI [of _ u] exI [of _ "[p]"] exI [of _ qs]) simp
  qed
qed

lemma walkpgdir_full:
  assumes ok: "pt_ok c s d []" and "\<not> present (pde s d (PDX va))"
  shows "\<exists>t. walkpgdir d va True s = Inr (0, t) \<and> pt_step c d s t [] [] \<and> pte t d = pte s d \<and> pde t = pde s"
proof -
  obtain t where t: "kalloc s = Inr (0, t)" "kmem_ok c t []" "mem t = mem s" "kpage t = kpage s"
    using kmem_ok_kalloc_empty pt_okD(1) [OF ok] by blast
  have "pde t = pde s" using t(3) by (intro ext) (simp add: pde_def)
  moreover from this have "pgtab t = pgtab s" by (intro ext) (simp add: pgtab_def)
  moreover from calculation t(3) have "pte t = pte s" by (intro ext) (simp add: pte_def)
  ultimately have e: "pde t = pde s" "pgtab t = pgtab s" "pte t = pte s" by simp_all
  then have "pt_step c d s t [] []" using ok t by (simp add: pt_step_def tabs_def pt_ok_def)
  moreover have "walkpgdir d va True s = Inr (0, t)" using assms(2) t(1) by (simp add: walkpgdir_def pde_def present_def)
  ultimately show ?thesis using e(1,3) by simp
qed


subsection \<open>Entering a mapping\<close>

lemma PGROUNDDOWN_bit: "bit (PGROUNDDOWN a) n \<longleftrightarrow> 12 \<le> n \<and> bit a n"
proof -
  have "PGROUNDDOWN a = a AND NOT (mask 12)" by (simp add: PGROUNDDOWN_def mask_eq_exp_minus_1)
  then show ?thesis by (auto simp: bit_simps dest: bit_imp_le_length)
qed

lemma PGROUNDDOWN_aligned: "page_aligned (PGROUNDDOWN a)"
  unfolding page_aligned_bits by (auto simp: bit_eq_iff bit_simps PGROUNDDOWN_bit)

lemma PGROUNDDOWN_id: "page_aligned a \<Longrightarrow> PGROUNDDOWN a = a"
  unfolding page_aligned_bits by (auto simp: bit_eq_iff bit_simps PGROUNDDOWN_bit not_less)

lemma idx_bit: "bit (PDX va) n \<longleftrightarrow> n < 10 \<and> bit va (22 + n)" "bit (PTX va) n \<longleftrightarrow> n < 10 \<and> bit va (12 + n)"
proof -
  have "bit (0x3FF :: u32) n \<longleftrightarrow> n < 10"
  proof -
    have "(0x3FF :: u32) = mask 10" by (simp add: mask_eq_exp_minus_1)
    then show ?thesis by (simp only: bit_mask_iff) auto
  qed
  then show "bit (PDX va) n \<longleftrightarrow> n < 10 \<and> bit va (22 + n)" "bit (PTX va) n \<longleftrightarrow> n < 10 \<and> bit va (12 + n)"
    by (auto simp: PDX_def PTX_def bit_simps dest: bit_imp_le_length)
qed

lemma same_page: "PGROUNDDOWN va = PGROUNDDOWN vb \<longleftrightarrow> PDX va = PDX vb \<and> PTX va = PTX vb"
proof
  assume "PGROUNDDOWN va = PGROUNDDOWN vb"
  then have "bit va n = bit vb n" if "12 \<le> n" for n using PGROUNDDOWN_bit that by metis
  then show "PDX va = PDX vb \<and> PTX va = PTX vb" by (auto simp: bit_eq_iff idx_bit)
next
  assume e: "PDX va = PDX vb \<and> PTX va = PTX vb"
  show "PGROUNDDOWN va = PGROUNDDOWN vb"
  proof (rule bit_word_eqI)
    fix n assume "n < LENGTH(32)"
    then consider "n < 12" | "12 \<le> n" "n - 12 < 10" | "22 \<le> n" "n - 22 < 10" by fastforce
    then show "bit (PGROUNDDOWN va) n = bit (PGROUNDDOWN vb) n"
      using e idx_bit [of va "n - 22"] idx_bit [of vb "n - 22"] idx_bit [of va "n - 12"] idx_bit [of vb "n - 12"]
      by cases (auto simp: PGROUNDDOWN_bit)
  qed
qed

lemma set_pte:
  fixes v :: u32
  assumes ok: "pt_ok c s d ps" and pr: "present (pde s d (PDX va))"
  defines "u \<equiv> s\<lparr>mem := store32 (pgtab s d (PDX va) + 4 * PTX va) v (mem s)\<rparr>"
  shows "pt_step c d s u [] ps" "pte u d vb = (if PGROUNDDOWN vb = PGROUNDDOWN va then v else pte s d vb)"
    "j < 1024 \<Longrightarrow> pde u d j = pde s d j"
proof -
  note P = pt_okD [OF ok]
  let ?p = "pgtab s d (PDX va)"
  have p: "page_aligned ?p" "?p \<noteq> d" "?p \<notin> set ps" using P(5) [OF idx_less(1) pr] by auto
  have fr: "mem u x = mem s x" if "\<not> x - ?p < PGSIZE" for x
  proof -
    have "x \<noteq> ?p + 4 * PTX va + of_nat k" if "k < 4" for k
    proof
      assume "x = ?p + 4 * PTX va + of_nat k"
      then have "x - ?p = of_nat (4 * unat (PTX va) + k)" by simp
      then show False using \<open>\<not> x - ?p < PGSIZE\<close> idx_bounds(2) [of va] that unat_page_offset [of 0 "4 * unat (PTX va) + k"]
        by (simp add: page_aligned_def word_less_nat_alt)
    qed
    from this [of 0] this [of 1] this [of 2] this [of 3] show ?thesis unfolding u_def by (simp add: store32_other)
  qed
  have dir: "pde u d i = pde s d i" if "i < 1024" for i
    unfolding pde_def by (rule load_page_cong) (use fr page_disjoint [OF p(1) P(4) p(2)] P(4) that in \<open>auto simp: word_less_nat_alt\<close>)
  then show "j < 1024 \<Longrightarrow> pde u d j = pde s d j" .
  have tab: "pgtab u d i = pgtab s d i" if "i < 1024" for i using dir that by (simp add: pgtab_def)
  have "mem u x = mem s x" if "q \<in> set ps" "x - q < PGSIZE" for q x
  proof -
    have "page_aligned q" using P(1) that(1) by (auto simp: kmem_ok_def free_pages_def intro: kpage_aligned)
    moreover have "?p \<noteq> q" using p(3) that(1) by auto
    ultimately show ?thesis using fr page_disjoint [OF p(1) _ _ that(2)] by blast
  qed
  then have K: "kmem_ok c u ps" using kmem_ok_mem [OF P(1)] unfolding u_def by simp
  have kp: "kpage u = kpage s" by (rule kpage_cong) (simp add: u_def)
  then have "pt_ok c u d ps" unfolding pt_ok_def using K P(2,3,5,6) tab dir by auto
  moreover have "tabs u d \<subseteq> tabs s d" using tab dir by (auto simp: tabs_def)
  moreover have "?p \<in> tabs s d" using pr idx_less(1) by (auto simp: tabs_def)
  ultimately show "pt_step c d s u [] ps" using kp fr by (auto simp: pt_step_def)
  show "pte u d vb = (if PGROUNDDOWN vb = PGROUNDDOWN va then v else pte s d vb)"
  proof (cases "present (pde s d (PDX vb))")
    case True
    have q: "page_aligned (pgtab s d (PDX vb))" "pgtab s d (PDX vb) = ?p \<longleftrightarrow> PDX vb = PDX va"
      using P(5,6) idx_less(1) True pr by metis+
    then show ?thesis using load_store_entry [OF p(1) q(1) idx_bounds(2) idx_bounds(2)] True dir tab idx_less
      by (auto simp: pte_def u_def same_page)
  qed (use pr dir idx_less in \<open>auto simp: pte_def same_page\<close>)
qed


text \<open>The number of directory entries of a region for which there is no table page yet.\<close>

definition gaps :: "'a kmem_scheme \<Rightarrow> u32 \<Rightarrow> u32 set \<Rightarrow> nat" where
  "gaps s d I = card {i \<in> I. \<not> present (pde s d i)}"

lemma gaps_add:
  assumes "\<forall>j < 1024. present (pde t d j) \<longleftrightarrow> j = i \<or> present (pde s d j)" and "i \<in> I" and "I \<subseteq> {..<1024}"
  shows "gaps t d I + (if present (pde s d i) then 0 else 1) = gaps s d I"
proof -
  have "{j \<in> I. \<not> present (pde t d j)} = {j \<in> I. \<not> present (pde s d j)} - {i}" using assms(1,3) by auto
  then show ?thesis using assms(2) card_Suc_Diff1 [of "{j \<in> I. \<not> present (pde s d j)}" i] by (auto simp: gaps_def)
qed

lemma map_one:
  assumes ok: "pt_ok c s d ps" and av: "present (pde s d (PDX a)) \<or> ps \<noteq> []" and free: "\<not> present (pte s d a)"
    and I: "PDX a \<in> I" "I \<subseteq> {..<1024}"
  shows "\<exists>u zs qs. ps = zs @ qs \<and> gaps u d I + length zs = gaps s d I \<and> pt_step c d s u zs qs \<and>
    (\<forall>vb. pte u d vb = (if PGROUNDDOWN vb = PGROUNDDOWN a then pa OR perm OR PTE_P else pte s d vb)) \<and>
    mappages_loop d a l pa perm s = (if a = l then Inr (0, u) else if a + PGSIZE < a then Inl Wrapped
      else mappages_loop d (a + PGSIZE) l (pa + PGSIZE) perm u)"
proof -
  obtain r t zs qs where t: "walkpgdir d a True s = Inr (r, t)" "r = pgtab t d (PDX a) + 4 * PTX a" "r \<noteq> 0" "present (pde t d (PDX a))"
    "pt_step c d s t zs qs" "ps = zs @ qs" "length zs = (if present (pde s d (PDX a)) then 0 else 1)" "pte t d = pte s d"
    "\<forall>j < 1024. present (pde t d j) \<longleftrightarrow> j = PDX a \<or> present (pde s d j)"
    using walkpgdir_ok [OF ok av] by blast
  define u where "u = t\<lparr>mem := store32 r (pa OR perm OR PTE_P) (mem t)\<rparr>"
  have old: "\<not> present (load32 (mem t) r)" using free t(2,4) fun_cong [OF t(8), of a] by (simp add: pte_def)
  note U = set_pte [OF pt_stepD(1) [OF t(5)] t(4), where v = "pa OR perm OR PTE_P", folded t(2), folded u_def]
  have "pt_step c d s u zs qs" using pt_step_trans [of c d s t zs "[]" qs u] t(5) U(1) by simp
  moreover have "gaps u d I + length zs = gaps s d I" using gaps_add [OF _ I, of u d s] t(7,9) U(3) by simp
  moreover have "mappages_loop d a l pa perm s = (if a = l then Inr (0, u) else if a + PGSIZE < a then Inl Wrapped
      else mappages_loop d (a + PGSIZE) l (pa + PGSIZE) perm u)"
    using t(1,3) old by (subst mappages_loop.simps) (simp add: present_def u_def)
  ultimately show ?thesis using U(2) t(6,8) by (intro exI [of _ u] exI [of _ zs] exI [of _ qs]) simp
qed

text \<open>The entry that a mapping of the pages from \<open>a\<close> on to the frames from \<open>pa\<close> on gives an address.\<close>

definition entry :: "u32 \<Rightarrow> u32 \<Rightarrow> u32 \<Rightarrow> u32 \<Rightarrow> u32" where
  "entry a pa perm va = (pa + (PGROUNDDOWN va - a)) OR perm OR PTE_P"

lemma unat_add_nat:
  fixes a :: u32
  assumes "unat a + m < 2 ^ 32"
  shows "unat (a + of_nat m) = unat a + m"
proof -
  have "unat (of_nat m :: u32) = m" using assms by (simp add: unat_of_nat take_bit_nat_eq_self)
  then show ?thesis using assms by (simp add: unat_word_ariths)
qed

lemma unat_PGROUNDDOWN: "unat (PGROUNDDOWN a) = unat a div 4096 * 4096"
proof -
  have "PGROUNDDOWN a = push_bit 12 (drop_bit 12 a)" by (auto simp: bit_eq_iff bit_simps PGROUNDDOWN_bit dest: bit_imp_le_length)
  moreover have "unat a < 2 ^ 32" using unsigned_less [of a, where 'a = nat] by simp
  ultimately have "unat (PGROUNDDOWN a) = take_bit 32 (unat a div 4096 * 4096)"
    by (simp only: unsigned_push_bit_eq unsigned_drop_bit_eq) (simp add: push_bit_eq_mult drop_bit_eq_div take_bit_nat_eq_self)
  moreover have "unat a div 4096 * 4096 < 2 ^ 32" using unsigned_less [of a, where 'a = nat] by (simp add: less_mult_imp_div_less) 
  ultimately show ?thesis by (simp add: take_bit_nat_eq_self)
qed

lemma unat_minus_one_add:
  fixes n va :: u32
  assumes "0 < n" and "unat va + unat n \<le> 2 ^ 32"
  shows "unat (va + n - 1) = unat va + unat n - 1"
proof -
  have "1 \<le> n" using assms(1) by (simp add: word_le_nat_alt word_less_nat_alt Suc_leI)
  then have "unat (n - 1) = unat n - 1" using unat_sub [of 1 n] by simp
  moreover have "0 < unat n" using assms(1) by (simp add: word_less_nat_alt)
  ultimately have "unat (va + of_nat (unat (n - 1))) = unat va + unat n - 1" using unat_add_nat [of va "unat (n - 1)"] assms(2) by simp
  moreover have "va + of_nat (unat (n - 1)) = va + n - 1" by simp
  ultimately show ?thesis by (simp only:)
qed

lemma page_range_Suc:
  assumes "page_aligned a" and "unat a + 4096 * Suc n < 2 ^ 32"
  shows "a \<le> PGROUNDDOWN v \<and> PGROUNDDOWN v \<le> a + of_nat (4096 * Suc n) \<longleftrightarrow>
      PGROUNDDOWN v = a \<or> a + PGSIZE \<le> PGROUNDDOWN v \<and> PGROUNDDOWN v \<le> a + PGSIZE + of_nat (4096 * n)"
    "PGROUNDDOWN v = a \<Longrightarrow> \<not> a + PGSIZE \<le> PGROUNDDOWN v" "page_aligned (a + PGSIZE)" "unat (a + PGSIZE) = unat a + 4096"
    "\<not> a + PGSIZE < a" "a + of_nat (4096 * Suc n) = a + PGSIZE + of_nat (4096 * n)" "a \<noteq> a + of_nat (4096 * Suc n)"
proof -
  obtain k l where kl: "unat a = 4096 * k" "unat (PGROUNDDOWN v) = 4096 * l"
    using assms(1) PGROUNDDOWN_aligned [of v] unfolding page_aligned_unat by (metis mod_0_imp_dvd dvdE)
  have s: "unat (a + PGSIZE) = unat a + 4096" using unat_add_nat [of a 4096] assms(2) by simp
  have e: "unat (a + of_nat (4096 * Suc n)) = unat a + 4096 * Suc n" using unat_add_nat assms(2) by blast
  show split: "a + of_nat (4096 * Suc n) = a + PGSIZE + of_nat (4096 * n)" by (simp add: algebra_simps)
  show "a \<le> PGROUNDDOWN v \<and> PGROUNDDOWN v \<le> a + of_nat (4096 * Suc n) \<longleftrightarrow>
      PGROUNDDOWN v = a \<or> a + PGSIZE \<le> PGROUNDDOWN v \<and> PGROUNDDOWN v \<le> a + PGSIZE + of_nat (4096 * n)"
    unfolding split [symmetric] word_le_nat_alt word_unat_eq_iff s e kl by auto
  show "PGROUNDDOWN v = a \<Longrightarrow> \<not> a + PGSIZE \<le> PGROUNDDOWN v" "\<not> a + PGSIZE < a" "a \<noteq> a + of_nat (4096 * Suc n)"
    unfolding word_le_nat_alt word_less_nat_alt word_unat_eq_iff s e by simp_all
  show "page_aligned (a + PGSIZE)" unfolding page_aligned_unat s kl by simp
  show "unat (a + PGSIZE) = unat a + 4096" by (rule s)
qed

text \<open>A mapping of the pages from \<open>a\<close> to \<open>l\<close> succeeds, or it fails half way when there are fewer free pages than table pages needed.\<close>

definition maps :: "nat \<Rightarrow> u32 \<Rightarrow> u32 set \<Rightarrow> u32 \<Rightarrow> u32 \<Rightarrow> u32 \<Rightarrow> u32 \<Rightarrow> u32 list \<Rightarrow> 'a kmem_scheme \<Rightarrow> int \<Rightarrow> 'a kmem_scheme \<Rightarrow> bool" where
  "maps c d I a l pa perm ps s r t \<longleftrightarrow> (\<exists>zs qs. ps = zs @ qs \<and> pt_step c d s t zs qs \<and> gaps t d I + length zs = gaps s d I \<and>
     (r = 0 \<and> (\<forall>v. pte t d v = (if a \<le> PGROUNDDOWN v \<and> PGROUNDDOWN v \<le> l then entry a pa perm v else pte s d v)) \<or>
      r = -1 \<and> length ps < gaps s d I \<and>
        (\<forall>v. pte t d v = pte s d v \<or> a \<le> PGROUNDDOWN v \<and> PGROUNDDOWN v \<le> l \<and> pte t d v = entry a pa perm v)))"

lemma maps_fail:
  assumes "pt_ok c s d []" and "\<not> present (pde s d (PDX a))" and "PDX a \<in> I"
  shows "\<exists>t. mappages_loop d a l pa perm s = Inr (-1, t) \<and> maps c d I a l pa perm [] s (-1) t"
proof -
  obtain t where t: "walkpgdir d a True s = Inr (0, t)" "pt_step c d s t [] []" "pte t d = pte s d" "gaps t d I = gaps s d I"
    using walkpgdir_full [OF assms(1,2)] by (auto simp: gaps_def)
  have "mappages_loop d a l pa perm s = Inr (-1, t)" using t(1) by (subst mappages_loop.simps) simp
  moreover have "0 < gaps s d I" using assms(2,3) by (auto simp: gaps_def card_gt_0_iff)
  ultimately show ?thesis using t(2-4) by (auto simp: maps_def)
qed

lemma maps_step:
  assumes u: "ps = zs @ qs" "gaps u d I + length zs = gaps s d I" "pt_step c d s u zs qs"
      "\<forall>v. pte u d v = (if PGROUNDDOWN v = a then pa OR perm OR PTE_P else pte s d v)"
    and t: "maps c d I (a + PGSIZE) l (pa + PGSIZE) perm qs u r t"
    and R: "\<And>v. a \<le> PGROUNDDOWN v \<and> PGROUNDDOWN v \<le> l \<longleftrightarrow> PGROUNDDOWN v = a \<or> a + PGSIZE \<le> PGROUNDDOWN v \<and> PGROUNDDOWN v \<le> l"
      "\<And>v. PGROUNDDOWN v = a \<Longrightarrow> \<not> a + PGSIZE \<le> PGROUNDDOWN v"
  shows "maps c d I a l pa perm ps s r t"
proof -
  obtain zs' qs' where z: "qs = zs' @ qs'" "pt_step c d u t zs' qs'" "gaps t d I + length zs' = gaps u d I"
    "r = 0 \<and> (\<forall>v. pte t d v = (if a + PGSIZE \<le> PGROUNDDOWN v \<and> PGROUNDDOWN v \<le> l then entry (a + PGSIZE) (pa + PGSIZE) perm v else pte u d v)) \<or>
     r = -1 \<and> length qs < gaps u d I \<and> (\<forall>v. pte t d v = pte u d v \<or>
       a + PGSIZE \<le> PGROUNDDOWN v \<and> PGROUNDDOWN v \<le> l \<and> pte t d v = entry (a + PGSIZE) (pa + PGSIZE) perm v)"
    using t unfolding maps_def by blast
  have e: "entry (a + PGSIZE) (pa + PGSIZE) perm v = entry a pa perm v" for v by (simp add: entry_def)
  have first: "pte u d v = (if PGROUNDDOWN v = a then entry a pa perm v else pte s d v)" for v using u(4) by (simp add: entry_def)
  have "r = 0 \<and> (\<forall>v. pte t d v = (if a \<le> PGROUNDDOWN v \<and> PGROUNDDOWN v \<le> l then entry a pa perm v else pte s d v)) \<or>
    r = -1 \<and> length ps < gaps s d I \<and> (\<forall>v. pte t d v = pte s d v \<or> a \<le> PGROUNDDOWN v \<and> PGROUNDDOWN v \<le> l \<and> pte t d v = entry a pa perm v)"
    using z(4)
  proof (elim disjE conjE)
    assume "r = 0" and w: "\<forall>v. pte t d v = (if a + PGSIZE \<le> PGROUNDDOWN v \<and> PGROUNDDOWN v \<le> l then entry (a + PGSIZE) (pa + PGSIZE) perm v else pte u d v)"
    have "pte t d v = (if a \<le> PGROUNDDOWN v \<and> PGROUNDDOWN v \<le> l then entry a pa perm v else pte s d v)" for v
      unfolding w [rule_format] e first R(1) using R(2) [of v] by (cases "PGROUNDDOWN v = a") simp_all
    then show ?thesis using \<open>r = 0\<close> by blast
  next
    assume "r = -1" "length qs < gaps u d I" and w: "\<forall>v. pte t d v = pte u d v \<or>
      a + PGSIZE \<le> PGROUNDDOWN v \<and> PGROUNDDOWN v \<le> l \<and> pte t d v = entry (a + PGSIZE) (pa + PGSIZE) perm v"
    moreover have "pte t d v = pte s d v \<or> a \<le> PGROUNDDOWN v \<and> PGROUNDDOWN v \<le> l \<and> pte t d v = entry a pa perm v" for v
      using w [rule_format, of v] first [of v] R(1) [of v] unfolding e by metis
    ultimately show ?thesis using u(1,2) by simp
  qed
  moreover have "pt_step c d s t (zs @ zs') qs'" using pt_step_trans u(3) z(1,2) by blast
  ultimately show ?thesis unfolding maps_def using z(1,3) u(1,2) by (intro exI [of _ "zs @ zs'"] exI [of _ qs']) simp
qed

lemma mappages_loop_ok:
  assumes "page_aligned a" and "unat a + 4096 * n < 2 ^ 32" and "pt_ok c s d ps" and "I \<subseteq> {..<1024}"
    and "\<forall>v. a \<le> PGROUNDDOWN v \<and> PGROUNDDOWN v \<le> a + of_nat (4096 * n) \<longrightarrow> \<not> present (pte s d v) \<and> PDX v \<in> I"
  shows "\<exists>r t. mappages_loop d a (a + of_nat (4096 * n)) pa perm s = Inr (r, t) \<and> maps c d I a (a + of_nat (4096 * n)) pa perm ps s r t"
  using assms
proof (induction n arbitrary: a pa s ps)
  case 0
  have a: "\<not> present (pte s d a)" "PDX a \<in> I" using 0(5) PGROUNDDOWN_id [OF 0(1)] by auto
  show ?case
  proof (cases "present (pde s d (PDX a)) \<or> ps \<noteq> []")
    case True
    then obtain u zs qs where u: "ps = zs @ qs" "gaps u d I + length zs = gaps s d I" "pt_step c d s u zs qs"
      "\<forall>v. pte u d v = (if PGROUNDDOWN v = a then pa OR perm OR PTE_P else pte s d v)" "mappages_loop d a a pa perm s = Inr (0, u)"
      using map_one [OF 0(3) True a 0(4), where l = a and pa = pa and perm = perm] PGROUNDDOWN_id [OF 0(1)] by auto
    then have "maps c d I a a pa perm ps s 0 u" unfolding maps_def by (intro exI [of _ zs] exI [of _ qs]) (auto simp: entry_def)
    then show ?thesis using u(5) by (intro exI [of _ 0] exI [of _ u]) simp
  next
    case False
    then show ?thesis using maps_fail [of c s d a I] 0(3) a(2) by simp blast
  qed
next
  case (Suc n)
  note R = page_range_Suc [OF Suc.prems(1,2)]
  let ?l = "a + of_nat (4096 * Suc n)"
  have a: "\<not> present (pte s d a)" "PDX a \<in> I" using Suc.prems(5) R(1) PGROUNDDOWN_id [OF Suc.prems(1)] by metis+
  show ?case
  proof (cases "present (pde s d (PDX a)) \<or> ps \<noteq> []")
    case True
    obtain u zs qs where u: "ps = zs @ qs" "gaps u d I + length zs = gaps s d I" "pt_step c d s u zs qs"
      "\<forall>v. pte u d v = (if PGROUNDDOWN v = a then pa OR perm OR PTE_P else pte s d v)"
      "mappages_loop d a ?l pa perm s = mappages_loop d (a + PGSIZE) ?l (pa + PGSIZE) perm u"
      using map_one [OF Suc.prems(3) True a Suc.prems(4), where l = ?l and pa = pa and perm = perm] PGROUNDDOWN_id [OF Suc.prems(1)] R(5,7) by auto
    have "\<forall>v. a + PGSIZE \<le> PGROUNDDOWN v \<and> PGROUNDDOWN v \<le> a + PGSIZE + of_nat (4096 * n) \<longrightarrow> \<not> present (pte u d v) \<and> PDX v \<in> I"
      using u(4) Suc.prems(5) R(1,2) by metis
    moreover have "unat (a + PGSIZE) + 4096 * n < 2 ^ 32" using Suc.prems(2) R(4) by simp
    ultimately obtain r t where "mappages_loop d (a + PGSIZE) ?l (pa + PGSIZE) perm u = Inr (r, t)" "maps c d I (a + PGSIZE) ?l (pa + PGSIZE) perm qs u r t"
      using Suc.IH [OF R(3) _ pt_stepD(1) [OF u(3)] Suc.prems(4), where pa = "pa + PGSIZE"] unfolding R(6) by blast
    then show ?thesis using maps_step [OF u(1-4) _ R(1) [folded R(6)] R(2)] u(5) by auto
  next
    case False
    then show ?thesis using maps_fail [of c s d a I] Suc.prems(3) a(2) by simp blast
  qed
qed

lemma mappages_ok:
  assumes "pt_ok c s d ps" and "0 < n" and "unat va + unat n \<le> 2 ^ 32" and "I \<subseteq> {..<1024}"
    and "\<forall>v. PGROUNDDOWN va \<le> PGROUNDDOWN v \<and> PGROUNDDOWN v \<le> PGROUNDDOWN (va + n - 1) \<longrightarrow> \<not> present (pte s d v) \<and> PDX v \<in> I"
  shows "\<exists>r t. mappages d va n pa perm s = Inr (r, t) \<and> maps c d I (PGROUNDDOWN va) (PGROUNDDOWN (va + n - 1)) pa perm ps s r t"
proof -
  define k where "k = (unat va + unat n - 1) div 4096 - unat va div 4096"
  have k4: "unat va div 4096 + k = (unat va + unat n - 1) div 4096"
    using assms(2) by (simp add: k_def div_le_mono word_less_nat_alt Suc_leI)
  have "unat (PGROUNDDOWN va) + 4096 * k = (unat va + unat n - 1) div 4096 * 4096"
    unfolding unat_PGROUNDDOWN k4 [symmetric] by simp
  moreover have "\<dots> \<le> unat va + unat n - 1" by (rule div_times_less_eq_dividend)
  ultimately have b: "unat (PGROUNDDOWN va) + 4096 * k < 2 ^ 32" and e: "unat (PGROUNDDOWN (va + n - 1)) = unat (PGROUNDDOWN va) + 4096 * k"
    using assms(2,3) by (simp_all add: unat_PGROUNDDOWN unat_minus_one_add word_less_nat_alt)
  have "unat (PGROUNDDOWN va + of_nat (4096 * k)) = unat (PGROUNDDOWN va) + 4096 * k" by (rule unat_add_nat [OF b])
  then have l: "PGROUNDDOWN (va + n - 1) = PGROUNDDOWN va + of_nat (4096 * k)" using e by (simp only: word_unat_eq_iff)
  show ?thesis unfolding mappages_def l by (rule mappages_loop_ok [OF PGROUNDDOWN_aligned b assms(1,4) assms(5) [unfolded l]])
qed


subsection \<open>The kernel part of a page table\<close>

definition klen :: "kmap \<Rightarrow> u32" where
  "klen k = phys_end k - phys_start k"

definition kcovers :: "kmap \<Rightarrow> u32 \<Rightarrow> bool" where
  "kcovers k v \<longleftrightarrow> PGROUNDDOWN (virt k) \<le> PGROUNDDOWN v \<and> PGROUNDDOWN v \<le> PGROUNDDOWN (virt k + klen k - 1)"

text \<open>The directory entries of the upper half of the address space.\<close>

definition KI :: "u32 set" where
  "KI = {512..<1024}"

definition kmap_ok :: "kmap \<Rightarrow> bool" where
  "kmap_ok k \<longleftrightarrow> KERNBASE \<le> virt k \<and> 0 < klen k \<and> unat (virt k) + unat (klen k) \<le> 2 ^ 32 \<and> page_aligned (virt k) \<and> page_aligned (klen k)"

lemma unat_PDX: "unat (PDX v) = unat v div 0x400000"
proof -
  have "PDX v = drop_bit 22 v" by (auto simp: bit_eq_iff bit_simps idx_bit dest: bit_imp_le_length)
  then show ?thesis by (simp add: unsigned_drop_bit_eq drop_bit_eq_div) (simp add: unat_div)
qed

lemma PDX_kernel: "PDX v \<in> KI \<longleftrightarrow> KERNBASE \<le> v"
  using unsigned_less [of v, where 'a = nat]
  by (simp add: KI_def word_le_nat_alt word_less_nat_alt unat_PDX less_eq_div_iff_mult_less_eq less_mult_imp_div_less)

lemma KI_bound: "KI \<subseteq> {..<1024}"
  by (auto simp: KI_def)

lemma kcovers_iff:
  assumes "kmap_ok k"
  shows "kcovers k v \<longleftrightarrow> unat (virt k) \<le> unat v \<and> unat v < unat (virt k) + unat (klen k)"
proof -
  obtain a b where a: "unat (virt k) = 4096 * a" "unat (klen k) = 4096 * b"
    using assms unfolding kmap_ok_def page_aligned_unat by (metis mod_0_imp_dvd dvdE)
  moreover have "0 < unat (klen k)" using assms by (simp add: kmap_ok_def word_less_nat_alt)
  ultimately have b: "0 < b" by simp
  have "unat (virt k + klen k - 1) = unat (virt k) + unat (klen k) - 1"
    using assms by (intro unat_minus_one_add) (simp_all add: kmap_ok_def)
  moreover have "(4096 * a + 4096 * b - 1) div 4096 = a + b - 1" using b by (cases b) simp_all
  moreover have "x \<le> a + b - 1 \<longleftrightarrow> x < a + b" for x using b by auto
  ultimately show ?thesis using a
    by (simp add: kcovers_def word_le_nat_alt unat_PGROUNDDOWN less_eq_div_iff_mult_less_eq div_less_iff_less_mult) (simp add: algebra_simps)
qed

lemma kcovers_kernel: "kmap_ok k \<Longrightarrow> kcovers k v \<Longrightarrow> PDX v \<in> KI"
  by (auto simp: kcovers_iff PDX_kernel kmap_ok_def word_le_nat_alt)

lemma setupkvm_loop_ok:
  assumes "\<forall>k \<in> set ks. kmap_ok k" and "sorted_wrt (\<lambda>k l. \<forall>v. \<not> (kcovers k v \<and> kcovers l v)) ks"
    and "pt_ok c s d ps" and "gaps s d KI \<le> length ps" and "\<forall>k \<in> set ks. \<forall>v. kcovers k v \<longrightarrow> \<not> present (pte s d v)"
  shows "\<exists>t zs qs. setupkvm_loop d ks s = Inr (d, t) \<and> ps = zs @ qs \<and> pt_step c d s t zs qs \<and> gaps t d KI + length zs = gaps s d KI \<and>
    (\<forall>v. (\<forall>k \<in> set ks. \<not> kcovers k v) \<longrightarrow> pte t d v = pte s d v) \<and>
    (\<forall>k \<in> set ks. \<forall>v. kcovers k v \<longrightarrow> pte t d v = entry (virt k) (phys_start k) (kmap_perm k) v)"
  using assms
proof (induction ks arbitrary: s ps)
  case Nil
  then have "pt_step c d s s [] ps" by (simp add: pt_step_def)
  then show ?case by (intro exI [of _ s] exI [of _ "[]"] exI [of _ ps]) simp
next
  case (Cons k ks)
  have k: "kmap_ok k" "0 < klen k" "unat (virt k) + unat (klen k) \<le> 2 ^ 32" "PGROUNDDOWN (virt k) = virt k"
    using Cons.prems(1) PGROUNDDOWN_id by (auto simp: kmap_ok_def)
  have "\<forall>v. kcovers k v \<longrightarrow> \<not> present (pte s d v) \<and> PDX v \<in> KI" using Cons.prems(5) kcovers_kernel [OF k(1)] by simp
  then obtain r t where t: "mappages d (virt k) (klen k) (phys_start k) (kmap_perm k) s = Inr (r, t)"
    "maps c d KI (PGROUNDDOWN (virt k)) (PGROUNDDOWN (virt k + klen k - 1)) (phys_start k) (kmap_perm k) ps s r t"
    using mappages_ok [OF Cons.prems(3) k(2,3) KI_bound] unfolding kcovers_def by blast
  then obtain zs qs where z: "r = 0" "ps = zs @ qs" "pt_step c d s t zs qs" "gaps t d KI + length zs = gaps s d KI"
    "\<forall>v. pte t d v = (if kcovers k v then entry (virt k) (phys_start k) (kmap_perm k) v else pte s d v)"
    unfolding maps_def kcovers_def k(4) using Cons.prems(4) by (metis not_le)
  have "\<forall>l \<in> set ks. \<forall>v. kcovers l v \<longrightarrow> \<not> present (pte t d v)" using Cons.prems(2,5) z(5) by auto
  then obtain u zs' qs' where u: "setupkvm_loop d ks t = Inr (d, u)" "qs = zs' @ qs'" "pt_step c d t u zs' qs'" "gaps u d KI + length zs' = gaps t d KI"
    "\<forall>v. (\<forall>k \<in> set ks. \<not> kcovers k v) \<longrightarrow> pte u d v = pte t d v"
    "\<forall>k \<in> set ks. \<forall>v. kcovers k v \<longrightarrow> pte u d v = entry (virt k) (phys_start k) (kmap_perm k) v"
    using Cons.IH [OF _ _ pt_stepD(1) [OF z(3)]] Cons.prems(1,2,4) z(2,4) by auto
  have "pt_step c d s u (zs @ zs') qs'" using pt_step_trans z(3) u(2,3) by blast
  moreover have "setupkvm_loop d (k # ks) s = Inr (d, u)" using t(1) z(1) u(1) by (simp add: klen_def)
  ultimately show ?case using z u Cons.prems(2) by (intro exI [of _ u] exI [of _ "zs @ zs'"] exI [of _ qs']) auto
qed


text \<open>The layout of the kernel that the kernel's mappings rely on: page-aligned sections, and video memory that fits between the PCI
  window and the device space.\<close>

definition layout_ok :: "'a vm_scheme \<Rightarrow> bool" where
  "layout_ok s \<longleftrightarrow> page_aligned (data_addr s) \<and> KERNLINK < data_addr s \<and> data_addr s < P2V PHYSTOP \<and>
     page_aligned (vram_size s) \<and> page_aligned (pvram_addr s) \<and> 0 < vram_size s \<and> vram_size s \<le> 0x2E000000"

lemma page_aligned_diff: "page_aligned a \<Longrightarrow> page_aligned b \<Longrightarrow> b \<le> a \<Longrightarrow> page_aligned (a - b)"
  unfolding page_aligned_unat by (simp add: unat_sub mod_eq_0_iff_dvd dvd_diff_nat)

lemma kmap_table_ok:
  assumes "layout_ok s"
  shows "\<forall>k \<in> set (kmap_table s). kmap_ok k" "sorted_wrt (\<lambda>k l. \<forall>v. \<not> (kcovers k v \<and> kcovers l v)) (kmap_table s)"
proof -
  have L: "page_aligned (data_addr s)" "KERNLINK \<le> data_addr s" "KERNLINK < data_addr s" "data_addr s \<le> 0xA0000000" "data_addr s < 0xA0000000"
    "page_aligned (vram_size s)" "0 < vram_size s" "vram_size s \<le> 0x2E000000" "vram_size s \<le> DEVSPACE"
    using assms by (auto simp: layout_ok_def P2V_def intro: order_trans [of _ "0x2E000000"])
  have n: "unat (data_addr s - KERNLINK) = unat (data_addr s) - 0x80100000" "unat (0xA0000000 - data_addr s) = 0xA0000000 - unat (data_addr s)"
    "unat (DEVSPACE - vram_size s) = 0xFE000000 - unat (vram_size s)" "0x80100000 < unat (data_addr s)" "unat (data_addr s) < 0xA0000000"
    "unat (vram_size s) \<le> 0x2E000000" "0 < unat (vram_size s)"
    using L by (simp_all add: unat_sub word_less_nat_alt word_le_nat_alt)
  have a: "page_aligned (data_addr s - KERNLINK)" "page_aligned (0xA0000000 - data_addr s)" "page_aligned (DEVSPACE - vram_size s)"
    by (rule page_aligned_diff; use L in \<open>simp add: page_aligned_def\<close>)+
  have e: "V2P (data_addr s) - V2P KERNLINK = data_addr s - KERNLINK" "PHYSTOP - V2P (data_addr s) = 0xA0000000 - data_addr s"
    "pvram_addr s + vram_size s - pvram_addr s = vram_size s"
    by (simp_all add: V2P_def)
  show ok: "\<forall>k \<in> set (kmap_table s). kmap_ok k"
    using a n L by (simp add: kmap_table_def kmap_ok_def klen_def e word_less_nat_alt word_le_nat_alt page_aligned_def)
  then show "sorted_wrt (\<lambda>k l. \<forall>v. \<not> (kcovers k v \<and> kcovers l v)) (kmap_table s)"
    using n by (simp add: kmap_table_def kcovers_iff klen_def e) auto
qed


lemma more_vm:
  assumes "kmem.more t = kmem.more s"
  shows "data_addr t = data_addr s" "vram_size t = vram_size s" "pvram_addr t = pvram_addr s"
  using assms by (cases s; cases t; simp)+

text \<open>An empty directory on a free page.\<close>

lemma empty_dir:
  assumes "kmem_ok c s (d # ps)" and t: "kmem_ok c t ps" "mem t = mem s" "kpage t = kpage s"
  defines "u \<equiv> t\<lparr>mem := memset d 0 PGSIZE (mem t)\<rparr>"
  shows "pt_ok c u d ps" "pte u d v = 0" "tabs u d = {d}" "\<not> x - d < PGSIZE \<Longrightarrow> mem u x = mem s x" "kpage u = kpage s"
proof -
  have d: "kpage s d" "page_aligned d" "d \<notin> set ps" using assms(1) by (auto simp: kmem_ok_def free_pages_def intro: kpage_aligned)
  show fr: "mem u x = mem s x" if "\<not> x - d < PGSIZE" for x using that by (simp add: u_def t(2) memset_apply)
  have zero: "\<not> present (pde u d i)" if "i < 1024" for i
  proof -
    have "load32 (mem u) (d + 4 * i) = load32 (\<lambda>_. 0) (d + 4 * i)"
      by (rule load_page_cong) (use d(2) that in \<open>auto simp: u_def memset_apply word_less_nat_alt\<close>)
    then show ?thesis by (simp add: pde_def load32_def present_def)
  qed
  then show "pte u d v = 0" "tabs u d = {d}" using idx_less by (auto simp: pte_def tabs_def)
  have "mem u x = mem t x" if "q \<in> set ps" "x - q < PGSIZE" for q x
  proof -
    have "page_aligned q" "d \<noteq> q" using t(1) d(3) that(1) by (auto simp: kmem_ok_def free_pages_def intro: kpage_aligned)
    then show ?thesis using fr page_disjoint [OF d(2) _ _ that(2)] t(2) by auto
  qed
  then have "kmem_ok c u ps" using kmem_ok_mem [OF t(1)] unfolding u_def by simp
  moreover show "kpage u = kpage s" using kpage_cong [of u t] t(3) by (simp add: u_def)
  ultimately show "pt_ok c u d ps" using zero d(1,3) by (simp add: pt_ok_def)
qed

lemma user_half:
  assumes "layout_ok s" and "v < KERNBASE" and "k \<in> set (kmap_table s)"
  shows "\<not> kcovers k v"
  using kcovers_kernel [of k v] kmap_table_ok(1) [OF assms(1)] assms(2,3) PDX_kernel [of v] leD [of KERNBASE v] by blast

lemma setupkvm_ok:
  assumes ok: "kmem_ok c s (d # ps)" and lay: "layout_ok s" and len: "512 \<le> length ps"
  shows "\<exists>t zs qs. setupkvm s = Inr (d, t) \<and> ps = zs @ qs \<and> pt_ok c t d qs \<and> kpage t = kpage s \<and> length zs \<le> 512 \<and>
    tabs t d \<subseteq> insert d (set zs) \<and> (\<forall>x. (\<forall>p \<in> insert d (set zs). \<not> x - p < PGSIZE) \<longrightarrow> mem t x = mem s x) \<and>
    (\<forall>k \<in> set (kmap_table s). \<forall>v. kcovers k v \<longrightarrow> pte t d v = entry (virt k) (phys_start k) (kmap_perm k) v) \<and>
    (\<forall>v. (\<forall>k \<in> set (kmap_table s). \<not> kcovers k v) \<longrightarrow> pte t d v = 0)"
proof -
  obtain t where t: "kalloc s = Inr (d, t)" "kmem_ok c t ps" "mem t = mem s" "kpage t = kpage s"
    using kmem_ok_kalloc_page [OF ok] by blast
  define u where "u = t\<lparr>mem := memset d 0 PGSIZE (mem t)\<rparr>"
  note U = empty_dir [OF ok t(2-4), folded u_def]
  have m: "kmem.more t = kmem.more s" using kalloc_frame [OF t(1)] by (simp add: vframe_def)
  then have tab: "kmap_table u = kmap_table s" using more_vm [of t s] by (simp add: u_def kmap_table_def)
  have "gaps u d KI \<le> card KI" unfolding gaps_def by (rule card_mono) auto
  moreover have "card KI \<le> 512"
  proof -
    have "i \<in> of_nat ` {512..<1024}" if "i \<in> KI" for i
      using that by (intro image_eqI [of _ _ "unat i"]) (auto simp: KI_def word_le_nat_alt word_less_nat_alt)
    then have "card KI \<le> card ((of_nat :: nat \<Rightarrow> u32) ` {512..<1024})" by (intro card_mono) auto
    also have "\<dots> \<le> 512" using card_image_le [of "{512..<1024}" "of_nat :: nat \<Rightarrow> u32"] by simp
    finally show ?thesis .
  qed
  ultimately obtain w zs qs where w: "setupkvm_loop d (kmap_table s) u = Inr (d, w)" "ps = zs @ qs" "pt_step c d u w zs qs" "length zs \<le> 512"
    "\<forall>v. (\<forall>k \<in> set (kmap_table s). \<not> kcovers k v) \<longrightarrow> pte w d v = pte u d v"
    "\<forall>k \<in> set (kmap_table s). \<forall>v. kcovers k v \<longrightarrow> pte w d v = entry (virt k) (phys_start k) (kmap_perm k) v"
    using setupkvm_loop_ok [OF kmap_table_ok [OF lay] U(1)] len U(2) by (auto simp: present_def)
  note W = pt_stepD [OF w(3)]
  have "d \<noteq> 0" using ok by (auto simp: kmem_ok_def free_pages_def dest: kpage_nz)
  then have "setupkvm s = Inr (d, w)" using t(1) w(1) tab by (simp add: setupkvm_def u_def P2V_def)
  moreover have "mem w x = mem s x" if "\<forall>p \<in> insert d (set zs). \<not> x - p < PGSIZE" for x
    using W(4) [of x] U(3) U(4) [of x] that by auto
  ultimately show ?thesis using w W(1-3) U(2,3,5) by (intro exI [of _ w] exI [of _ zs] exI [of _ qs]) simp
qed

end
