(* ===== verification/Vmmaps.thy ===== *)
theory Vmmaps
  imports Vmprops
begin

text \<open>
  The properties of \<^verbatim>\<open>mappages\<close> and \<^verbatim>\<open>setupkvm\<close> of \<^verbatim>\<open>src/vm.c\<close>, and a page table for examples that these
  operations build.
\<close>

unbundle bit_operations_syntax

subsection \<open>Properties\<close>

lemma mappages_remap:
  assumes "pt_ok c s d ps" and "present (pte s d (PGROUNDDOWN va))"
  shows "mappages d va n pa perm s = Inl (Panic ''remap'')"
proof -
  have pr: "present (pde s d (PDX (PGROUNDDOWN va)))" using assms(2) by (auto simp: pte_def present_def split: if_splits)
  obtain r where r: "walkpgdir d (PGROUNDDOWN va) True s = Inr (r, s)" "r = pgtab s d (PDX (PGROUNDDOWN va)) + 4 * PTX (PGROUNDDOWN va)"
    using pr by (simp add: walkpgdir_def pde_def pgtab_def present_def)
  moreover have "r \<noteq> 0" using r walkpgdir_ok [OF assms(1) disjI1 [OF pr]] by auto
  moreover have "present (load32 (mem s) r)" using assms(2) pr r(2) by (simp add: pte_def)
  ultimately show ?thesis unfolding mappages_def by (subst mappages_loop.simps) (simp add: present_def)
qed

text \<open>The addresses on the pages that a range of \<open>n\<close> bytes from \<open>va\<close> on touches.\<close>

definition covered :: "u32 \<Rightarrow> u32 \<Rightarrow> u32 \<Rightarrow> bool" where
  "covered va n v \<longleftrightarrow> PGROUNDDOWN va \<le> PGROUNDDOWN v \<and> PGROUNDDOWN v \<le> PGROUNDDOWN (va + n - 1)"

subsection \<open>A page table for examples\<close>

lemma freerange_loop_frame: "freerange_loop p vend s = Inr t \<Longrightarrow> vframe s t"
proof (induction p vend s arbitrary: t rule: freerange_loop.induct)
  case (1 p vend s)
  show ?case
  proof (cases "p + PGSIZE \<le> vend")
    case True
    then obtain u where u: "kfree p s = Inr u" "freerange_loop (p + PGSIZE) vend u = Inr t"
      using 1(2) by (subst (asm) freerange_loop.simps) (auto simp: kbind_eq_Inr_iff)
    then show ?thesis using 1(1) [OF True] kfree_frame [OF u(1)] vframe_trans by blast
  next
    case False
    then show ?thesis using 1(2) by (subst (asm) freerange_loop.simps) simp
  qed
qed

text \<open>A machine whose allocator is given the 2048 pages from \<open>0x80400000\<close> on, and the page directory that \<^verbatim>\<open>setupkvm\<close> builds there.\<close>

definition demo_vm :: vm where
  "demo_vm = kmem.extend (demo_kmem\<lparr>freelist := 0\<rparr>) (vm.fields 0 (\<lambda>_. 0) 0x80110000 0x800000 0xE0000000)"

definition demo_free :: vm where
  "demo_free = (case freerange_loop 0x80400000 0x80C00000 demo_vm of Inr t \<Rightarrow> t | Inl _ \<Rightarrow> demo_vm)"

definition demo_pages :: "u32 list" where
  "demo_pages = rev (page_range 0x80400000 0x80C00000)"

lemma demo_free_ok: "kmem_ok 0 demo_free demo_pages" "length demo_pages = 2048" "layout_ok demo_free"
proof -
  have "kmem_ok 0 demo_vm []"
    by (simp add: kmem_ok_def kmem_ready_def free_pages_def demo_vm_def kmem.defs vm.defs demo_kmem_def demo_cpu_def cli_ok_def on_cpu_def)
  moreover have "end_addr demo_vm \<le> 0x80400000" by (simp add: demo_vm_def kmem.defs vm.defs demo_kmem_def)
  ultimately obtain t where t: "freerange_loop 0x80400000 0x80C00000 demo_vm = Inr t" "kmem_ok 0 t demo_pages"
    using freerange_pages [of 0 demo_vm "[]" "0x80400000" "0x80C00000"] by (auto simp: page_aligned_def demo_pages_def)
  then show "kmem_ok 0 demo_free demo_pages" by (simp add: demo_free_def)
  show "length demo_pages = 2048" by (simp add: demo_pages_def page_range_def)
  have "kmem.more t = kmem.more demo_vm" using freerange_loop_frame [OF t(1)] by (simp add: vframe_def)
  then show "layout_ok demo_free"
    using more_vm [of t demo_vm] t(1) by (simp add: demo_free_def layout_ok_def demo_vm_def kmem.defs vm.defs page_aligned_def P2V_def)
qed

lemma demo_free_data: "data_addr demo_free = 0x80110000"
proof -
  have "data_addr demo_vm = 0x80110000" by (simp add: demo_vm_def kmem.defs vm.defs)
  moreover have "data_addr t = data_addr demo_vm" if "freerange_loop 0x80400000 0x80C00000 demo_vm = Inr t" for t
    using more_vm(1) [of t demo_vm] freerange_loop_frame [OF that] by (simp add: vframe_def)
  ultimately show ?thesis by (simp add: demo_free_def split: sum.split)
qed

lemma demo_pages_split: "demo_pages = hd demo_pages # tl demo_pages"
  using demo_free_ok(2) by (intro hd_Cons_tl [symmetric]) auto

definition demo_kvm :: "u32 \<times> vm" where
  "demo_kvm = (case setupkvm demo_free of Inr x \<Rightarrow> x | Inl _ \<Rightarrow> (0, demo_free))"

lemma demo_kvm_ok:
  obtains qs where "pt_ok 0 (snd demo_kvm) (fst demo_kvm) qs" "1500 \<le> length qs" "layout_ok (snd demo_kvm)"
    "\<And>v. v < KERNBASE \<Longrightarrow> pte (snd demo_kvm) (fst demo_kvm) v = 0"
proof -
  have k: "kmem_ok 0 demo_free (hd demo_pages # tl demo_pages)" using demo_free_ok(1) demo_pages_split by simp
  have l: "512 \<le> length (tl demo_pages)" using demo_free_ok(2) by simp
  obtain t zs qs where t: "setupkvm demo_free = Inr (hd demo_pages, t)" "tl demo_pages = zs @ qs" "pt_ok 0 t (hd demo_pages) qs" "length zs \<le> 512"
    "\<forall>v. (\<forall>k \<in> set (kmap_table demo_free). \<not> kcovers k v) \<longrightarrow> pte t (hd demo_pages) v = 0"
    using setupkvm_ok [OF k demo_free_ok(3) l] by blast
  have e: "demo_kvm = (hd demo_pages, t)" by (simp add: demo_kvm_def t(1))
  have "kmem.more t = kmem.more demo_free" using setupkvm_frame [OF t(1)] by (simp add: vframe_def)
  then have "layout_ok t" using demo_free_ok(3) more_vm [of t demo_free] by (simp add: layout_ok_def)
  moreover have "length (zs @ qs) = 2047" unfolding t(2) [symmetric] length_tl demo_free_ok(2) by simp
  moreover have "pte t (hd demo_pages) v = 0" if "v < KERNBASE" for v
    using user_half [OF demo_free_ok(3) that] t(5) by blast
  ultimately show ?thesis using that [of qs, unfolded e fst_conv snd_conv] t(3,4) by simp
qed

lemma page_aligned_add:
  assumes "page_aligned a" and "page_aligned b"
  shows "page_aligned (a + b)"
proof -
  have "n mod 4294967296 mod 4096 = n mod (4096 :: nat)" for n by (rule mod_mod_cancel) simp
  then have "unat (a + b) mod 4096 = (unat a + unat b) mod 4096" by (simp add: unat_word_ariths)
  also have "\<dots> = 0" using assms unfolding page_aligned_unat by (metis add_0 mod_0 mod_add_cong)
  finally show ?thesis by (simp add: page_aligned_unat)
qed

text \<open>No kernel mapping carries the user flag.\<close>

lemma kernel_entry:
  assumes lay: "layout_ok s" and k: "k \<in> set (kmap_table s)" "kcovers k v"
  shows "entry (virt k) (phys_start k) (kmap_perm k) v AND PTE_U = 0"
proof -
  have ok: "kmap_ok k" using kmap_table_ok(1) [OF lay] k(1) by blast
  have "virt k \<le> PGROUNDDOWN v" using k(2) PGROUNDDOWN_id [of "virt k"] ok by (simp add: kcovers_def kmap_ok_def)
  then have a: "page_aligned (PGROUNDDOWN v - virt k)" using page_aligned_diff PGROUNDDOWN_aligned ok by (simp add: kmap_ok_def)
  have p: "page_aligned (phys_start k)" "kmap_perm k = 0 \<or> kmap_perm k = PTE_W"
  proof -
    have "page_aligned (V2P (data_addr s))" "page_aligned (pvram_addr s)" using lay V2P_aligned(1) by (simp_all add: layout_ok_def)
    moreover have "page_aligned 0" "page_aligned (V2P KERNLINK)" "page_aligned PCI_BAR_BASE" "page_aligned DEVSPACE" by (simp_all add: page_aligned_def V2P_def)
    ultimately show "page_aligned (phys_start k)" "kmap_perm k = 0 \<or> kmap_perm k = PTE_W" using k(1) by (auto simp: kmap_table_def)
  qed
  have "\<not> bit x 2" if "page_aligned x" for x
    using that bit_take_bit_iff [of 12 x 2] unfolding page_aligned_bits by simp
  then have "\<not> bit (phys_start k + (PGROUNDDOWN v - virt k)) 2" using page_aligned_add [OF p(1) a] .
  moreover have "\<not> bit (PTE_W :: u32) 2" "\<not> bit (PTE_P :: u32) 2" "\<not> bit (0 :: u32) 2" by (simp_all add: bit_iff_odd)
  ultimately have "\<not> bit (entry (virt k) (phys_start k) (kmap_perm k) v) 2" unfolding entry_def bit_or_iff using p(2) by metis
  then have "entry (virt k) (phys_start k) (kmap_perm k) v AND 2 ^ 2 = 0" using and_exp_eq_0_iff_not_bit by blast
  then show ?thesis by simp
qed

lemma kernel_ranges:
  assumes "layout_ok s" and t: "\<forall>k \<in> set (kmap_table s). \<forall>v. kcovers k v \<longrightarrow> pte t d v = entry (virt k) (phys_start k) (kmap_perm k) v"
  shows "KERNLINK \<le> v \<Longrightarrow> v < data_addr s \<Longrightarrow> pte t d v = V2P (PGROUNDDOWN v) OR PTE_P"
    "KERNBASE \<le> v \<Longrightarrow> \<not> (KERNLINK \<le> v \<and> v < data_addr s) \<Longrightarrow> v < P2V PHYSTOP \<Longrightarrow> pte t d v = V2P (PGROUNDDOWN v) OR PTE_W OR PTE_P"
    "DEVSPACE \<le> v \<Longrightarrow> pte t d v = PGROUNDDOWN v OR PTE_W OR PTE_P"
proof -
  note ok = kmap_table_ok(1) [OF assms(1)]
  have L: "unat (data_addr s) \<le> 0xA0000000" "0x80100000 < unat (data_addr s)" using assms(1) by (simp_all add: layout_ok_def P2V_def word_less_nat_alt)
  have at: "pte t d v = entry (virt k) (phys_start k) (kmap_perm k) v"
    if "k \<in> set (kmap_table s)" "unat (virt k) \<le> unat v" "unat v < unat (virt k) + unat (klen k)" for k
    using t that ok kcovers_iff [of k v] by blast
  have e: "V2P a - V2P b = a - b" "PHYSTOP - V2P a = 0xA0000000 - a" for a b by (simp_all add: V2P_def)
  have len: "unat (data_addr s - KERNLINK) = unat (data_addr s) - 0x80100000" "unat (0xA0000000 - data_addr s) = 0xA0000000 - unat (data_addr s)"
    using L by (simp_all add: unat_sub word_le_nat_alt)
  show "pte t d v = V2P (PGROUNDDOWN v) OR PTE_P" if "KERNLINK \<le> v" "v < data_addr s"
    using at [of "kmap_table s ! 1"] that L len
    by (simp add: kmap_table_def klen_def e word_le_nat_alt word_less_nat_alt entry_def V2P_def)
  show "pte t d v = V2P (PGROUNDDOWN v) OR PTE_W OR PTE_P" if "KERNBASE \<le> v" "\<not> (KERNLINK \<le> v \<and> v < data_addr s)" "v < P2V PHYSTOP"
  proof (cases "v < KERNLINK")
    case True
    then show ?thesis using at [of "kmap_table s ! 0"] that by (simp add: kmap_table_def klen_def word_le_nat_alt word_less_nat_alt entry_def V2P_def)
  next
    case False
    then show ?thesis using at [of "kmap_table s ! 2"] that L len
      by (simp add: kmap_table_def klen_def e word_le_nat_alt word_less_nat_alt entry_def V2P_def P2V_def)
  qed
  show "pte t d v = PGROUNDDOWN v OR PTE_W OR PTE_P" if "DEVSPACE \<le> v"
    using at [of "kmap_table s ! 5"] that unsigned_less [of v, where 'a = nat]
    by (simp add: kmap_table_def klen_def word_le_nat_alt entry_def)
qed

text \<open>C34. \<^verbatim>\<open>mappages\<close> maps exactly the pages of the range asked for: if it returns 0, the page of every address in the range has the
  entry for the corresponding frame with the permissions given, and every other address is mapped as before. It returns -1 only if fewer
  pages are free than the range needs new table pages, and then no address outside the range is affected. It panics if the first page of
  the range is already mapped. In all cases memory outside the page table and the free list is unchanged.\<close>

theorem mappages_correct:
  assumes "pt_ok c s d ps" and "0 < n" and "unat va + unat n \<le> 2 ^ 32"
    and "\<forall>v. covered va n v \<and> PGROUNDDOWN v \<noteq> PGROUNDDOWN va \<longrightarrow> \<not> present (pte s d v)"
  shows "if present (pte s d (PGROUNDDOWN va)) then mappages d va n pa perm s = Inl (Panic ''remap'')
    else \<exists>r t. mappages d va n pa perm s = Inr (r, t) \<and>
      (if r = 0 then \<forall>v. pte t d v = (if covered va n v then (pa + (PGROUNDDOWN v - PGROUNDDOWN va)) OR perm OR PTE_P else pte s d v)
       else r = -1 \<and> length ps < card {i. (\<exists>v. covered va n v \<and> i = PDX v) \<and> \<not> present (pde s d i)} \<and> (\<forall>v. \<not> covered va n v \<longrightarrow> pte t d v = pte s d v)) \<and>
      (\<forall>x. (\<forall>p \<in> tabs s d \<union> set ps. \<not> x - p < PGSIZE) \<longrightarrow> mem t x = mem s x)"
proof (cases "present (pte s d (PGROUNDDOWN va))")
  case True
  then show ?thesis using mappages_remap [OF assms(1)] by simp
next
  case False
  let ?I = "{i. \<exists>v. covered va n v \<and> i = PDX v}"
  have same: "pte s d v = pte s d (PGROUNDDOWN va)" if "PGROUNDDOWN v = PGROUNDDOWN va" for v
    using that same_page [of v "PGROUNDDOWN va"] PGROUNDDOWN_id [OF PGROUNDDOWN_aligned] by (simp add: pte_def)
  have "\<forall>v. PGROUNDDOWN va \<le> PGROUNDDOWN v \<and> PGROUNDDOWN v \<le> PGROUNDDOWN (va + n - 1) \<longrightarrow> \<not> present (pte s d v) \<and> PDX v \<in> ?I"
    using assms(4) same False unfolding covered_def by auto
  moreover have "?I \<subseteq> {..<1024}" using idx_less(1) by auto
  ultimately obtain r t where t: "mappages d va n pa perm s = Inr (r, t)"
    "maps c d ?I (PGROUNDDOWN va) (PGROUNDDOWN (va + n - 1)) pa perm ps s r t"
    using mappages_ok [OF assms(1-3)] by blast
  then obtain zs qs where z: "ps = zs @ qs" "pt_step c d s t zs qs"
    "r = 0 \<and> (\<forall>v. pte t d v = (if covered va n v then entry (PGROUNDDOWN va) pa perm v else pte s d v)) \<or>
     r = -1 \<and> length ps < gaps s d ?I \<and> (\<forall>v. pte t d v = pte s d v \<or> covered va n v \<and> pte t d v = entry (PGROUNDDOWN va) pa perm v)"
    unfolding maps_def covered_def by blast
  have "gaps s d ?I = card {i. (\<exists>v. covered va n v \<and> i = PDX v) \<and> \<not> present (pde s d i)}" by (simp add: gaps_def)
  moreover have "mem t x = mem s x" if "\<forall>p \<in> tabs s d \<union> set ps. \<not> x - p < PGSIZE" for x
    using pt_stepD(4) [OF z(2), of x] that z(1) by auto
  ultimately have "\<exists>r t. mappages d va n pa perm s = Inr (r, t) \<and>
      (if r = 0 then \<forall>v. pte t d v = (if covered va n v then (pa + (PGROUNDDOWN v - PGROUNDDOWN va)) OR perm OR PTE_P else pte s d v)
       else r = -1 \<and> length ps < card {i. (\<exists>v. covered va n v \<and> i = PDX v) \<and> \<not> present (pde s d i)} \<and> (\<forall>v. \<not> covered va n v \<longrightarrow> pte t d v = pte s d v)) \<and>
      (\<forall>x. (\<forall>p \<in> tabs s d \<union> set ps. \<not> x - p < PGSIZE) \<longrightarrow> mem t x = mem s x)"
    using t(1) z(3) unfolding entry_def by (intro exI [of _ r] exI [of _ t]) auto
  then show ?thesis using False by simp
qed

theorem mappages_correct_witness:
  "\<exists>t. mappages (fst demo_kvm) 0x5000 0x2000 0x80000 PTE_U (snd demo_kvm) = Inr (0, t) \<and> pte t (fst demo_kvm) 0x6123 = 0x81005"
proof -
  obtain qs where q: "pt_ok 0 (snd demo_kvm) (fst demo_kvm) qs" "1500 \<le> length qs" "\<And>v. v < KERNBASE \<Longrightarrow> pte (snd demo_kvm) (fst demo_kvm) v = 0"
    using demo_kvm_ok by blast
  have down: "PGROUNDDOWN 0x5000 = 0x5000" "PGROUNDDOWN 0x6123 = 0x6000" "PGROUNDDOWN (0x5000 + 0x2000 - 1) = 0x6000" by (simp_all add: PGROUNDDOWN_def)
  have low: "unat v < 0x7000" if "covered 0x5000 0x2000 v" for v
  proof -
    have "unat v div 4096 * 4096 \<le> 0x6000" using that down by (simp add: covered_def word_le_nat_alt unat_PGROUNDDOWN)
    then show ?thesis by simp
  qed
  then have zero: "pte (snd demo_kvm) (fst demo_kvm) v = 0" "PDX v = 0" if "covered 0x5000 0x2000 v" for v
    using low [OF that] by (simp_all add: q(3) word_less_nat_alt unat_PDX flip: unat_eq_0)
  have cov: "covered 0x5000 0x2000 0x6123" by (simp only: covered_def down) simp
  let ?C = "{i. (\<exists>v. covered 0x5000 0x2000 v \<and> i = PDX v) \<and> \<not> present (pde (snd demo_kvm) (fst demo_kvm) i)}"
  have "?C \<subseteq> {0}" using zero(2) by blast
  then have "card ?C \<le> card {0 :: u32}" by (rule card_mono [rotated]) simp
  then have "card ?C \<le> 1" by simp
  then have few: "\<not> length qs < card ?C"
    using q(2) by linarith
  have np: "\<not> present (pte (snd demo_kvm) (fst demo_kvm) (PGROUNDDOWN 0x5000))" by (simp add: down q(3) present_def)
  have free: "\<forall>v. covered 0x5000 0x2000 v \<and> PGROUNDDOWN v \<noteq> PGROUNDDOWN 0x5000 \<longrightarrow> \<not> present (pte (snd demo_kvm) (fst demo_kvm) v)"
    using zero(1) by (simp add: present_def)
  obtain r t where t: "mappages (fst demo_kvm) 0x5000 0x2000 0x80000 PTE_U (snd demo_kvm) = Inr (r, t)"
      "if r = 0 then \<forall>v. pte t (fst demo_kvm) v = (if covered 0x5000 0x2000 v then (0x80000 + (PGROUNDDOWN v - PGROUNDDOWN 0x5000)) OR PTE_U OR PTE_P
        else pte (snd demo_kvm) (fst demo_kvm) v) else False"
    using mappages_correct [OF q(1) _ _ free, where pa = "0x80000" and perm = PTE_U] np few by (auto split: if_splits)
  then have "pte t (fst demo_kvm) 0x6123 = 0x81005" "r = 0" using cov by (auto simp: down split: if_splits)
  then show ?thesis using t(1) by auto
qed

text \<open>C35. \<^verbatim>\<open>setupkvm\<close> builds the address space of the kernel: the user half is empty; the kernel's text and read-only data are mapped
  to the physical addresses below them without write permission, its data and the free memory with it, the device space to itself; and no
  address is accessible to user code.\<close>

theorem setupkvm_maps:
  assumes "kmem_ok c s (d # ps)" and "layout_ok s" and "512 \<le> length ps"
  shows "\<exists>t. setupkvm s = Inr (d, t) \<and> (\<forall>v. \<not> (present (pte t d v) \<and> pte t d v AND PTE_U \<noteq> 0)) \<and>
    (\<forall>v. pte t d v =
      (if v < KERNBASE then 0
       else if KERNLINK \<le> v \<and> v < data_addr s then V2P (PGROUNDDOWN v) OR PTE_P
       else if v < P2V PHYSTOP then V2P (PGROUNDDOWN v) OR PTE_W OR PTE_P
       else if DEVSPACE \<le> v then PGROUNDDOWN v OR PTE_W OR PTE_P
       else pte t d v))"
proof -
  obtain t where t: "setupkvm s = Inr (d, t)"
    "\<forall>k \<in> set (kmap_table s). \<forall>v. kcovers k v \<longrightarrow> pte t d v = entry (virt k) (phys_start k) (kmap_perm k) v"
    "\<forall>v. (\<forall>k \<in> set (kmap_table s). \<not> kcovers k v) \<longrightarrow> pte t d v = 0"
    using setupkvm_ok [OF assms] by blast
  have "pte t d v AND PTE_U = 0" if pr: "present (pte t d v)" for v
  proof -
    have "\<not> present 0" by (simp add: present_def)
    then obtain k where k: "k \<in> set (kmap_table s)" "kcovers k v" using t(3) pr by metis
    then have "pte t d v = entry (virt k) (phys_start k) (kmap_perm k) v" using t(2) by blast
    then show ?thesis using kernel_entry [OF assms(2) k] by simp
  qed
  moreover have "pte t d v = (if v < KERNBASE then 0
       else if KERNLINK \<le> v \<and> v < data_addr s then V2P (PGROUNDDOWN v) OR PTE_P
       else if v < P2V PHYSTOP then V2P (PGROUNDDOWN v) OR PTE_W OR PTE_P
       else if DEVSPACE \<le> v then PGROUNDDOWN v OR PTE_W OR PTE_P else pte t d v)" for v
  proof (cases "v < KERNBASE")
    case True
    then show ?thesis using t(3) user_half [OF assms(2) True] by simp
  next
    case False
    note R = kernel_ranges [OF assms(2) t(2), of v]
    show ?thesis using False R(1,3) R(2) [OF leI [OF False]] by (simp only: if_False split: if_split) blast
  qed
  ultimately show ?thesis using t(1) by blast
qed

theorem setupkvm_maps_witness:
  "\<exists>t. setupkvm demo_free = Inr (hd demo_pages, t) \<and> pte t (hd demo_pages) 0x80105123 = 0x105001 \<and> pte t (hd demo_pages) 0x1000 = 0"
proof -
  have k: "kmem_ok 0 demo_free (hd demo_pages # tl demo_pages)" "512 \<le> length (tl demo_pages)"
    using demo_free_ok(1,2) demo_pages_split by simp_all
  have d: "data_addr demo_free = 0x80110000" by (rule demo_free_data)
  from setupkvm_maps [OF k(1) demo_free_ok(3) k(2)] obtain t where t: "setupkvm demo_free = Inr (hd demo_pages, t)"
    "\<forall>v. pte t (hd demo_pages) v = (if v < KERNBASE then 0 else if KERNLINK \<le> v \<and> v < data_addr demo_free then V2P (PGROUNDDOWN v) OR PTE_P
       else if v < P2V PHYSTOP then V2P (PGROUNDDOWN v) OR PTE_W OR PTE_P else if DEVSPACE \<le> v then PGROUNDDOWN v OR PTE_W OR PTE_P
       else pte t (hd demo_pages) v)" by blast
  have "pte t (hd demo_pages) 0x80105123 = V2P (PGROUNDDOWN 0x80105123) OR PTE_P" using t(2) [rule_format, of "0x80105123"] d by simp
  moreover have "pte t (hd demo_pages) 0x1000 = 0" using t(2) [rule_format, of "0x1000"] by simp
  ultimately show ?thesis using t(1) by (simp add: V2P_def PGROUNDDOWN_def)
qed

end
