(* ===== verification/Vmcopy.thy ===== *)
theory Vmcopy
  imports Vmmaps
begin

text \<open>
  What \<^verbatim>\<open>copyuvm\<close> of \<^verbatim>\<open>src/vm.c\<close> gives a child of \<^verbatim>\<open>fork\<close>, and what \<^verbatim>\<open>copyout\<close> writes: the
  memory that a page table maps, seen as a function from user addresses to bytes.
\<close>

unbundle bit_operations_syntax

subsection \<open>Copying the memory of a process\<close>

text \<open>The page to which an address is mapped, and the byte there.\<close>

definition frame :: "'a kmem_scheme \<Rightarrow> u32 \<Rightarrow> u32 \<Rightarrow> u32" where
  "frame s d v = P2V (PTE_ADDR (pte s d v))"

definition umem :: "'a kmem_scheme \<Rightarrow> u32 \<Rightarrow> u32 \<Rightarrow> u8" where
  "umem s d v = mem s (frame s d v + (v - PGROUNDDOWN v))"

lemma PTE_ADDR_aligned: "page_aligned (PTE_ADDR e)"
proof -
  have "PTE_ADDR e = PGROUNDDOWN e" by (simp add: PTE_ADDR_def PGROUNDDOWN_def)
  then show ?thesis using PGROUNDDOWN_aligned by simp
qed

lemma frame_aligned: "page_aligned (frame s d v)"
  by (simp add: frame_def V2P_aligned PTE_ADDR_aligned)

lemma entry_nz:
  assumes "kpage s q"
  shows "q + 4 * PTX va \<noteq> 0"
  using unat_page_offset [OF kpage_aligned [OF assms], of "4 * unat (PTX va)"] kpage_nz [OF assms] idx_bounds(2) [of va]
  by (auto simp: unat_eq_0)

lemma walkpgdir_found:
  assumes "pt_ok c s d ps" and "present (pte s d va)"
  shows "\<exists>r. walkpgdir d va alloc s = Inr (r, s) \<and> r \<noteq> 0 \<and> load32 (mem s) r = pte s d va"
proof -
  have pr: "present (pde s d (PDX va))" using assms(2) by (auto simp: pte_def present_def split: if_splits)
  then have "walkpgdir d va alloc s = Inr (pgtab s d (PDX va) + 4 * PTX va, s)"
    by (simp add: walkpgdir_def pde_def pgtab_def present_def)
  moreover have "pgtab s d (PDX va) + 4 * PTX va \<noteq> 0" using entry_nz pt_okD(5) [OF assms(1) idx_less(1) pr] by blast
  ultimately show ?thesis using pr by (simp add: pte_def)
qed

text \<open>A page table is not affected by changes to pages that were free.\<close>

lemma pt_ok_other:
  assumes ok: "pt_ok c s p ps" and t: "kmem_ok c t qs" "set qs \<subseteq> set ps" "kpage t = kpage s"
    and fr: "\<And>x. (\<forall>q \<in> set ps. \<not> x - q < PGSIZE) \<Longrightarrow> mem t x = mem s x"
  shows "pt_ok c t p qs" "pte t p = pte s p" "tabs t p = tabs s p"
proof -
  note P = pt_okD [OF ok]
  have al: "page_aligned q" if "q \<in> set ps" for q using P(1) that by (auto simp: kmem_ok_def free_pages_def intro: kpage_aligned)
  have out: "mem t x = mem s x" if "page_aligned q" "q \<notin> set ps" "x - q < PGSIZE" for q x
    by (rule fr) (use page_disjoint [OF al that(1) _ that(3)] that(2) in blast)
  note F = pt_frame [OF ok out [OF P(4,3)] out]
  have e: "pde t p i = pde s p i" "pgtab t p i = pgtab s p i" if "i < 1024" for i by (rule F; use P(5) that in blast)+
  show "pte t p = pte s p" by (rule F; use P(5) in blast)
  show "tabs t p = tabs s p"
    unfolding tabs_def by (intro arg_cong [of _ _ "insert p"] Collect_cong ex_cong1) (use e in auto)
  show "pt_ok c t p qs" unfolding pt_ok_def using t P(2,3,5,6) e by auto
qed


lemma kpage_high: "kpage s q \<Longrightarrow> unat q < 0xA0000000" "kpage s q \<Longrightarrow> unat q + 4096 \<le> 0xA0000000"
proof -
  show lt: "unat q < 0xA0000000" if "kpage s q"
    using that by (auto simp: kpage_def V2P_def word_less_nat_alt unat_sub_if' split: if_splits)
  show "unat q + 4096 \<le> 0xA0000000" if k: "kpage s q"
  proof -
    obtain a where a: "unat q = 4096 * a" using kpage_aligned [OF k] unfolding page_aligned_unat by (metis mod_0_imp_dvd dvdE)
    then have "a < 0xA0000" using lt [OF k] by simp
    then show ?thesis unfolding a by simp
  qed
qed

text \<open>The same as a rule for addresses in a page other than some pages.\<close>

lemma frame_out:
  assumes "page_aligned f" and "\<forall>q \<in> Q. page_aligned q" and "f \<notin> Q" and "k < 4096"
  shows "\<forall>q \<in> Q. \<not> f + of_nat k - q < PGSIZE"
  using outside_page assms by metis

text \<open>
  The state after the pages below \<open>i\<close> of the address space \<open>p\<close> have been copied to \<open>d\<close>: \<open>used\<close> are the pages taken from the free list
  so far, for the table pages of \<open>d\<close> and for the copies.
\<close>

definition copied :: "nat \<Rightarrow> 'a kmem_scheme \<Rightarrow> u32 \<Rightarrow> u32 \<Rightarrow> u32 list \<Rightarrow> u32 \<Rightarrow> u32 list \<Rightarrow> 'a kmem_scheme \<Rightarrow> bool" where
  "copied c s p d used i qs t \<longleftrightarrow> pt_ok c t d qs \<and> kpage t = kpage s \<and> tabs t d \<subseteq> set used \<and>
     (\<forall>x. (\<forall>q \<in> set used. \<not> x - q < PGSIZE) \<longrightarrow> mem t x = mem s x) \<and>
     (\<forall>v < i. frame t d v \<in> set used - tabs t d \<and> PTE_FLAGS (pte t d v) = PTE_FLAGS (pte s p v) \<and>
        (\<forall>k < 4096. mem t (frame t d v + of_nat k) = mem s (frame s p v + of_nat k)) \<and>
        (\<forall>w < i. PGROUNDDOWN w \<noteq> PGROUNDDOWN v \<longrightarrow> frame t d w \<noteq> frame t d v)) \<and>
     (\<forall>v. i \<le> v \<and> v < KERNBASE \<longrightarrow> \<not> present (pte t d v))"


lemma copiedD:
  assumes "copied c s p d used i qs t"
  shows "pt_ok c t d qs" "kpage t = kpage s" "tabs t d \<subseteq> set used" "(\<And>q. q \<in> set used \<Longrightarrow> \<not> x - q < PGSIZE) \<Longrightarrow> mem t x = mem s x"
    "v < i \<Longrightarrow> frame t d v \<in> set used - tabs t d" "v < i \<Longrightarrow> PTE_FLAGS (pte t d v) = PTE_FLAGS (pte s p v)"
    "v < i \<Longrightarrow> k < 4096 \<Longrightarrow> mem t (frame t d v + of_nat k) = mem s (frame s p v + of_nat k)"
    "v < i \<Longrightarrow> w < i \<Longrightarrow> PGROUNDDOWN w \<noteq> PGROUNDDOWN v \<Longrightarrow> frame t d w \<noteq> frame t d v"
    "i \<le> v \<Longrightarrow> v < KERNBASE \<Longrightarrow> \<not> present (pte t d v)"
  using assms unfolding copied_def by blast+

lemma page_below:
  assumes "page_aligned i" and "i < KERNBASE"
  shows "PGROUNDDOWN v = i \<longleftrightarrow> i \<le> v \<and> v < i + PGSIZE" "PGROUNDDOWN v = i \<Longrightarrow> v < KERNBASE" "v < i + PGSIZE \<longleftrightarrow> v < i \<or> PGROUNDDOWN v = i"
    "PGROUNDDOWN (i + PGSIZE - 1) = i" "page_aligned (i + PGSIZE)" "unat (i + PGSIZE) = unat i + 4096" "\<not> i + PGSIZE < i"
proof -
  obtain a where a: "unat i = 4096 * a" using assms(1) unfolding page_aligned_unat by (metis mod_0_imp_dvd dvdE)
  have lt: "4096 * a < 2147483648" using assms(2) a by (simp add: word_less_nat_alt)
  show s: "unat (i + PGSIZE) = unat i + 4096" using unat_add_nat [of i 4096] a lt by simp
  show "page_aligned (i + PGSIZE)" unfolding page_aligned_unat s a by simp
  show "\<not> i + PGSIZE < i" unfolding word_less_nat_alt s by simp
  show pg: "PGROUNDDOWN v = i \<longleftrightarrow> i \<le> v \<and> v < i + PGSIZE" for v
    unfolding word_unat_eq_iff word_le_nat_alt word_less_nat_alt s unat_PGROUNDDOWN a by auto
  show "PGROUNDDOWN v = i \<Longrightarrow> v < KERNBASE" unfolding pg word_le_nat_alt word_less_nat_alt s a using lt by auto
  show "v < i + PGSIZE \<longleftrightarrow> v < i \<or> PGROUNDDOWN v = i" unfolding pg word_le_nat_alt word_less_nat_alt s by auto
  have "i + PGSIZE - 1 = i + of_nat 4095" by simp
  then have "unat (i + PGSIZE - 1) = unat i + 4095" using unat_add_nat [of i 4095] a lt by (simp only:) simp
  then show "PGROUNDDOWN (i + PGSIZE - 1) = i" unfolding pg word_le_nat_alt word_less_nat_alt s by simp
qed

lemma flags_bit: "bit (PTE_FLAGS e) n \<longleftrightarrow> n < 12 \<and> bit e n"
proof -
  have "(0xFFF :: u32) = mask 12" by (simp add: mask_eq_exp_minus_1)
  then have "PTE_FLAGS e = take_bit 12 e" unfolding PTE_FLAGS_def by (simp only: take_bit_eq_mask)
  then show ?thesis by (simp add: bit_simps)
qed

lemma page_entry:
  assumes "page_aligned g" and "f = PTE_FLAGS e" and "present e" and "PGROUNDDOWN v = i"
  shows "P2V (PTE_ADDR (entry i (V2P g) f v)) = g" "PTE_FLAGS (entry i (V2P g) f v) = f"
proof -
  have al: "page_aligned (V2P g)" using V2P_aligned(1) [OF assms(1)] .
  have b0: "bit e 0" using assms(3) by (simp add: present_odd bit_0)
  have "f OR PTE_P = f" unfolding assms(2) using b0 by (intro bit_word_eqI) (auto simp: bit_simps flags_bit bit_1_iff)
  then have e: "entry i (V2P g) f v = V2P g OR f" using assms(4) by (simp add: entry_def)
  have "f AND NOT 0xFFF = 0"
    using flags_bit [of e] flags_bit [of "- 1"] unfolding assms(2) PTE_FLAGS_def by (auto simp: bit_eq_iff bit_simps)
  then show "P2V (PTE_ADDR (entry i (V2P g) f v)) = g" using PTE_ADDR_or [OF al] V2P_aligned(3) e by simp
  have "\<not> bit (V2P g) n" if "n < 12" for n using al that unfolding page_aligned_bits by (auto simp: bit_eq_iff bit_simps dest: bit_imp_le_length)
  then show "PTE_FLAGS (entry i (V2P g) f v) = f" unfolding e by (auto simp: bit_eq_iff flags_bit bit_simps assms(2))
qed


text \<open>A new page for a copy.\<close>

lemma copy_page:
  assumes ok: "pt_ok c t d (g # qs)" and k: "kmem_ok c t' qs" "mem t' = mem t" "kpage t' = kpage t" and f: "kpage t f"
  defines "u \<equiv> t'\<lparr>mem := memmove g f PGSIZE (mem t')\<rparr>"
  shows "pt_ok c u d qs" "pte u d = pte t d" "tabs u d = tabs t d" "kpage u = kpage t"
    "\<not> x - g < PGSIZE \<Longrightarrow> mem u x = mem t x" "j < 4096 \<Longrightarrow> mem u (g + of_nat j) = mem t (f + of_nat j)"
proof -
  have g: "kpage t g" "g \<notin> set qs" "\<And>q. q \<in> set qs \<Longrightarrow> kpage t q" using pt_okD(1) [OF ok] by (auto simp: kmem_ok_def free_pages_def)
  have m: "mem u x = (if x - g < PGSIZE then mem t (f + (x - g)) else mem t x)" for x
    unfolding u_def k(2) using memmove_apply [of g PGSIZE f "mem t" x] kpage_high(2) [OF g(1)] kpage_high(2) [OF f] by simp
  then show fr: "mem u x = mem t x" if "\<not> x - g < PGSIZE" for x using that by simp
  have "(of_nat j :: u32) < PGSIZE" if "j < 4096" for j
    using that by (simp add: word_less_nat_alt unat_of_nat take_bit_nat_eq_self)
  then show "mem u (g + of_nat j) = mem t (f + of_nat j)" if "j < 4096" for j using that m by simp
  show kp: "kpage u = kpage t" using kpage_cong [of u t'] k(3) by (simp add: u_def)
  have "mem u x = mem t' x" if "q \<in> set qs" "x - q < PGSIZE" for q x
  proof -
    have "g \<noteq> q" using g(2) that(1) by auto
    then show ?thesis using fr page_disjoint [OF kpage_aligned [OF g(1)] kpage_aligned [OF g(3)] _ that(2)] that(1) k(2) by auto
  qed
  then have "kmem_ok c u qs" using kmem_ok_mem [OF k(1)] unfolding u_def by simp
  from pt_ok_other [OF ok this _ kp] show "pt_ok c u d qs" "pte u d = pte t d" "tabs u d = tabs t d" using fr by auto
qed

lemma copy_map:
  assumes ok: "pt_ok c u d qs" and i: "page_aligned i" "i < KERNBASE" and free: "\<And>v. i \<le> v \<Longrightarrow> v < KERNBASE \<Longrightarrow> \<not> present (pte u d v)" and qs: "qs \<noteq> []"
  shows "\<exists>w zs rs. mappages d i PGSIZE pa fl u = Inr (0, w) \<and> qs = zs @ rs \<and> length zs \<le> 1 \<and> pt_step c d u w zs rs \<and>
    (\<forall>v. pte w d v = (if PGROUNDDOWN v = i then entry i pa fl v else pte u d v))"
proof -
  note B = page_below [OF i]
  have one: "i \<le> PGROUNDDOWN v \<and> PGROUNDDOWN v \<le> i \<longleftrightarrow> PGROUNDDOWN v = i" for v by auto
  have I: "{PDX i} \<subseteq> {..<1024}" using idx_less(1) by simp
  have b: "unat i + unat (PGSIZE :: u32) \<le> 2 ^ 32" "0 < (PGSIZE :: u32)" using i(2) by (simp_all add: word_less_nat_alt)
  have "\<not> present (pte u d v) \<and> PDX v \<in> {PDX i}" if "PGROUNDDOWN v = i" for v
    using free [of v] B(1,2) [of v] same_page [of v i] PGROUNDDOWN_id [OF i(1)] that by simp
  then have "\<forall>v. i \<le> PGROUNDDOWN v \<and> PGROUNDDOWN v \<le> i \<longrightarrow> \<not> present (pte u d v) \<and> PDX v \<in> {PDX i}" unfolding one by blast
  from mappages_ok [OF ok b(2,1) I, unfolded B(4) PGROUNDDOWN_id [OF i(1)], OF this]
  obtain r w where w: "mappages d i PGSIZE pa fl u = Inr (r, w)" "maps c d {PDX i} i i pa fl qs u r w" by blast
  have "gaps u d {PDX i} \<le> card {PDX i}" unfolding gaps_def by (rule card_mono) auto
  then have "gaps u d {PDX i} \<le> 1" by simp
  moreover have "0 < length qs" using qs by simp
  ultimately have short: "\<not> length qs < gaps u d {PDX i}" by linarith
  obtain zs rs where z: "qs = zs @ rs" "pt_step c d u w zs rs" "gaps w d {PDX i} + length zs = gaps u d {PDX i}" "r = 0"
    "\<forall>v. pte w d v = (if PGROUNDDOWN v = i then entry i pa fl v else pte u d v)"
    using w(2) short unfolding maps_def one by (elim exE conjE disjE) auto
  then show ?thesis using w(1) \<open>gaps u d {PDX i} \<le> 1\<close> by (intro exI [of _ w] exI [of _ zs] exI [of _ rs]) simp
qed


lemma copied_step:
  assumes par: "pt_ok c s p (used @ g # zs @ qs)" "present (pte s p i)" "kpage s (frame s p i)" "frame s p i \<notin> set (used @ g # zs @ qs)"
      "\<And>v. PGROUNDDOWN v = i \<Longrightarrow> pte s p v = pte s p i"
    and cp: "copied c s p d used i (g # zs @ qs) t" and i: "page_aligned i" "i < KERNBASE"
    and u: "pte u d = pte t d" "tabs u d = tabs t d" "kpage u = kpage t" "\<And>x. \<not> x - g < PGSIZE \<Longrightarrow> mem u x = mem t x"
      "\<And>j. j < 4096 \<Longrightarrow> mem u (g + of_nat j) = mem t (frame s p i + of_nat j)"
    and w: "pt_step c d u w zs qs" "\<And>v. pte w d v = (if PGROUNDDOWN v = i then entry i (V2P g) (PTE_FLAGS (pte s p i)) v else pte u d v)"
  shows "copied c s p d (used @ g # zs) (i + PGSIZE) qs w"
proof -
  note C = copiedD [OF cp] and W = pt_stepD [OF w(1)] and B = page_below [OF i]
  have pages: "distinct (used @ g # zs @ qs)" "\<And>q. q \<in> set (used @ g # zs @ qs) \<Longrightarrow> page_aligned q"
    using pt_okD(1) [OF par(1)] by (auto simp: kmem_ok_def free_pages_def intro: kpage_aligned)
  have tabs: "tabs w d \<subseteq> tabs t d \<union> set zs" using W(3) u(2) by simp
  have keep: "mem w (f + of_nat k) = mem u (f + of_nat k)" if "page_aligned f" "f \<notin> tabs t d" "f \<notin> set zs" "k < 4096" for f k
  proof (rule W(4))
    fix q assume "q \<in> tabs u d \<or> q \<in> set zs"
    then have "page_aligned q" "q \<noteq> f" using that(2,3) C(3) u(2) pages(2) by auto
    then show "\<not> f + of_nat k - q < PGSIZE" using outside_page [of q f] that(1,4) by auto
  qed
  have old: "frame w d v = frame t d v" "pte w d v = pte t d v" if "v < i" for v
    using that B(1) [of v] w(2) [of v] u(1) by (auto simp: frame_def not_less)
  have new: "frame w d v = g" "PTE_FLAGS (pte w d v) = PTE_FLAGS (pte s p i)" if "PGROUNDDOWN v = i" for v
    using page_entry [OF pages(2) refl par(2) that, of g] w(2) [of v] that by (simp_all add: frame_def)
  have outside: "mem w x = mem s x" if "\<forall>q \<in> set (used @ g # zs). \<not> x - q < PGSIZE" for x
    using W(4) [of x] u(2,4) C(3) C(4) [of x] that by auto
  have src: "mem t (frame s p i + of_nat k) = mem s (frame s p i + of_nat k)" if "k < 4096" for k
  proof (rule C(4))
    fix q assume "q \<in> set used"
    then have "page_aligned q" "q \<noteq> frame s p i" using par(4) pages(2) by auto
    then show "\<not> frame s p i + of_nat k - q < PGSIZE" using outside_page [OF _ frame_aligned _ that] by blast
  qed
  have bytes: "mem w (frame w d v + of_nat k) = mem s (frame s p v + of_nat k)" if "v < i + PGSIZE" "k < 4096" for v k
  proof (cases "PGROUNDDOWN v = i")
    case True
    have "g \<notin> tabs t d" "g \<notin> set zs" using C(3) pages(1) by auto
    then show ?thesis using new(1) [OF True] keep [OF pages(2)] u(5) src that(2) par(5) [OF True] by (simp add: frame_def)
  next
    case False
    then have v: "v < i" using that(1) B(3) by simp
    then have f: "frame t d v \<in> set used" "frame t d v \<notin> tabs t d" "frame t d v \<noteq> g" "frame t d v \<notin> set zs" using C(5) [OF v] pages(1) by auto
    then have "mem u (frame t d v + of_nat k) = mem t (frame t d v + of_nat k)"
      by (intro u(4) outside_page) (use pages(2) f that(2) frame_aligned in auto)
    then show ?thesis using old(1) [OF v] keep [OF frame_aligned f(2,4) that(2)] C(7) [OF v that(2)] by simp
  qed
  have fr: "frame w d v \<in> set (used @ g # zs)" "frame w d v \<notin> tabs w d" "PTE_FLAGS (pte w d v) = PTE_FLAGS (pte s p v)" if "v < i + PGSIZE" for v
  proof -
    have g: "g \<notin> tabs w d" using tabs C(3) pages(1) by auto
    consider "PGROUNDDOWN v = i" | "v < i" using \<open>v < i + PGSIZE\<close> B(3) by blast
    note cases = this
    have "frame t d v \<in> set used" "frame t d v \<notin> tabs w d" if "v < i" using C(5) [OF that] tabs pages(1) by auto
    with cases g show "frame w d v \<in> set (used @ g # zs)" "frame w d v \<notin> tabs w d" "PTE_FLAGS (pte w d v) = PTE_FLAGS (pte s p v)"
      using old new C(6) par(5) by (metis Un_iff list.set_intros(1) set_append)+
  qed
  have inj: "frame w d x \<noteq> frame w d v" if "v < i + PGSIZE" "x < i + PGSIZE" "PGROUNDDOWN x \<noteq> PGROUNDDOWN v" for v x
  proof -
    have g: "frame t d y \<noteq> g" if "y < i" for y using C(5) [OF that] pages(1) by auto
    show ?thesis using that C(8) old(1) new(1) g unfolding B(3) by metis
  qed
  have "\<not> present (pte w d v)" if "i + PGSIZE \<le> v" "v < KERNBASE" for v
  proof -
    have "PGROUNDDOWN v \<noteq> i" "i \<le> v" using leD [OF that(1)] B(1,3) [of v] by (blast, meson leI)
    then show ?thesis using C(9) that(2) w(2) u(1) by simp
  qed
  moreover have "tabs w d \<subseteq> set (used @ g # zs)" "kpage w = kpage s" using tabs C(2,3) W(2) u(3) by auto
  ultimately show ?thesis unfolding copied_def using W(1) outside fr bytes inj by (intro conjI allI impI DiffI) simp_all
qed

lemma copyuvm_loop_ok:
  assumes "pt_ok c s p (used @ qs)" and "copied c s p d used i qs t" and "page_aligned i"
    and "\<And>v. v < sz \<Longrightarrow> present (pte s p v) \<and> kpage s (frame s p v) \<and> frame s p v \<notin> set (used @ qs)" and "sz \<le> KERNBASE"
    and "unat sz \<le> unat i + 4096 * n" and "unat i + 4096 * n < unat sz + 4096" and "2 * n \<le> length qs"
  shows "\<exists>used' qs' u j. copyuvm_loop d p sz i t = Inr (d, u) \<and> used @ qs = used' @ qs' \<and> copied c s p d used' j qs' u \<and> sz \<le> j"
  using assms
proof (induction n arbitrary: used i qs t)
  case 0
  then have "\<not> i < sz" by (simp add: word_less_nat_alt)
  then have "copyuvm_loop d p sz i t = Inr (d, t)" by (subst copyuvm_loop.simps) simp
  then show ?case using 0(2) \<open>\<not> i < sz\<close> by (intro exI [of _ used] exI [of _ qs] exI [of _ t] exI [of _ i]) (simp add: not_less)
next
  case (Suc n)
  note C = copiedD [OF Suc.prems(2)]
  have lt: "i < sz" using Suc.prems(7) by (simp add: word_less_nat_alt)
  then have i: "i < KERNBASE" using Suc.prems(5) by (rule less_le_trans)
  note B = page_below [OF Suc.prems(3) i]
  have src: "present (pte s p i)" "kpage s (frame s p i)" "frame s p i \<notin> set (used @ qs)" using Suc.prems(4) [OF lt] by auto
  obtain g rest where qs: "qs = g # rest" "rest \<noteq> []" using Suc.prems(8) by (cases qs; cases "tl qs") auto
  have P: "pt_ok c t p qs" "pte t p = pte s p"
    using pt_ok_other [OF Suc.prems(1) pt_okD(1) [OF C(1)] _ C(2)] C(4) by auto
  obtain r where r: "walkpgdir p i False t = Inr (r, t)" "r \<noteq> 0" "load32 (mem t) r = pte s p i"
    using walkpgdir_found [OF P(1), of i False] src(1) P(2) by auto
  obtain t' where t': "kalloc t = Inr (g, t')" "kmem_ok c t' rest" "mem t' = mem t" "kpage t' = kpage t"
    using kmem_ok_kalloc_page pt_okD(1) [OF C(1)] unfolding qs(1) by blast
  have g0: "g \<noteq> 0" using pt_okD(1) [OF C(1)] unfolding qs(1) by (auto simp: kmem_ok_def free_pages_def dest: kpage_nz)
  define u where "u = t'\<lparr>mem := memmove g (frame s p i) PGSIZE (mem t')\<rparr>"
  note U = copy_page [OF C(1) [unfolded qs(1)] t'(2-4), of "frame s p i", folded u_def]
  have kf: "kpage t (frame s p i)" using src(2) C(2) by simp
  obtain w zs rs where w: "mappages d i PGSIZE (V2P g) (PTE_FLAGS (pte s p i)) u = Inr (0, w)" "rest = zs @ rs" "length zs \<le> 1" "pt_step c d u w zs rs"
    "\<forall>v. pte w d v = (if PGROUNDDOWN v = i then entry i (V2P g) (PTE_FLAGS (pte s p i)) v else pte u d v)"
    using copy_map [OF U(1) [OF kf] Suc.prems(3) i _ qs(2)] C(9) U(2) [OF kf] by metis
  have same: "pte s p v = pte s p i" if "PGROUNDDOWN v = i" for v
    using that same_page [of v i] PGROUNDDOWN_id [OF Suc.prems(3)] by (simp add: pte_def)
  have ps: "used @ qs = used @ g # zs @ rs" using qs w(2) by simp
  have cp: "copied c s p d (used @ g # zs) (i + PGSIZE) rs w"
    by (rule copied_step [where t = t and u = u])
      (use Suc.prems(1-3) src i same U(2-6) kf w(4,5) in \<open>simp_all add: ps qs(1) w(2)\<close>)
  have "copyuvm_loop d p sz i t = copyuvm_loop d p sz (i + PGSIZE) w"
    using lt r t'(1) g0 src(1) w(1) B(7) by (subst copyuvm_loop.simps) (simp add: present_def frame_def u_def Let_def)
  moreover have "\<exists>used' qs' u j. copyuvm_loop d p sz (i + PGSIZE) w = Inr (d, u) \<and> (used @ g # zs) @ rs = used' @ qs' \<and> copied c s p d used' j qs' u \<and> sz \<le> j"
    by (rule Suc.IH) (use Suc.prems cp B(5,6) ps w(2,3) qs(1) in auto)
  ultimately show ?case using ps by simp
qed

definition npages :: "u32 \<Rightarrow> nat" where
  "npages sz = (unat sz + 4095) div 4096"

lemma npages_bounds: "unat sz \<le> 4096 * npages sz" "4096 * npages sz < unat sz + 4096"
proof -
  have "(unat sz + 4095) mod 4096 < 4096" by simp
  then show "unat sz \<le> 4096 * npages sz" "4096 * npages sz < unat sz + 4096"
    using mult_div_mod_eq [of 4096 "unat sz + 4095"] unfolding npages_def by linarith+
qed

lemma umem_eq:
  assumes "\<And>k. k < 4096 \<Longrightarrow> mem t (frame t d v + of_nat k) = mem s (frame s p v + of_nat k)"
  shows "umem t d v = umem s p v"
proof -
  have "unat (v - PGROUNDDOWN v) < 4096" using PGROUNDDOWN_offset [of v] by (simp add: word_less_nat_alt)
  from assms [OF this] show ?thesis by (simp add: umem_def)
qed

lemma copyuvm_ok:
  assumes ok: "pt_ok c s p ps" and lay: "layout_ok s" and sz: "sz \<le> KERNBASE"
    and user: "\<And>v. v < sz \<Longrightarrow> present (pte s p v) \<and> kpage s (frame s p v) \<and> frame s p v \<notin> set ps"
    and len: "513 + 2 * npages sz \<le> length ps"
  shows "\<exists>d t used qs j. copyuvm p sz s = Inr (d, t) \<and> d \<noteq> 0 \<and> ps = used @ qs \<and> copied c s p d used j qs t \<and> sz \<le> j"
proof -
  obtain d ps' where ps: "ps = d # ps'" using len by (cases ps) auto
  have d0: "d \<noteq> 0" using pt_okD(1) [OF ok] unfolding ps by (auto simp: kmem_ok_def free_pages_def dest: kpage_nz)
  obtain t zs qs where t: "setupkvm s = Inr (d, t)" "ps' = zs @ qs" "pt_ok c t d qs" "kpage t = kpage s" "length zs \<le> 512"
    "tabs t d \<subseteq> insert d (set zs)" "\<forall>x. (\<forall>q \<in> insert d (set zs). \<not> x - q < PGSIZE) \<longrightarrow> mem t x = mem s x"
    "\<forall>v. (\<forall>k \<in> set (kmap_table s). \<not> kcovers k v) \<longrightarrow> pte t d v = 0"
    using setupkvm_ok [OF pt_okD(1) [OF ok, unfolded ps] lay] len unfolding ps by auto
  have "\<not> present (pte t d v)" if "v < KERNBASE" for v
    using t(8) user_half [OF lay that] by (simp add: present_def)
  then have cp: "copied c s p d (d # zs) 0 qs t" using t(3,4,6,7) by (simp add: copied_def)
  have "\<exists>used' qs' u j. copyuvm_loop d p sz 0 t = Inr (d, u) \<and> (d # zs) @ qs = used' @ qs' \<and> copied c s p d used' j qs' u \<and> sz \<le> j"
    by (rule copyuvm_loop_ok [OF _ cp, where n = "npages sz"])
      (use ok user sz npages_bounds len t(2,5) in \<open>simp_all add: ps page_aligned_def\<close>)
  then obtain used' qs' u j where "copyuvm_loop d p sz 0 t = Inr (d, u)" "(d # zs) @ qs = used' @ qs'" "copied c s p d used' j qs' u" "sz \<le> j" by blast
  then show ?thesis using t(1,2) d0 ps
    by (intro exI [of _ d] exI [of _ u] exI [of _ used'] exI [of _ qs'] exI [of _ j]) (simp add: copyuvm_def)
qed

subsection \<open>Properties\<close>

text \<open>C33. \<^verbatim>\<open>copyuvm\<close> gives the child of a \<^verbatim>\<open>fork\<close> a copy of the parent's memory. With enough free pages it returns a page
  directory in which every user address of the parent is mapped with the parent's permissions and reads the same byte; the pages are
  taken from the free list, so that they are shared with nobody, and different pages of the child are different pages of memory; and the
  parent's address space is unchanged.\<close>

theorem copyuvm_copies:
  assumes "pt_ok c s p ps" and "layout_ok s" and "sz \<le> KERNBASE" and "513 + 2 * npages sz \<le> length ps"
    and "\<forall>v < sz. present (pte s p v) \<and> kpage s (frame s p v) \<and> frame s p v \<notin> set ps"
  shows "\<exists>d t. copyuvm p sz s = Inr (d, t) \<and> d \<noteq> 0 \<and>
    (\<forall>v < sz. umem t d v = umem s p v \<and> PTE_FLAGS (pte t d v) = PTE_FLAGS (pte s p v) \<and> frame t d v \<in> set ps \<and>
      umem t p v = umem s p v \<and> pte t p v = pte s p v \<and> (\<forall>w < sz. PGROUNDDOWN w \<noteq> PGROUNDDOWN v \<longrightarrow> frame t d w \<noteq> frame t d v))"
proof -
  obtain d t used qs j where t: "copyuvm p sz s = Inr (d, t)" "d \<noteq> 0" "ps = used @ qs" "copied c s p d used j qs t" "sz \<le> j"
    using copyuvm_ok [OF assms(1-3) _ assms(4)] assms(5) by blast
  note C = copiedD [OF t(4)]
  have lt: "v < j" if "v < sz" for v using that t(5) by (rule less_le_trans)
  have par: "pte t p = pte s p" using pt_ok_other [OF assms(1) pt_okD(1) [OF C(1)] _ C(2)] C(4) t(3) by auto
  have "umem t p v = umem s p v" if v: "v < sz" for v
  proof (rule umem_eq)
    fix k :: nat assume k: "k < 4096"
    have "mem t (frame s p v + of_nat k) = mem s (frame s p v + of_nat k)"
    proof (rule C(4))
      fix q assume q: "q \<in> set used"
      then have "page_aligned q" using pt_okD(1) [OF assms(1)] t(3) by (auto simp: kmem_ok_def free_pages_def intro: kpage_aligned)
      moreover have "q \<noteq> frame s p v" using assms(5) v q t(3) by auto
      ultimately show "\<not> frame s p v + of_nat k - q < PGSIZE" using outside_page [OF _ frame_aligned _ k] by blast
    qed
    then show "mem t (frame t p v + of_nat k) = mem s (frame s p v + of_nat k)" using par by (simp add: frame_def)
  qed
  moreover have "umem t d v = umem s p v" if "v < sz" for v by (rule umem_eq) (rule C(7) [OF lt [OF that]])
  moreover have "frame t d v \<in> set ps" if "v < sz" for v using C(5) [OF lt [OF that]] t(3) by simp
  ultimately show ?thesis using t(1,2) C(6,8) lt par by (intro exI [of _ d] exI [of _ t]) auto
qed

text \<open>An address space with one user page.\<close>

definition demo_par :: vm where
  "demo_par = (case kbind (kalloc (snd demo_kvm)) (\<lambda>(g, s). mappages (fst demo_kvm) 0 PGSIZE (V2P g) (PTE_W OR PTE_U OR PTE_P) s) of
     Inr (_, s) \<Rightarrow> s | Inl _ \<Rightarrow> snd demo_kvm)"

lemma demo_par_ok:
  obtains ps where "pt_ok 0 demo_par (fst demo_kvm) ps" "1400 \<le> length ps" "layout_ok demo_par"
    "\<And>v. v < PGSIZE \<Longrightarrow> present (pte demo_par (fst demo_kvm) v) \<and> kpage demo_par (frame demo_par (fst demo_kvm) v) \<and> frame demo_par (fst demo_kvm) v \<notin> set ps"
proof -
  define p s where "p = fst demo_kvm" and "s = snd demo_kvm"
  obtain qs where q: "pt_ok 0 s p qs" "1500 \<le> length qs" "layout_ok s" "\<And>v. v < KERNBASE \<Longrightarrow> pte s p v = 0"
    using demo_kvm_ok unfolding p_def s_def by blast
  obtain g rest where qs: "qs = g # rest" "1400 < length rest" using q(2) by (cases qs) auto
  obtain t where t: "kalloc s = Inr (g, t)" "kmem_ok 0 t rest" "mem t = mem s" "kpage t = kpage s"
    using kmem_ok_kalloc_page pt_okD(1) [OF q(1)] unfolding qs(1) by blast
  have g: "kpage s g" "g \<notin> set rest" using pt_okD(1) [OF q(1)] unfolding qs(1) by (auto simp: kmem_ok_def free_pages_def)
  have T: "pt_ok 0 t p rest" "pte t p = pte s p" using pt_ok_other [OF q(1) t(2) _ t(4)] t(3) qs(1) by auto
  have z: "page_aligned 0" "0 < (KERNBASE :: u32)" by (simp_all add: page_aligned_def)
  have np: "\<not> present (pte t p v)" if "0 \<le> v" "v < KERNBASE" for v using q(4) [OF that(2)] T(2) by (simp add: present_def)
  have ne: "rest \<noteq> []" using qs(2) by auto
  obtain w zs rs where w: "mappages p 0 PGSIZE (V2P g) (PTE_FLAGS (PTE_W OR PTE_U OR PTE_P)) t = Inr (0, w)" "rest = zs @ rs" "length zs \<le> 1"
    "pt_step 0 p t w zs rs" "\<forall>v. pte w p v = (if PGROUNDDOWN v = 0 then entry 0 (V2P g) (PTE_FLAGS (PTE_W OR PTE_U OR PTE_P)) v else pte t p v)"
    using copy_map [OF T(1) z np ne, of "V2P g" "PTE_FLAGS (PTE_W OR PTE_U OR PTE_P)"] by blast
  have f: "PTE_FLAGS (PTE_W OR PTE_U OR PTE_P) = PTE_W OR PTE_U OR PTE_P" by (simp add: PTE_FLAGS_def)
  have e: "demo_par = w" using t(1) w(1) unfolding f by (simp add: demo_par_def p_def s_def)
  have "kmem.more w = kmem.more s" using kalloc_frame [OF t(1)] mappages_frame [OF w(1)] by (simp add: vframe_def)
  then have lay: "layout_ok w" using q(3) more_vm [of w s] by (simp add: layout_ok_def)
  have "present (pte w p v) \<and> frame w p v = g" if "v < PGSIZE" for v
  proof -
    have v: "PGROUNDDOWN v = 0" using page_below(1) [of 0 v] that by (simp add: page_aligned_def)
    have "present (entry 0 (V2P g) (PTE_FLAGS (PTE_W OR PTE_U OR PTE_P)) v)" by (simp add: entry_def present_odd even_or_iff)
    then show ?thesis using w(5) v page_entry(1) [OF kpage_aligned [OF g(1)] refl _ v, of "PTE_W OR PTE_U OR PTE_P"] by (simp add: frame_def present_def)
  qed
  moreover have "kpage w g" "g \<notin> set rs" using g w(2) pt_stepD(2) [OF w(4)] t(4) by auto
  ultimately show ?thesis
    using that [of rs] pt_stepD(1) [OF w(4)] lay w(2,3) qs(2) unfolding e p_def [symmetric] by simp
qed

theorem copyuvm_copies_witness:
  "\<exists>d t. copyuvm (fst demo_kvm) 0x1000 demo_par = Inr (d, t) \<and> d \<noteq> 0 \<and> umem t d 0x123 = umem demo_par (fst demo_kvm) 0x123"
proof -
  obtain ps where ps: "pt_ok 0 demo_par (fst demo_kvm) ps" "1400 \<le> length ps" "layout_ok demo_par"
    "\<forall>v < 0x1000. present (pte demo_par (fst demo_kvm) v) \<and> kpage demo_par (frame demo_par (fst demo_kvm) v) \<and> frame demo_par (fst demo_kvm) v \<notin> set ps"
    using demo_par_ok by metis
  have "513 + 2 * npages 0x1000 \<le> length ps" using ps(2) by (simp add: npages_def)
  then show ?thesis using copyuvm_copies [OF ps(1,3) _ _ ps(4)] by auto
qed

end
