(* ===== verification/Procreach.thy ===== *)
theory Procreach
  imports Procprops Vmcopy
begin

unbundle bit_operations_syntax

section \<open>The states that the CPUs reach\<close>

text \<open>
  The properties of all reachable states of the system of CPUs (\<^verbatim>\<open>src/proc.c\<close>), and one run of the
  system from boot: the first process is created, gets its address space, is started by a scheduler and interrupted by
  the timer.
\<close>

subsection \<open>The first steps after boot\<close>

lemma free_pages_cong:
  "mem t = mem s \<Longrightarrow> freelist t = freelist s \<Longrightarrow> end_addr t = end_addr s \<Longrightarrow> free_pages t ps = free_pages s ps"
  using kpage_cong [of t s] by (simp add: free_pages_def)

lemma kmem_ok_rest: "at_rest s \<Longrightarrow> on_cpu c s \<Longrightarrow> kmem_ok c s ps \<longleftrightarrow> free_pages s ps"
  using at_rest_cpu [of s c] by (simp add: kmem_ok_def kmem_ready_def)

lemma store32_page:
  assumes "\<not> x - k < PGSIZE" and "unat j < 4093"
  shows "store32 (k + j) v m x = m x"
proof -
  have "x \<noteq> k + j + i" if "unat i < 4" for i
  proof
    assume "x = k + j + i"
    then have "unat (x - k) = unat (j + i)" by simp
    also have "\<dots> < 4096" using assms(2) that by (simp add: unat_word_ariths)
    finally show False using assms(1) by (simp add: word_less_nat_alt)
  qed
  from this [of 0] this [of 1] this [of 2] this [of 3] show ?thesis by (intro store32_other) simp_all
qed

lemma init_kstack_mem:
  assumes "\<not> x - k < PGSIZE"
  shows "mem (init_kstack i k s) x = mem s x"
proof -
  have "\<not> x - (k + 3996) < 20"
  proof
    assume "x - (k + 3996) < 20"
    then have "unat (x - (k + 3996)) < 20" by (simp add: word_less_nat_alt)
    moreover have "x - k = (x - (k + 3996)) + 3996" by simp
    ultimately have "unat (x - k) < 4096" by (simp only: unat_word_ariths) simp
    with assms show False by (simp add: word_less_nat_alt)
  qed
  moreover have "store32 (k + 4012) v m x = m x" "store32 (k + 4016) v m x = m x" for v m
    by (rule store32_page [OF assms]; simp)+
  ultimately show ?thesis by (simp add: init_kstack_def Let_def memset_apply algebra_simps)
qed

text \<open>\<^verbatim>\<open>allocproc\<close> on the table of a booting kernel.\<close>

definition first_proc :: "u32 \<Rightarrow> proc" where
  "first_proc k = zero_proc\<lparr>state := EMBRYO, pid := 1, priority := 3, kstack := k, tf := k + 4020, ctx := k + 3996\<rparr>"

lemma alloc_first:
  assumes boot: "boot_ptab s" and c: "on_cpu c s" and free: "free_pages s (k # ps)"
  shows "\<exists>t. allocproc s = Inr (Some 0, t) \<and> ptable t = (ptable s)[0 := first_proc k] \<and> running t = running s \<and>
    free_pages t ps \<and> data_addr t = data_addr s \<and> vram_size t = vram_size s \<and> pvram_addr t = pvram_addr s"
proof -
  have inv: "sys_inv 1 s" using proc_inv_boot [OF boot] boot by (simp add: proc_inv_sys boot_ptab_def)
  have rest: "at_rest s" by (rule sys_inv_rest [OF inv])
  have pt: "ptable s = replicate NPROC zero_proc" "nextpid s = 1" using boot by (simp_all add: boot_ptab_def)
  have idx: "find_idx (\<lambda>p. state p = UNUSED) (ptable s) = Some 0"
    unfolding pt(1) find_idx_Some_iff by (simp add: zero_proc_def)
  note sec = sec_enter [OF inv c refl]
  let ?h = "hold PtableLock c s"
  have "in_section c s (claim_slot 0 ?h)" using sec(2) by (simp add: sec_inv_def)
  from in_section_leave [OF rest c this] obtain u where u: "release PtableLock (claim_slot 0 ?h) = Inr u" "at_rest u"
    "running u = (running s)[c := cpu_proc (cpus ?h ! c)]" "ptable u = ptable (claim_slot 0 ?h)" "lapic_id u = lapic_id s"
    "cpus u = (cpus ?h)[c := cpu_pop (cpus ?h ! c)]" "kmem.more u = kmem.more (claim_slot 0 ?h)"
    "mem u = mem s" "freelist u = freelist s" "end_addr u = end_addr s" by auto
  have on: "on_cpu c u" using c u(5,6) on_cpu_length [OF c] by (intro on_cpu_cong [THEN iffD2, of u s c]) simp_all
  have "kmem_ok c u (k # ps)" using kmem_ok_rest [OF u(2) on] free free_pages_cong [OF u(8-10)] by simp
  from kmem_ok_kalloc_page [OF this] obtain v where v: "kalloc u = Inr (k, v)" "kmem_ok c v ps" "kpage v = kpage u" by blast
  note V = rest_frame [OF u(2) on kalloc_frame [OF v(1)]]
  have k: "kpage s k" "k \<notin> set ps" "\<forall>p \<in> set ps. kpage s p" using free by (simp_all add: free_pages_def)
  let ?w = "upd_proc 0 (\<lambda>p. p\<lparr>kstack := k\<rparr>) v"
  let ?t = "init_kstack 0 k ?w"
  have "allocproc s = Inr (Some 0, ?t)"
    using sec(1) idx u(1) v(1) kpage_nz [OF k(1)] by (simp add: allocproc_def)
  moreover have "ptable ?t = (ptable s)[0 := first_proc k]"
    using V(4) u(4) pt by (simp add: init_kstack_ptable claim_slot_ptable first_proc_def zero_proc_def)
  moreover have "running ?t = running s" using running_cong [of ?t v] V(3) u(3) sec(3) by (simp add: running_same)
  moreover have "kmem_ok c (v\<lparr>mem := mem ?t\<rparr>) ps"
  proof (rule kmem_ok_mem [OF v(2)])
    fix q x assume q: "q \<in> set ps" "x - q < PGSIZE"
    then have "\<not> x - k < PGSIZE" using page_disjoint [of k q x] k by (auto intro: kpage_aligned)
    then show "mem ?t x = mem v x" using init_kstack_mem [of x k 0 ?w] by simp
  qed
  then have "free_pages ?t ps" using free_pages_cong [of ?t "v\<lparr>mem := mem ?t\<rparr>" ps] by (simp add: kmem_ok_def)
  moreover have "data_addr ?t = data_addr s \<and> vram_size ?t = vram_size s \<and> pvram_addr ?t = pvram_addr s"
    using more_vm [of v u] more_vm [OF u(7)] kalloc_frame [OF v(1)] by (simp add: vframe_def init_kstack_def Let_def claim_slot_def upd_proc_def hold_def push_state_def)
  ultimately show ?thesis by blast
qed

text \<open>The address space of the first process.\<close>

lemma userinit_ok:
  assumes rest: "at_rest s" "on_cpu c s" and free: "free_pages s (d # ps)" "600 \<le> length ps" and lay: "layout_ok s"
    and "initsz < PGSIZE" and j: "j < length (ptable s)"
  shows "\<exists>t. userinit_image init initsz j s = Inr t \<and> d \<noteq> 0 \<and> running t = running s \<and>
    ptable t = (ptable s)[j := (ptable s ! j)\<lparr>pgdir := d, sz := PGSIZE\<rparr>]"
proof -
  let ?s = "s\<lparr>initproc := Some j\<rparr>"
  have r: "at_rest ?s" "on_cpu c ?s" "free_pages ?s (d # ps)" "layout_ok ?s"
    using rest free lay at_rest_cong [of ?s s] on_cpu_cong [of ?s s c] free_pages_cong [of ?s s] by (simp_all add: layout_ok_def)
  have ok: "kmem_ok c ?s (d # ps)" using kmem_ok_rest [OF r(1,2)] r(3) by simp
  obtain u zs qs where u: "setupkvm ?s = Inr (d, u)" "ps = zs @ qs" "pt_ok c u d qs" "length zs \<le> 512"
    "\<forall>v. (\<forall>k \<in> set (kmap_table ?s). \<not> kcovers k v) \<longrightarrow> pte u d v = 0"
    using setupkvm_ok [OF ok r(4)] free(2) by auto
  have zero: "pte u d v = 0" if "v < KERNBASE" for v using u(5) user_half [OF r(4) that] by blast
  have "length ps = length zs + length qs" using u(2) by simp
  then have "60 \<le> length qs" using u(4) free(2) by linarith
  then obtain g rs where qs: "qs = g # rs" "rs \<noteq> []" by (cases qs; cases "tl qs") auto
  have d: "d \<noteq> 0" using kpage_nz ok by (auto simp: kmem_ok_def free_pages_def)
  note U = rest_frame [OF r(1,2) setupkvm_frame [OF u(1)]]
  let ?u = "upd_proc j (\<lambda>p. p\<lparr>pgdir := d\<rparr>) u"
  have ku: "kmem_ok c ?u qs"
    using pt_okD(1) [OF u(3)] kmem_ok_rest [OF U(1,2)] kmem_ok_rest [of ?u c] U(1,2) at_rest_cong [of ?u u] free_pages_cong [of ?u u qs] by simp
  have kp: "kpage ?u = kpage u" by (rule kpage_cong) simp
  note P = pt_ok_other [OF u(3) ku subset_refl kp]
  obtain w where w: "kalloc ?u = Inr (g, w)" "kmem_ok c w rs" "mem w = mem ?u" "kpage w = kpage ?u"
    using kmem_ok_kalloc_page ku unfolding qs(1) by blast
  let ?w = "w\<lparr>mem := memset g 0 PGSIZE (mem w)\<rparr>"
  have g: "kpage u g" "g \<notin> set rs" "\<forall>p \<in> set rs. kpage u p"
    using pt_okD(1) [OF u(3)] unfolding qs(1) by (simp_all add: kmem_ok_def free_pages_def)
  have "\<not> x - g < PGSIZE" if "q \<in> set rs" "x - q < PGSIZE" for q x
    using page_disjoint [of g q x] kpage_aligned [of u] g that by auto
  then have kw: "kmem_ok c ?w rs" by (intro kmem_ok_mem [OF w(2)]) (auto simp: memset_apply)
  have "pt_ok c ?w d rs" "pte ?w d = pte ?u d"
    by (rule pt_ok_other [OF P(1) kw]; use w(3,4) qs(1) kpage_cong [of ?w w] in \<open>auto simp: memset_apply\<close>)+
  moreover have "pte ?u d = pte u d" by (rule P(2)) simp
  ultimately obtain x where x: "mappages d 0 PGSIZE (V2P g) (PTE_W OR PTE_U) ?w = Inr (0, x)"
    using copy_map [of c ?w d rs 0 "V2P g" "PTE_W OR PTE_U"] zero qs(2) by (auto simp: page_aligned_def present_def)
  have "\<not> PGSIZE \<le> initsz" using assms(6) by simp
  then have "inituvm d init initsz ?u = Inr (x\<lparr>mem := memmove g init initsz (mem x)\<rparr>)"
    using w(1) x unfolding inituvm_def by simp
  then obtain y where y: "inituvm d init initsz ?u = Inr y" by blast
  have "at_rest ?u" "on_cpu c ?u" using U(1,2) at_rest_cong [of ?u u] by simp_all
  note Y = rest_frame [OF this inituvm_frame [OF y]]
  have "userinit_image init initsz j s = Inr (upd_proc j (\<lambda>p. p\<lparr>sz := PGSIZE\<rparr>) y)"
    using u(1) d y by (simp add: userinit_image_def)
  moreover have "ptable (upd_proc j (\<lambda>p. p\<lparr>sz := PGSIZE\<rparr>) y) = (ptable s)[j := (ptable s ! j)\<lparr>pgdir := d, sz := PGSIZE\<rparr>]"
    using Y(4) U(4) j by simp
  moreover have "running (upd_proc j (\<lambda>p. p\<lparr>sz := PGSIZE\<rparr>) y) = running s"
    using Y(3) U(3) running_cong [of "upd_proc j (\<lambda>p. p\<lparr>sz := PGSIZE\<rparr>) y" y] running_cong [of ?u u] running_cong [of ?s s] by simp
  ultimately show ?thesis using d by blast
qed

text \<open>The steps of the scheduler and of the timer from a state between steps.\<close>

lemma publish_ok:
  assumes "at_rest s" and "on_cpu c s"
  shows "\<exists>t. publish i s = Inr t \<and> ptable t = (ptable s)[i := (ptable s ! i)\<lparr>state := RUNNABLE\<rparr>] \<and> running t = running s"
proof -
  note sec = in_section_enter [OF assms]
  have "in_section c s (upd_proc i (\<lambda>p. p\<lparr>state := RUNNABLE\<rparr>) (hold PtableLock c s))" using sec(2) by simp
  from in_section_leave [OF assms this] show ?thesis
    using sec(1) on_cpu_length [OF assms(2)] running_same [of s c] by (auto simp: publish_def)
qed

lemma policy_ok:
  assumes "on_cpu c s" and "0 \<le> k" and "k \<le> 3"
  shows "\<exists>t. setSchedPolicy k s = Inr (0, t) \<and> ptable t = ptable s \<and> running t = running s \<and> sched_policy (cpus t ! c) = k"
proof -
  have "mycpu (cli s) = Inr c" using assms(1) by (intro mycpu_on_cpu) (simp_all add: cli_def on_cpu_def)
  then show ?thesis
    using assms on_cpu_length [OF assms(1)]
    by (auto simp: setSchedPolicy_def running_def upd_cpu_def cli_def sti_def map_update map_nth_update)
qed

lemma switchuvm_ok:
  assumes "in_section c s u" and "on_cpu c s" and "kstack (ptable u ! i) \<noteq> 0" and "pgdir (ptable u ! i) \<noteq> 0"
  shows "\<exists>v. switchuvm (Some i) u = Inr v"
proof -
  have on: "on_cpu c u" by (rule in_section_on_cpu [OF assms(1,2)])
  have len: "c < length (cpus u)" by (rule on_cpu_length [OF on])
  let ?x = "push_state c u"
  have my: "mycpu ?x = Inr c" using on by (intro mycpu_on_cpu) (simp, simp add: push_state_def)
  let ?y = "(upd_cpu c (\<lambda>x. x\<lparr>ts_esp0 := kstack (ptable ?x ! i) + KSTACKSIZE\<rparr>) ?x)"
  let ?z = "?y\<lparr>cr3 := (cr3 ?y)(lapic_id ?y := V2P (pgdir (ptable ?y ! i)))\<rparr>"
  have "on_cpu c ?z = on_cpu c ?x" using len by (intro on_cpu_cong) (simp_all add: upd_cpu_def)
  moreover have "ncli (cpus u ! c) = 1" using in_section_cpu(1) [OF assms(1)] on_cpu_length [OF assms(2)] by simp
  moreover have "on_cpu c ?x" using on by simp
  ultimately have "popcli ?z = Inr (pop_state c ?z)"
    using len by (intro popcli_eq) (blast, simp_all add: upd_cpu_def push_state_def cpu_push_def)
  then show ?thesis using pushcli_eq [OF on] my assms(3,4) by (simp add: switchuvm_def Let_def)
qed

lemma start_ok:
  assumes inv: "sys_inv b s" and c: "on_cpu c s" "cpu_proc (cpus s ! c) = None" and pol: "sched_policy (cpus s ! c) = 1"
    and sel: "mlfq_select (ptable s) = Some i" and p: "kstack (ptable s ! i) \<noteq> 0" "pgdir (ptable s ! i) \<noteq> 0"
  shows "\<exists>u v t. acquire PtableLock s = Inr u \<and> mlfq_policy c u \<and> mlfq_select (ptable u) = Some i \<and> dispatch c i u = Inr v \<and>
    release PtableLock v = Inr t \<and> ptable t = (ptable s)[i := (ptable s ! i)\<lparr>state := RUNNING\<rparr>] \<and> running t = (running s)[c := Some i]"
proof -
  note sec = sec_enter [OF inv c] and len = on_cpu_length [OF c(1)]
  let ?u = "hold PtableLock c s"
  let ?w = "upd_cpu c (\<lambda>x. x\<lparr>cpu_proc := Some i\<rparr>) ?u"
  have "in_section c s ?w" using sec(2) len by (intro in_section_upd_cpu) (simp_all add: sec_inv_def)
  from switchuvm_ok [OF this c(1), of i] p obtain x where x: "switchuvm (Some i) ?w = Inr x" by auto
  then obtain v where v: "dispatch c i ?u = Inr v" by (simp add: dispatch_def)
  have i: "i < length (ptable ?u)" "state (ptable ?u ! i) = RUNNABLE" using sel by (simp_all add: mlfq_select_Some_iff)
  note d = dispatch_sec [OF sec(2) c(1) i v]
  have "in_section c s v" using d(1) by (simp add: sec_inv_def)
  from in_section_leave [OF sys_inv_rest [OF inv] c(1) this] obtain t where "release PtableLock v = Inr t"
    "running t = (running s)[c := Some i]" "ptable t = ptable v" using d(2) by auto
  moreover have "mlfq_policy c ?u" using pol len by (simp add: mlfq_policy_def)
  ultimately show ?thesis using sec(1) v sel dispatch_ptab [OF v] by auto
qed

lemma timer_ok:
  fixes s :: "'a ptab_scheme"
  assumes inv: "sys_inv b s" and c: "on_cpu c s" "cpu_proc (cpus s ! c) = Some i"
  shows "\<exists>u. timer_yield s = Inl (Swtch u) \<and> ptable u = (ptable s)[i := (ptable s ! i)\<lparr>
    ran_ticks := (ran_ticks (ptable s ! i))[nat (priority (ptable s ! i)) := int_inc (ran_ticks (ptable s ! i) ! nat (priority (ptable s ! i)))],
    state := RUNNABLE\<rparr>]"
proof -
  have rest: "at_rest s" by (rule sys_inv_rest [OF inv])
  note m = myproc_rest [OF rest c] and i = sys_inv_runs [OF inv c]
  let ?j = "nat (priority (ptable s ! i))"
  let ?u = "upd_proc i (\<lambda>p. p\<lparr>ran_ticks := (ran_ticks p)[?j := int_inc (ran_ticks p ! ?j)]\<rparr>) (cli_mark c s)"
  have r: "at_rest ?u" "on_cpu c ?u" using m(2,3) at_rest_cong [of ?u "cli_mark c s"] by simp_all
  note sec = in_section_enter [OF r]
  let ?h = "hold PtableLock c ?u"
  let ?t = "upd_proc i (\<lambda>p. p\<lparr>state := RUNNABLE\<rparr>) ?h"
  have p: "cpu_proc (cpus ?h ! c) = Some i" using m(4) on_cpu_length [OF c(1)] by simp
  have "(sched ?t :: 'a ptab_scheme fault + 'a ptab_scheme) = Inl (Swtch ?t)"
    using sec p r(2) i(1) by (intro sched_in_section [of c ?u ?t i]) simp_all
  then have "(yield ?u :: 'a ptab_scheme fault + 'a ptab_scheme) = Inl (Swtch ?t)"
    using sec(1) myproc_section [OF sec(2) r(2) p] by (simp add: yield_def deref_def)
  then have "timer_yield s = Inl (Swtch ?t)" using m(1) i(2) by (simp add: timer_yield_def Let_def)
  then show ?thesis using i(1) by simp
qed

lemma tail_ok:
  assumes "sec_inv b c None s u" and "at_rest s" "on_cpu c s" and "i < length (ptable u)"
  shows "\<exists>t. release PtableLock (sched_tail mlfq c i u) = Inr t \<and> ptable t = ptable (sched_tail mlfq c i u)"
  using in_section_leave [OF assms(2,3)] sched_tail_sec(1) [OF assms(1) on_cpu_length [OF assms(3)] assms(4), of mlfq]
  unfolding sec_inv_def by blast

subsection \<open>A run of the system\<close>

text \<open>A machine with two CPUs and 2048 free pages at boot.\<close>

definition demo_blank :: ptab where
  "demo_blank = (demo_ptab (replicate NPROC zero_proc))\<lparr>nextpid := 1, freelist := 0, cpus := [demo_cpu 0, demo_cpu 1]\<rparr>"

definition demo_start :: ptab where
  "demo_start = (case freerange_loop 0x80400000 0x80C00000 demo_blank of Inr t \<Rightarrow> t | Inl _ \<Rightarrow> demo_blank)"

lemma demo_blank_ok: "boot_ptab demo_blank" "on_cpu 0 demo_blank" "free_pages demo_blank []" "layout_ok demo_blank"
  "end_addr demo_blank \<le> 0x80400000" "length (cpus demo_blank) = 2"
  by (simp_all add: demo_blank_def boot_ptab_def demo_ptab_def demo_cpu_def on_cpu_def free_pages_def layout_ok_def page_aligned_def P2V_def)

lemma demo_start_ok: "boot_ptab demo_start" "on_cpu 0 demo_start" "free_pages demo_start demo_pages" "layout_ok demo_start"
  "length (cpus demo_start) = 2"
proof -
  have rest: "at_rest demo_blank" using proc_inv_boot [OF demo_blank_ok(1)] by (simp add: proc_inv_def)
  have "kmem_ok 0 demo_blank []" using kmem_ok_rest [OF rest demo_blank_ok(2)] demo_blank_ok(3) by simp
  then obtain t where t: "freerange_loop 0x80400000 0x80C00000 demo_blank = Inr t" "kmem_ok 0 t demo_pages"
    using freerange_pages [of 0 demo_blank "[]" "0x80400000" "0x80C00000"] demo_blank_ok(5) by (auto simp: page_aligned_def demo_pages_def)
  have e: "demo_start = t" by (simp add: demo_start_def t(1))
  note F = rest_frame [OF rest demo_blank_ok(2) freerange_loop_frame [OF t(1)]]
  have "cpu_proc x = None" if "x \<in> set (cpus t)" for x
  proof -
    have "cpu_proc x \<in> set (running t)" using that by (simp add: running_def)
    then show ?thesis unfolding F(3) using demo_blank_ok(1) by (auto simp: running_def boot_ptab_def)
  qed
  then show "boot_ptab demo_start"
    using demo_blank_ok(1) F(1,4,5) by (simp add: e boot_ptab_def at_rest_def)
  show "on_cpu 0 demo_start" "length (cpus demo_start) = 2" using F(2,7) demo_blank_ok(6) by (simp_all add: e)
  show "free_pages demo_start demo_pages" using t(2) by (simp add: e kmem_ok_def)
  show "layout_ok demo_start"
    using demo_blank_ok(4) more_vm [of t demo_blank] freerange_loop_frame [OF t(1)] by (simp add: e vframe_def layout_ok_def)
qed

lemma running_nth: "running t = running s \<Longrightarrow> c < length (cpus s) \<Longrightarrow> cpu_proc (cpus t ! c) = cpu_proc (cpus s ! c)"
  unfolding running_def by (metis length_map nth_map)

lemma running_length: "running t = running s \<Longrightarrow> length (cpus t) = length (cpus s)"
  unfolding running_def by (metis length_map)

lemma at_cpu_ready:
  assumes "proc_reachable n (m, s)" and "c < length (cpus s)"
  shows "at_rest (at_cpu c s)" "on_cpu c (at_cpu c s)" "\<exists>b. sys_inv b (at_cpu c s)"
  using sys_inv_reachable [OF assms(1)] at_cpu_on [OF _ assms(2)] sys_inv_rest by auto

text \<open>The first process, created and ready to run, \<open>k\<close> being its kernel stack and \<open>d\<close> its page directory.\<close>

definition ready_proc :: "u32 \<Rightarrow> u32 \<Rightarrow> proc" where
  "ready_proc k d = (first_proc k)\<lparr>pgdir := d, sz := PGSIZE, state := RUNNABLE\<rparr>"

lemma demo_ready:
  "\<exists>m s k d. proc_reachable 1 (m, s) \<and> ptable s = (replicate NPROC zero_proc)[0 := ready_proc k d] \<and> k \<noteq> 0 \<and> d \<noteq> 0 \<and>
     length (cpus s) = 2 \<and> cpu_proc (cpus s ! 0) = None \<and> cpu_proc (cpus s ! 1) = None"
proof -
  let ?s = demo_start and ?m = "\<lambda>_ :: nat. False"
  have B: "proc_reachable 0 (?m, ?s)" by (rule proc_boot [OF demo_start_ok(1)])
  have l0: "0 < length (cpus ?s)" using demo_start_ok(5) by simp
  note A = at_cpu_ready [OF B l0]
  obtain k l where kl: "demo_pages = k # l" using demo_pages_split by blast
  have "length l = 2047" using demo_free_ok(2) unfolding kl by simp
  then obtain d ps where "l = d # ps" "length ps = 2046" by (cases l) auto
  then have pg: "demo_pages = k # d # ps" "600 \<le> length ps" using kl by simp_all
  have boot: "boot_ptab (at_cpu 0 ?s)" "free_pages (at_cpu 0 ?s) (k # d # ps)" "layout_ok (at_cpu 0 ?s)"
    using demo_start_ok pg free_pages_cong [of "at_cpu 0 ?s" ?s] by (simp_all add: boot_ptab_def layout_ok_def at_cpu_def)
  from alloc_first [OF boot(1) A(2) boot(2)] obtain t where t: "allocproc (at_cpu 0 ?s) = Inr (Some 0, t)"
    "ptable t = (replicate NPROC zero_proc)[0 := first_proc k]" "running t = running ?s" "free_pages t (d # ps)" "layout_ok t"
    using boot(1,3) by (auto simp: boot_ptab_def layout_ok_def)
  have R1: "proc_reachable 1 (?m, t)" using proc_alloc [OF B l0 t(1)] by simp
  have l1: "0 < length (cpus t)" using running_length [OF t(3)] l0 by simp
  note A1 = at_cpu_ready [OF R1 l1]
  have "free_pages (at_cpu 0 t) (d # ps)" "layout_ok (at_cpu 0 t)"
    using t(4,5) free_pages_cong [of "at_cpu 0 t" t] by (simp_all add: layout_ok_def at_cpu_def)
  from userinit_ok [OF A1(1,2) this(1) pg(2) this(2), of 0 0 0] t(2) obtain u where u: "userinit_image 0 0 0 (at_cpu 0 t) = Inr u" "d \<noteq> 0"
    "running u = running ?s" "ptable u = (replicate NPROC zero_proc)[0 := (first_proc k)\<lparr>pgdir := d, sz := PGSIZE\<rparr>]"
    using t(3) by auto
  have R2: "proc_reachable 1 (?m, u)"
    by (rule proc_next [OF R1 l1 step_userinit [OF _ _ u(1)]]) (use t(2) in \<open>simp_all add: first_proc_def\<close>)
  have l2: "0 < length (cpus u)" using running_length [OF u(3)] l0 by simp
  from publish_ok [OF at_cpu_ready(1,2) [OF R2 l2], of 0] obtain v where v: "publish 0 (at_cpu 0 u) = Inr v"
    "running v = running ?s" "ptable v = (replicate NPROC zero_proc)[0 := ready_proc k d]" using u(3,4) by (auto simp: ready_proc_def)
  have R3: "proc_reachable 1 (?m, v)"
    by (rule proc_next [OF R2 l2 step_publish [OF _ _ v(1)]]) (use u(4) in \<open>simp_all add: first_proc_def\<close>)
  moreover have "k \<noteq> 0" using boot(2) kpage_nz by (auto simp: free_pages_def)
  moreover have "cpu_proc (cpus v ! c) = None" if "c < 2" for c
    using running_nth [OF v(2), of c] demo_start_ok(1,5) that by (simp add: boot_ptab_def)
  ultimately show ?thesis using u(2) v(3) running_length [OF v(2)] demo_start_ok(5) by (intro exI [of _ ?m] exI [of _ v]) auto
qed

lemma demo_select: "mlfq_select ((replicate NPROC zero_proc)[0 := ready_proc k d]) = Some 0"
proof -
  have "state (((replicate NPROC zero_proc)[0 := ready_proc k d]) ! j) \<noteq> RUNNABLE" if "j \<noteq> 0" "j < 64" for j
    using that by (simp add: zero_proc_def)
  then show ?thesis unfolding mlfq_select_Some_iff by (auto simp: ready_proc_def first_proc_def)
qed

lemma demo_runs:
  "\<exists>m s k d. proc_reachable 1 (m, s) \<and> ptable s = (replicate NPROC zero_proc)[0 := (ready_proc k d)\<lparr>state := RUNNING\<rparr>] \<and> m 0 \<and>
     length (cpus s) = 2 \<and> cpu_proc (cpus s ! 0) = Some 0 \<and> cpu_proc (cpus s ! 1) = None"
proof -
  obtain m s k d where s: "proc_reachable 1 (m, s)" "ptable s = (replicate NPROC zero_proc)[0 := ready_proc k d]" "k \<noteq> 0" "d \<noteq> 0"
    "length (cpus s) = 2" "cpu_proc (cpus s ! 0) = None" "cpu_proc (cpus s ! 1) = None" using demo_ready by blast
  have l: "0 < length (cpus s)" using s(5) by simp
  from policy_ok [OF at_cpu_ready(2) [OF s(1) l], of 1] obtain t where t: "setSchedPolicy 1 (at_cpu 0 s) = Inr (0, t)" "ptable t = ptable s"
    "running t = running s" "sched_policy (cpus t ! 0) = 1" by auto
  have R: "proc_reachable 1 (m, t)" by (rule proc_next [OF s(1) l step_policy [OF t(1)]])
  have l1: "0 < length (cpus t)" "length (cpus t) = 2" using running_length [OF t(3)] s(5) by simp_all
  have n: "cpu_proc (cpus t ! 0) = None" "cpu_proc (cpus t ! 1) = None" using running_nth [OF t(3)] s(5-7) by simp_all
  obtain b where b: "sys_inv b (at_cpu 0 t)" using at_cpu_ready(3) [OF R l1(1)] by blast
  let ?a = "sti (at_cpu 0 t)"
  have "on_cpu 0 ?a" "sys_inv b ?a" using at_cpu_ready(2) [OF R l1(1)] b by simp_all
  from start_ok [OF this(2,1), of 0] obtain u v w where u: "acquire PtableLock ?a = Inr u" "mlfq_policy 0 u" "mlfq_select (ptable u) = Some 0"
    "dispatch 0 0 u = Inr v" "release PtableLock v = Inr w" "ptable w = (ptable t)[0 := (ptable t ! 0)\<lparr>state := RUNNING\<rparr>]"
    "running w = (running t)[0 := Some 0]"
    using n(1) t(2,4) s(2-4) demo_select by (auto simp: ready_proc_def first_proc_def)
  have "proc_step 0 (m, t) (m(0 := mlfq_policy 0 u), w)"
    by (rule step_start [OF n(1) u(1) _ u(4) on_forkret [OF u(5)]]) (use u(2,3) in simp)
  then have R': "proc_reachable 1 (m(0 := True), w)" using proc_next [OF R l1(1)] u(2) by simp
  have len: "length (cpus w) = 2" using arg_cong [OF u(7), of length] l1(2) by (simp add: running_def)
  have "running w ! 0 = Some 0" "running w ! 1 = None" using u(7) l1(2) n(2) by (simp_all add: running_def)
  then have "cpu_proc (cpus w ! 0) = Some 0" "cpu_proc (cpus w ! 1) = None" using len by (simp_all add: running_def)
  then show ?thesis using R' u(6) t(2) s(2) len by (intro exI [of _ "m(0 := True)"] exI [of _ w] exI [of _ k] exI [of _ d]) simp
qed

lemma demo_interrupted:
  "\<exists>m s. proc_reachable 1 (m, s) \<and> length (ptable s) = 64 \<and> state (ptable s ! 0) = RUNNABLE \<and> ran_ticks (ptable s ! 0) = [0, 0, 0, 1] \<and>
     pid (ptable s ! 0) = 1"
proof -
  obtain m s k d where s: "proc_reachable 1 (m, s)" "ptable s = (replicate NPROC zero_proc)[0 := (ready_proc k d)\<lparr>state := RUNNING\<rparr>]" "m 0"
    "length (cpus s) = 2" "cpu_proc (cpus s ! 0) = Some 0" using demo_runs by blast
  have l: "0 < length (cpus s)" using s(4) by simp
  note A = at_cpu_ready [OF s(1) l]
  obtain b where b: "sys_inv b (at_cpu 0 s)" using A(3) by blast
  have p: "cpu_proc (cpus (at_cpu 0 s) ! 0) = Some 0" using s(5) by simp
  from timer_ok [OF b A(2) p] obtain u where u: "timer_yield (at_cpu 0 s) = Inl (Swtch u)"
    "ptable u = (ptable s)[0 := (ptable s ! 0)\<lparr>ran_ticks := [0, 0, 0, 1], state := RUNNABLE\<rparr>]"
    unfolding s(2) by (auto simp: ready_proc_def first_proc_def zero_proc_def s(2) int_inc_def)
  have up: "gives_up 0 (at_cpu 0 s) u" by (rule up_timer [OF u(1)])
  note sec = gives_up_sec [OF up b A(2) p]
  from tail_ok [of b 0 "at_cpu 0 s" u 0 True] sec A(1,2) obtain t where t: "release PtableLock (sched_tail True 0 0 u) = Inr t"
    "ptable t = ptable (sched_tail True 0 0 u)" by blast
  have "proc_step 0 (m, s) (m, t)"
    by (rule step_give_up [OF s(5) up]) (use t(1) s(3) in \<open>auto intro: back_end\<close>)
  then have R: "proc_reachable 1 (m, t)" by (rule proc_next [OF s(1) l])
  have "ptable t ! 0 = boost (demote (ptable u ! 0))" "length (ptable t) = 64"
    using t(2) u(2) s(2) mlfq_account_nth [of 0 "switchkvm u" 0] sched_tail_nth(3) [OF conjunct2 [OF sec], of True 0] conjunct2 [OF sec]
    by (simp_all add: sched_tail_def Let_def)
  moreover have "ptable u ! 0 = (ready_proc k d)\<lparr>ran_ticks := [0, 0, 0, 1]\<rparr>" using u(2) s(2) by (simp add: ready_proc_def)
  ultimately show ?thesis
    using R by (intro exI [of _ m] exI [of _ t]) (simp add: boost_def demote_def ready_proc_def first_proc_def zero_proc_def slice_def Let_def)
qed

subsection \<open>Properties\<close>

text \<open>C1. Processes on several CPUs. Whatever sequence of process creations, address space changes, kills, wake-ups, sleeps, exits,
  waits, timer interrupts, policy changes and scheduling decisions the CPUs perform from boot on: no process is the
  current process of two CPUs, and a process is \<^verbatim>\<open>RUNNING\<close> exactly if it is the current process of one.\<close>

theorem one_cpu_per_process:
  assumes "proc_reachable n (m, s)"
  shows "(\<forall>i < length (ptable s). state (ptable s ! i) = RUNNING \<longleftrightarrow>
        (\<exists>c < length (cpus s). cpu_proc (cpus s ! c) = Some i)) \<and>
    (\<forall>c < length (cpus s). \<forall>d < length (cpus s). cpu_proc (cpus s ! c) \<noteq> None \<longrightarrow>
        cpu_proc (cpus s ! c) = cpu_proc (cpus s ! d) \<longrightarrow> c = d)"
proof -
  have "run_inv (running s) (ptable s)" using sys_inv_reachable [OF assms] by (simp add: sys_inv_def)
  note D = run_invD [OF this]
  show ?thesis
  proof (intro conjI allI impI)
    fix i assume i: "i < length (ptable s)"
    show "state (ptable s ! i) = RUNNING \<longleftrightarrow> (\<exists>c < length (cpus s). cpu_proc (cpus s ! c) = Some i)"
    proof
      assume "state (ptable s ! i) = RUNNING"
      from D(2) [OF i this] obtain c where "c < length (cpus s)" "cpu_proc (cpus s ! c) = Some i"
        unfolding running_def in_set_conv_nth by (metis length_map nth_map)
      then show "\<exists>c < length (cpus s). cpu_proc (cpus s ! c) = Some i" by blast
    next
      assume "\<exists>c < length (cpus s). cpu_proc (cpus s ! c) = Some i"
      then show "state (ptable s ! i) = RUNNING" using D(1) by (auto simp: running_def)
    qed
  next
    fix c d assume "c < length (cpus s)" "d < length (cpus s)" "cpu_proc (cpus s ! c) \<noteq> None"
      "cpu_proc (cpus s ! c) = cpu_proc (cpus s ! d)"
    then show "c = d" using D(3) [of c d] by (auto simp: running_def)
  qed
qed

text \<open>The first process runs on the first CPU of the machine and not on the second.\<close>

theorem one_cpu_per_process_witness:
  "\<exists>m s. proc_reachable 1 (m, s) \<and> length (cpus s) = 2 \<and> state (ptable s ! 0) = RUNNING \<and> pid (ptable s ! 0) = 1 \<and>
     cpu_proc (cpus s ! 0) = Some 0 \<and> cpu_proc (cpus s ! 1) \<noteq> Some 0"
proof -
  obtain m s k d where s: "proc_reachable 1 (m, s)" "ptable s = (replicate NPROC zero_proc)[0 := (ready_proc k d)\<lparr>state := RUNNING\<rparr>]"
    "length (cpus s) = 2" "cpu_proc (cpus s ! 0) = Some 0" using demo_runs by blast
  have "state (ptable s ! 0) = RUNNING"
    using conjunct1 [OF one_cpu_per_process [OF s(1)], rule_format, of 0] s by (auto intro!: exI [of _ 0])
  moreover have "cpu_proc (cpus s ! 1) \<noteq> Some 0"
    using conjunct2 [OF one_cpu_per_process [OF s(1)], rule_format, of 0 1] s by auto
  ultimately show ?thesis using s by (intro exI [of _ m] exI [of _ s]) (simp add: ready_proc_def first_proc_def)
qed

text \<open>C2. In every reachable state every slot of the process table has a priority between \<open>0\<close> and \<open>3\<close> and waiting times below the
  limits of \<^verbatim>\<open>priority_boost\<close>. Up to \<open>2 ^ 31 - 2\<close> calls of \<^verbatim>\<open>allocproc\<close>, that is before the counter \<^verbatim>\<open>nextpid\<close> overflows, the
  pids of the slots in use are positive, below \<^verbatim>\<open>nextpid\<close> and pairwise different.\<close>

theorem table_invariant:
  assumes "proc_reachable n (m, s)"
  shows "(\<forall>i < length (ptable s). sched_ok (ptable s ! i)) \<and>
    (n \<le> 2 ^ 31 - 2 \<longrightarrow>
      (\<forall>i < length (ptable s). state (ptable s ! i) \<noteq> UNUSED \<longrightarrow> 0 < pid (ptable s ! i) \<and> pid (ptable s ! i) < nextpid s) \<and>
      (\<forall>i < length (ptable s). \<forall>j < length (ptable s). i \<noteq> j \<longrightarrow> state (ptable s ! i) \<noteq> UNUSED \<longrightarrow>
         state (ptable s ! j) \<noteq> UNUSED \<longrightarrow> pid (ptable s ! i) \<noteq> pid (ptable s ! j)))"
proof -
  have "tab_inv (if n < 2147483647 then 1 + int n else 0) (nextpid s) (ptable s)"
    using sys_inv_reachable [OF assms] by (simp add: sys_inv_def)
  note D = tab_invD [OF this]
  show ?thesis using D(1,3,4) by (auto simp: in_use_def)
qed

text \<open>The first process, after its first timer interrupt.\<close>

theorem table_invariant_witness:
  "\<exists>m s. proc_reachable 1 (m, s) \<and> state (ptable s ! 0) = RUNNABLE \<and> ran_ticks (ptable s ! 0) = [0, 0, 0, 1] \<and>
     sched_ok (ptable s ! 0) \<and> pid (ptable s ! 0) = 1 \<and> 1 < nextpid s"
proof -
  obtain m s where s: "proc_reachable 1 (m, s)" "length (ptable s) = 64" "state (ptable s ! 0) = RUNNABLE" "ran_ticks (ptable s ! 0) = [0, 0, 0, 1]"
    "pid (ptable s ! 0) = 1" using demo_interrupted by blast
  have "sched_ok (ptable s ! 0) \<and> pid (ptable s ! 0) < nextpid s" using table_invariant [OF s(1)] s(2,3) by auto
  then show ?thesis using s by auto
qed

end
