(* ===== verification/Spec2Isabelle.thy ===== *)
theory Spec2Isabelle
  imports Consprops Procreach
begin

text \<open>
  Verification of the xv6 kernel in \<^verbatim>\<open>src/\<close>: a Unix-like kernel for x86 multiprocessors with UEFI boot, a multi-level
  feedback queue (MLFQ) scheduler, and a logged file system on a memory disk.

  \<^bold>\<open>How the program is modelled.\<close> The state of the machine is one record that grows along the theories in the order in which
  the parts of the kernel use each other: \<open>mach\<close> (CPUs, interrupt flags, spin locks), \<open>kmem\<close> (byte memory, free list), \<open>vm\<close>
  (page tables, cr3), \<open>ptab\<close> (process table, ticks), \<open>pipest\<close>, \<open>sleepst\<close>, \<open>bcachest\<close> (buffers, disk), \<open>logst\<close>,
  \<open>fsst\<close> (superblock, inode cache), \<open>filest\<close>, \<open>kst\<close> and \<open>consst\<close> (console, frame buffer, input). An operation is a function
  on every extension of its record, so that higher layers call it on their larger state. A C function of the kernel is a
  definition of the same name. It returns \<open>Inr\<close> of its result and the new state, or \<open>Inl\<close> of what keeps it from
  returning: \<open>Panic\<close>, a spin lock held elsewhere (\<open>Spin\<close>), a switch to the scheduler (\<open>Swtch\<close>, with the state at that
  moment), a null pointer, an endless loop (\<open>Halted\<close>). The code after a switch is a definition with the suffix \<open>_resume\<close>, so that
  anything may happen in between. Unsigned words are kept at their width. The signed counters that grow without bound (\<^verbatim>\<open>nextpid\<close>
  and with it the pids, and the tick counters of a process) wrap around at 32 bits; the other signed counters (nesting of
  \<^verbatim>\<open>pushcli\<close>, reference counts, sizes of tables and of the log) are integers, as the sizes of the kernel's tables keep them
  small. Memory is a function from 32-bit addresses to bytes, in which
  page tables, trap frames, the free list and the frame buffer are laid out as the compiler lays them out.

  \<^bold>\<open>Theories and the code they model.\<close>
  \<^item> \<open>Prelude\<close>: result type, sequencing, table scans, address arithmetic of \<^verbatim>\<open>mmu.h\<close>.
  \<^item> \<open>Spinlock\<close> (\<^verbatim>\<open>spinlock.c\<close>): in every reachable state the nesting count of a CPU is the number of its locks and
    interrupts are off while it holds one; acquire and release cancel; a held lock panics or spins.
  \<^item> \<open>CString\<close> (\<^verbatim>\<open>string.c\<close>): \<^verbatim>\<open>memmove\<close> on overlapping ranges, \<^verbatim>\<open>memset\<close> word-wise and byte-wise, \<^verbatim>\<open>safestrcpy\<close>.
  \<^item> \<open>Kalloc\<close> (\<^verbatim>\<open>kalloc.c\<close>): the free list in memory refines a stack of pages.
  \<^item> \<open>Vm\<close> (\<^verbatim>\<open>vm.c\<close>), with \<open>Vmprops\<close>, \<open>Vmmaps\<close> and \<open>Vmcopy\<close>: \<^verbatim>\<open>mappages\<close> enters exactly its pages; the kernel address
    space gives users nothing; \<^verbatim>\<open>copyuvm\<close> gives a child the same bytes on fresh pages.
  \<^item> \<open>Proc\<close> and \<open>Sched\<close> (\<^verbatim>\<open>proc.c\<close>): the MLFQ search, and its fairness over consecutive rounds of one CPU. \<open>Procops\<close> and
    \<open>Procsys\<close>: the process layer as a system of any number of CPUs. Its steps are whole operations: creation of a process and of its
    address space, \<^verbatim>\<open>growproc\<close>, \<^verbatim>\<open>kill\<close>, \<^verbatim>\<open>wakeup\<close>, \<^verbatim>\<open>wait\<close>, a change of the scheduling policy, a process giving up its CPU, and
    the scheduler starting one, with what the process does when it resumes and, in the round-robin branch, the hand-over to the
    next process. The invariant of the system holds by rule induction. \<open>Procreach\<close>: in every reachable state a process runs on at
    most one CPU, scheduling fields are in range, and pids are distinct as long as \<^verbatim>\<open>nextpid\<close> has not overflowed; a run from boot
    to the first process running and being interrupted. \<open>Procprops\<close>: no lost wakeups, with the actions of \<^verbatim>\<open>sleep\<close> interleaved one
    by one with other CPUs; \<^verbatim>\<open>kill\<close>. \<open>Atproc\<close>: rules for kernel code between critical sections.
  \<^item> \<open>Pipe\<close> (\<^verbatim>\<open>pipe.c\<close>): first in, first out under every interleaving of calls. The locale \<open>bounded_queue\<close> is the contract of
    the ring buffer.
  \<^item> \<open>Sleeplock\<close> (\<^verbatim>\<open>sleeplock.c\<close>), \<open>Bio\<close> (\<^verbatim>\<open>bio.c\<close>, \<^verbatim>\<open>memide.c\<close>), \<open>Block\<close>: the linked LRU ring of buffers presents the
    disk; \<^verbatim>\<open>bwrite\<close> and \<^verbatim>\<open>bread\<close> round trip; exhaustion panics.
  \<^item> \<open>Log\<close> (\<^verbatim>\<open>log.c\<close>): commits are atomic under a crash between any two disk writes and durable; admission leaves room for
    every admitted operation.
  \<^item> \<open>Fs\<close> (\<^verbatim>\<open>fs.c\<close>), with \<open>Fsprops\<close>, \<open>Filedata\<close> and \<open>Fileprops\<close>: block allocation; \<^verbatim>\<open>writei\<close> and \<^verbatim>\<open>readi\<close> refine
    overwriting and taking a segment of a byte sequence, through direct and indirect blocks.
  \<^item> \<open>File\<close>, \<open>Syscall\<close>, \<open>Sysfile\<close>, \<open>Exec\<close>, \<open>Process\<close> (\<^verbatim>\<open>file.c\<close>, \<^verbatim>\<open>syscall.c\<close>, \<^verbatim>\<open>sysfile.c\<close>, \<^verbatim>\<open>exec.c\<close>, \<^verbatim>\<open>sysproc.c\<close>,
    \<^verbatim>\<open>trap.c\<close> and the rest of \<^verbatim>\<open>proc.c\<close>): the models of these operations.
  \<^item> \<open>Console\<close> (\<^verbatim>\<open>console.c\<close>, \<^verbatim>\<open>uart.c\<close>, \<^verbatim>\<open>kbd.c\<close>, \<^verbatim>\<open>font.c\<close>, \<^verbatim>\<open>graphic.c\<close>), with \<open>Consprops\<close>: the
    console and its devices; the input ring refines a line editor, reads take lines, numbers print without overrunning the
    buffer and read back. The ring is a second instance of \<open>bounded_queue\<close>.

  \<^bold>\<open>Bounds and termination.\<close> Loops are recursive functions that terminate; none is cut off by a bound that the code does
  not have. Loops over pages whose counter would pass the end of the address space end in \<open>Wrapped\<close>. The loops of the
  console over \<^verbatim>\<open>getc\<close> run over the bytes waiting in the device, and the digit buffer of \<^verbatim>\<open>printint\<close> has its 16 places.

  \<^bold>\<open>Parameters.\<close> The tables of devices (\<open>devsw\<close>), the user-level scheduler that \<^verbatim>\<open>trap\<close> calls and the interrupt handler of
  the network card are arguments of the definitions that use them.

  \<^bold>\<open>Atomicity.\<close> An operation is one function of the state, so that other CPUs act before or after it; the steps inside it are
  visible to them only where a theorem takes it apart, as for \<^verbatim>\<open>sleep\<close> (\<open>sleep_acts\<close>). \<^verbatim>\<open>acquire\<close> takes a free lock in one
  action; the name and the call stack in a lock are left out. The contents of a pipe are a component of the state and not bytes of
  memory. The properties of \<^verbatim>\<open>writei\<close> and \<^verbatim>\<open>readi\<close> are about calls inside a transaction.

  \<^bold>\<open>Not modelled.\<close> What a file system call (\<^verbatim>\<open>file.c\<close>, \<^verbatim>\<open>fs.c\<close>, \<^verbatim>\<open>sysfile.c\<close>, \<^verbatim>\<open>exec.c\<close>) does after it has waited for a sleep
  lock, the log or a pipe: the call ends in \<open>Swtch\<close>, and only the operation in which it waits has a \<open>_resume\<close>
  definition. The network stack and card, PCI, APICs and PIC, boot code and firmware tables, assembly (\<^verbatim>\<open>swtch\<close> is
  the boundary at which a call ends and resumes), segment and interrupt descriptors, the IDE driver that is not linked in, the
  image builder \<^verbatim>\<open>mkfs\<close>, the font bitmaps, and the user programs and tests.
\<close>

end
